(* ===== verification/Net_Prelude.thy ===== *)
theory Net_Prelude
  imports Main "HOL-Library.Word" "HOL-Library.Signed_Division"
begin

text \<open>
  What every component of the stack shares: the C integer types at their width, the memory image
  of the packed structs (little-endian host, as on the x86-64 Linux the program is built for), the
  byte-order functions of \<^verbatim>\<open>arpa/inet.h\<close>, reads and writes of a buffer at an offset, and the ways
  a run of the program can stop early.  The locale \<open>packed_struct\<close> is the interface between a
  struct and the buffers it is overlaid on; every struct of the program interprets it.
\<close>

unbundle bit_operations_syntax

named_theorems byte_simps \<open>byte order and memory image of integers and structs\<close>
named_theorems buf_simps \<open>reads and writes of a buffer at an offset\<close>

section \<open>C integers\<close>

type_synonym u8 = "8 word"
type_synonym u16 = "16 word"
type_synonym u32 = "32 word"
type_synonym u64 = "64 word"
type_synonym bytes = "u8 list"

text \<open>A C \<^verbatim>\<open>long\<close> is an \<open>int\<close> whose operations wrap to 64 bits in two's complement where
  the source can overflow it.\<close>

definition wrap64 :: "int \<Rightarrow> int" where
  "wrap64 x = signed_take_bit 63 x"

lemma wrap64_id: "- (2 ^ 63) \<le> x \<Longrightarrow> x < 2 ^ 63 \<Longrightarrow> wrap64 x = x"
  unfolding wrap64_def by (rule signed_take_bit_int_eq_self) simp_all

section \<open>Ways a run can stop\<close>

text \<open>
  Each constructor carries the state at the point where the program stops: a failed
  \<^verbatim>\<open>assert\<close>, a call of \<^verbatim>\<open>abort\<close> or \<^verbatim>\<open>exit\<close>, an access outside an array or buffer (undefined
  behaviour in C), or a loop that never ends.
\<close>

datatype 'w halt =
    AssertFail 'w
  | Abort 'w
  | Exit int 'w
  | OutOfBounds 'w
  | Diverges 'w

type_synonym ('w, 'a) run = "'w halt + 'a"

definition bind_run :: "('w, 'a) run \<Rightarrow> ('a \<Rightarrow> ('w, 'b) run) \<Rightarrow> ('w, 'b) run" where
  "bind_run m f = (case m of Inl e \<Rightarrow> Inl e | Inr x \<Rightarrow> f x)"

lemma bind_run_simps [simp]:
  "bind_run (Inl e) f = Inl e"
  "bind_run (Inr x) f = f x"
  by (simp_all add: bind_run_def)

lemma bind_run_eq_Inr:
  "bind_run m f = Inr y \<longleftrightarrow> (\<exists>x. m = Inr x \<and> f x = Inr y)"
  by (cases m) simp_all

lemma bind_run_assoc: "bind_run (bind_run m f) g = bind_run m (\<lambda>x. bind_run (f x) g)"
  by (cases m) simp_all

text \<open>A call that may not return, as \<open>None\<close>, seen from a caller with state \<open>w\<close>.\<close>

definition returning :: "'w \<Rightarrow> 'a option \<Rightarrow> ('w, 'a) run" where
  "returning w r = (case r of None \<Rightarrow> Inl (Diverges w) | Some x \<Rightarrow> Inr x)"

lemma returning_simps [simp]:
  "returning w None = Inl (Diverges w)"
  "returning w (Some x) = Inr x"
  by (simp_all add: returning_def)

section \<open>Integers in memory and in network byte order\<close>

definition u16_bytes :: "u16 \<Rightarrow> bytes" where
  "u16_bytes w = [ucast w, ucast (drop_bit 8 w)]"

definition u16_of :: "u8 \<Rightarrow> u8 \<Rightarrow> u16" where
  "u16_of b0 b1 = ucast b0 OR push_bit 8 (ucast b1)"

definition u32_bytes :: "u32 \<Rightarrow> bytes" where
  "u32_bytes w =
     [ucast w, ucast (drop_bit 8 w), ucast (drop_bit 16 w), ucast (drop_bit 24 w)]"

definition u32_of :: "u8 \<Rightarrow> u8 \<Rightarrow> u8 \<Rightarrow> u8 \<Rightarrow> u32" where
  "u32_of b0 b1 b2 b3 =
     ucast b0 OR push_bit 8 (ucast b1) OR push_bit 16 (ucast b2) OR push_bit 24 (ucast b3)"

text \<open>\<^verbatim>\<open>htons\<close>, \<^verbatim>\<open>ntohs\<close>, \<^verbatim>\<open>htonl\<close> and \<^verbatim>\<open>ntohl\<close> of a little-endian host.\<close>

definition htons :: "u16 \<Rightarrow> u16" where
  "htons w = u16_of (ucast (drop_bit 8 w)) (ucast w)"

definition ntohs :: "u16 \<Rightarrow> u16" where
  "ntohs w = htons w"

definition htonl :: "u32 \<Rightarrow> u32" where
  "htonl w = u32_of (ucast (drop_bit 24 w)) (ucast (drop_bit 16 w)) (ucast (drop_bit 8 w)) (ucast w)"

definition ntohl :: "u32 \<Rightarrow> u32" where
  "ntohl w = htonl w"

lemma bit_u8_beyond [simp]: "8 \<le> n \<Longrightarrow> \<not> bit (b :: u8) n"
  using bit_imp_le_length [of b n] by auto

lemma u16_of_bytes [byte_simps]: "u16_of (ucast w) (ucast (drop_bit 8 w)) = w"
  unfolding u16_of_def by (rule bit_word_eqI) (auto simp: bit_simps)

lemma u16_of_lo [byte_simps]: "ucast (u16_of b0 b1) = b0"
  unfolding u16_of_def by (rule bit_word_eqI) (auto simp: bit_simps)

lemma u16_of_hi [byte_simps]: "ucast (drop_bit 8 (u16_of b0 b1)) = b1"
  unfolding u16_of_def by (rule bit_word_eqI) (auto simp: bit_simps)

lemma u32_of_bytes [byte_simps]:
  "u32_of (ucast w) (ucast (drop_bit 8 w)) (ucast (drop_bit 16 w)) (ucast (drop_bit 24 w)) = w"
proof (rule bit_word_eqI)
  fix n
  assume n: "n < LENGTH(32)"
  consider "n < 8" | "8 \<le> n" "n < 16" | "16 \<le> n" "n < 24" | "24 \<le> n" "n < 32"
    using n by (simp only: len_bit0 len_num1) linarith
  then show "bit (u32_of (ucast w) (ucast (drop_bit 8 w)) (ucast (drop_bit 16 w))
                (ucast (drop_bit 24 w))) n \<longleftrightarrow> bit w n"
    by cases (auto simp: u32_of_def bit_simps)
qed

lemma u32_of_byte0 [byte_simps]: "ucast (u32_of b0 b1 b2 b3) = b0"
  unfolding u32_of_def by (rule bit_word_eqI) (auto simp: bit_simps)

lemma u32_of_byte1 [byte_simps]: "ucast (drop_bit 8 (u32_of b0 b1 b2 b3)) = b1"
  unfolding u32_of_def by (rule bit_word_eqI) (auto simp: bit_simps)

lemma u32_of_byte2 [byte_simps]: "ucast (drop_bit 16 (u32_of b0 b1 b2 b3)) = b2"
  unfolding u32_of_def by (rule bit_word_eqI) (auto simp: bit_simps)

lemma u32_of_byte3 [byte_simps]: "ucast (drop_bit 24 (u32_of b0 b1 b2 b3)) = b3"
  unfolding u32_of_def by (rule bit_word_eqI) (auto simp: bit_simps)

lemma htons_u16_of [byte_simps]: "htons (u16_of b0 b1) = u16_of b1 b0"
  by (simp add: htons_def byte_simps)

lemma htonl_u32_of [byte_simps]: "htonl (u32_of b0 b1 b2 b3) = u32_of b3 b2 b1 b0"
  by (simp add: htonl_def byte_simps)

lemma htons_htons [simp]: "htons (htons w) = w"
  by (simp add: htons_def byte_simps)

lemma htonl_htonl [simp]: "htonl (htonl w) = w"
  by (simp add: htonl_def byte_simps)

lemma ntohs_eq [simp]: "ntohs = htons"
  by (rule ext) (simp add: ntohs_def)

lemma ntohl_eq [simp]: "ntohl = htonl"
  by (rule ext) (simp add: ntohl_def)

lemma htons_inject [simp]: "htons a = htons b \<longleftrightarrow> a = b"
  by (metis htons_htons)

lemma htonl_inject [simp]: "htonl a = htonl b \<longleftrightarrow> a = b"
  by (metis htonl_htonl)

lemma u16_bytes_htons: "u16_bytes (htons w) = rev (u16_bytes w)"
  by (simp add: u16_bytes_def htons_def byte_simps)

lemma u16_bytes_inject [simp]: "u16_bytes a = u16_bytes b \<longleftrightarrow> a = b"
  by (metis u16_of_bytes list.inject u16_bytes_def)

lemma u32_bytes_htonl: "u32_bytes (htonl w) = rev (u32_bytes w)"
  by (simp add: u32_bytes_def htonl_def byte_simps)

lemma length_u16_bytes [simp]: "length (u16_bytes w) = 2"
  by (simp add: u16_bytes_def)

lemma length_u32_bytes [simp]: "length (u32_bytes w) = 4"
  by (simp add: u32_bytes_def)

lemma unat_u16_of: "unat (u16_of b0 b1) = unat b0 + 256 * unat b1"
proof -
  have "u16_of b0 b1 = ucast b0 + push_bit 8 (ucast b1)"
    unfolding u16_of_def
    by (rule disjunctive_add [symmetric]) (auto simp: bit_simps)
  moreover have "unat (push_bit 8 (ucast b1 :: u16)) = 256 * unat b1"
    using unsigned_less [of b1, where 'a = nat]
    by (simp add: push_bit_eq_mult unat_word_ariths unsigned_ucast_eq take_bit_eq_mod)
  moreover have "unat (ucast b0 :: u16) = unat b0"
    using unsigned_less [of b0, where 'a = nat]
    by (simp add: unsigned_ucast_eq take_bit_eq_mod)
  ultimately show ?thesis
    using unsigned_less [of b0, where 'a = nat] unsigned_less [of b1, where 'a = nat]
    by (simp add: unat_word_ariths)
qed


section \<open>Buffers: reading and writing at an offset\<close>

definition slice :: "'a list \<Rightarrow> nat \<Rightarrow> nat \<Rightarrow> 'a list" where
  "slice buf off n = take n (drop off buf)"

text \<open>\<^verbatim>\<open>memcpy(buf + off, bs, length bs)\<close>.\<close>

definition patch :: "'a list \<Rightarrow> nat \<Rightarrow> 'a list \<Rightarrow> 'a list" where
  "patch buf off bs = take off buf @ bs @ drop (off + length bs) buf"

text \<open>A struct pointer at an offset of a buffer: the read of its fields and the write back.\<close>

definition get_at :: "(bytes \<Rightarrow> 'a) \<Rightarrow> bytes \<Rightarrow> nat \<Rightarrow> 'a" where
  "get_at dec buf off = dec (drop off buf)"

definition put_at :: "('a \<Rightarrow> bytes) \<Rightarrow> bytes \<Rightarrow> nat \<Rightarrow> 'a \<Rightarrow> bytes" where
  "put_at enc buf off x = patch buf off (enc x)"

lemma length_slice [buf_simps]: "length (slice buf off n) = min n (length buf - off)"
  by (simp add: slice_def)

lemma length_patch [buf_simps]:
  "off + length bs \<le> length buf \<Longrightarrow> length (patch buf off bs) = length buf"
  by (simp add: patch_def)

lemma drop_patch [buf_simps]:
  "off \<le> length buf \<Longrightarrow> drop off (patch buf off bs) = bs @ drop (off + length bs) buf"
  by (simp add: patch_def)

lemma slice_patch_same [buf_simps]:
  "off \<le> length buf \<Longrightarrow> n = length bs \<Longrightarrow> slice (patch buf off bs) off n = bs"
  by (simp add: slice_def patch_def)

lemma slice_patch_before [buf_simps]:
  "o' + n \<le> off \<Longrightarrow> off \<le> length buf \<Longrightarrow> slice (patch buf off bs) o' n = slice buf o' n"
  by (simp add: slice_def patch_def take_drop min.absorb2)

lemma drop_patch_after [buf_simps]:
  assumes "off + length bs \<le> o'" and "off + length bs \<le> length buf"
  shows "drop o' (patch buf off bs) = drop o' buf"
proof -
  obtain d where "o' = off + length bs + d" using assms(1) le_iff_add by blast
  with assms(2) show ?thesis by (simp add: patch_def ac_simps)
qed

lemma slice_patch_after [buf_simps]:
  "off + length bs \<le> o' \<Longrightarrow> off + length bs \<le> length buf \<Longrightarrow>
   slice (patch buf off bs) o' n = slice buf o' n"
  by (simp add: slice_def drop_patch_after)

lemma patch_slice [buf_simps]:
  "off + n \<le> length buf \<Longrightarrow> patch buf off (slice buf off n) = buf"
  by (simp add: patch_def slice_def)
     (metis add.commute append_take_drop_id drop_drop)

lemma patch_patch_same [buf_simps]:
  "off + length bs \<le> length buf \<Longrightarrow> length bs' = length bs \<Longrightarrow>
   patch (patch buf off bs) off bs' = patch buf off bs'"
  by (simp add: patch_def)

lemma slice_append_split: "slice buf off (m + n) = slice buf off m @ slice buf (off + m) n"
  by (simp add: slice_def take_add add.commute)

lemma slice_join: "m = off + a \<Longrightarrow> slice buf off a @ slice buf m b = slice buf off (a + b)"
  by (simp add: slice_append_split)

lemma slice_all [buf_simps]: "length buf \<le> n \<Longrightarrow> slice buf 0 n = buf"
  by (simp add: slice_def)

lemma nth_slice: "i < n \<Longrightarrow> off + n \<le> length buf \<Longrightarrow> slice buf off n ! i = buf ! (off + i)"
  by (simp add: slice_def)

subsection \<open>The interface of a packed struct\<close>

text \<open>
  A packed struct is a type with a memory image of fixed size: writing the image and reading it
  back gives the struct, and reading any image of that size and writing it back gives the image
  (no padding, no bits lost).
\<close>

locale packed_struct =
  fixes enc :: "'a \<Rightarrow> bytes"
    and dec :: "bytes \<Rightarrow> 'a"
    and sz :: nat
  assumes enc_length: "length (enc x) = sz"
    and dec_enc: "dec (enc x @ rest) = x"
    and enc_dec: "length bs = sz \<Longrightarrow> enc (dec bs) = bs"
begin

lemma dec_take: "sz \<le> length bs \<Longrightarrow> dec (take sz bs) = dec bs"
  using dec_enc [of "dec (take sz bs)" "drop sz bs"] enc_dec [of "take sz bs"] by simp

lemma enc_get: "off + sz \<le> length buf \<Longrightarrow> enc (get_at dec buf off) = slice buf off sz"
proof -
  assume len: "off + sz \<le> length buf"
  have "dec (drop off buf) = dec (slice buf off sz)"
    using dec_take [of "drop off buf"] len by (simp add: slice_def)
  moreover have "enc (dec (slice buf off sz)) = slice buf off sz"
    using len by (intro enc_dec) (simp add: slice_def)
  ultimately show ?thesis by (simp add: get_at_def)
qed

lemma get_put: "off \<le> length buf \<Longrightarrow> get_at dec (put_at enc buf off x) off = x"
  by (simp add: get_at_def put_at_def drop_patch dec_enc)

lemma put_get: "off + sz \<le> length buf \<Longrightarrow> put_at enc buf off (get_at dec buf off) = buf"
  by (simp add: put_at_def enc_get patch_slice)

lemma put_put: "off + sz \<le> length buf \<Longrightarrow> put_at enc (put_at enc buf off x) off y = put_at enc buf off y"
  by (simp add: put_at_def patch_patch_same enc_length)

lemma length_put: "off + sz \<le> length buf \<Longrightarrow> length (put_at enc buf off x) = length buf"
  by (simp add: put_at_def length_patch enc_length)

lemma slice_put_same: "off \<le> length buf \<Longrightarrow> slice (put_at enc buf off x) off sz = enc x"
  by (simp add: put_at_def slice_patch_same enc_length)

lemma slice_put_before:
  "o' + n \<le> off \<Longrightarrow> off \<le> length buf \<Longrightarrow> slice (put_at enc buf off x) o' n = slice buf o' n"
  by (simp add: put_at_def slice_patch_before)

lemma drop_put_after:
  "off + sz \<le> o' \<Longrightarrow> off + sz \<le> length buf \<Longrightarrow> drop o' (put_at enc buf off x) = drop o' buf"
  by (simp add: put_at_def drop_patch_after enc_length)

lemma slice_put_after:
  "off + sz \<le> o' \<Longrightarrow> off + sz \<le> length buf \<Longrightarrow> slice (put_at enc buf off x) o' n = slice buf o' n"
  by (simp add: slice_def drop_put_after)

lemma enc_inject: "enc x = enc y \<longleftrightarrow> x = y"
  by (metis dec_enc)

lemma enc_bij: "bij_betw enc UNIV {bs. length bs = sz}"
proof (rule bij_betwI')
  fix bs :: bytes assume "bs \<in> {bs. length bs = sz}"
  then have "bs = enc (dec bs)" by (simp add: enc_dec)
  then show "\<exists>x \<in> UNIV. bs = enc x" by blast
qed (simp_all add: enc_inject enc_length)

lemma get_append: "get_at dec (enc x @ rest) 0 = x"
  by (simp add: get_at_def dec_enc)

end

section \<open>Hardware addresses\<close>

text \<open>An \<^verbatim>\<open>unsigned char[6]\<close>.\<close>

datatype mac = MAC u8 u8 u8 u8 u8 u8

fun mac_bytes :: "mac \<Rightarrow> bytes" where
  "mac_bytes (MAC a b c d e f) = [a, b, c, d, e, f]"

definition mac_of :: "bytes \<Rightarrow> mac" where
  "mac_of bs = MAC (bs ! 0) (bs ! 1) (bs ! 2) (bs ! 3) (bs ! 4) (bs ! 5)"

text \<open>The memory that \<^verbatim>\<open>calloc(6, 1)\<close> returns.\<close>

instantiation mac :: zero
begin

definition zero_mac :: mac where
  "zero_mac = MAC 0 0 0 0 0 0"

instance ..

end

lemma length_mac_bytes [simp]: "length (mac_bytes m) = 6"
  by (cases m) simp

lemma list6_cases:
  assumes "length bs = 6"
  obtains a b c d e f where "bs = [a, b, c, d, e, f]"
  using assms by (auto simp: numeral_eq_Suc length_Suc_conv)

interpretation macaddr: packed_struct mac_bytes mac_of 6
proof unfold_locales
  fix x rest show "mac_of (mac_bytes x @ rest) = x"
    by (cases x) (simp add: mac_of_def)
next
  fix bs :: bytes
  assume "length bs = 6"
  then show "mac_bytes (mac_of bs) = bs"
    by (elim list6_cases) (simp add: mac_of_def)
qed simp

section \<open>Fields of an image\<close>

text \<open>Reading a field at an offset and writing it back gives the bytes that were there.\<close>

lemma u8_slice: "n < length bs \<Longrightarrow> [bs ! n] = slice bs n 1"
  by (simp add: slice_def Cons_nth_drop_Suc [symmetric])

lemma u16_slice: "n + 2 \<le> length bs \<Longrightarrow> u16_bytes (u16_of (bs ! n) (bs ! (n + 1))) = slice bs n 2"
  by (simp add: u16_bytes_def byte_simps slice_def numeral_2_eq_2 Cons_nth_drop_Suc [symmetric])

lemma u32_slice:
  "n + 4 \<le> length bs \<Longrightarrow>
   u32_bytes (u32_of (bs ! n) (bs ! (n + 1)) (bs ! (n + 2)) (bs ! (n + 3))) = slice bs n 4"
  unfolding u32_bytes_def
  by (simp only: byte_simps) (simp add: slice_def numeral_eq_Suc Cons_nth_drop_Suc [symmetric])

lemma mac_slice: "n + 6 \<le> length bs \<Longrightarrow> mac_bytes (mac_of (drop n bs)) = slice bs n 6"
  using macaddr.enc_get [of n bs] by (simp add: get_at_def)

end
