(* ===== verification/Log.thy ===== *)
theory Log
  imports Net_Prelude
begin

text \<open>
  The printing helpers of \<^verbatim>\<open>utils/log.c\<close> and \<^verbatim>\<open>utils/log.h\<close>: what the formats \<^verbatim>\<open>%u\<close>, \<^verbatim>\<open>%d\<close> and
  \<^verbatim>\<open>%x\<close> produce, addresses as text, and the lines of the three logging macros.  \<^verbatim>\<open>inet_pton\<close> of the C
  library reads addresses back.
\<close>

section \<open>Formats\<close>

definition digit :: "nat \<Rightarrow> char" where
  "digit d = char_of (if d < 10 then 48 + d else 87 + d)"

text \<open>Digits of a number, most significant first, for a base of at least 2.\<close>

fun show_base :: "nat \<Rightarrow> nat \<Rightarrow> string" where
  "show_base b n = (if n < b \<or> b < 2 then [digit n] else show_base b (n div b) @ [digit (n mod b)])"

declare show_base.simps [simp del]

text \<open>\<^verbatim>\<open>%u\<close> and \<^verbatim>\<open>%lu\<close>, \<^verbatim>\<open>%x\<close>, and \<^verbatim>\<open>%d\<close>.\<close>

abbreviation show_dec :: "nat \<Rightarrow> string" where
  "show_dec n \<equiv> show_base 10 n"

abbreviation show_hex :: "nat \<Rightarrow> string" where
  "show_hex n \<equiv> show_base 16 n"

definition show_int :: "int \<Rightarrow> string" where
  "show_int i = (if i < 0 then CHR ''-'' # show_dec (nat (- i)) else show_dec (nat i))"

definition newline :: string where
  "newline = [CHR 0x0A]"

section \<open>The code\<close>

fun mac_fprint :: "mac \<Rightarrow> string" where
  "mac_fprint (MAC a b c d e f) =
     show_hex (unat a) @ '':'' @ show_hex (unat b) @ '':'' @ show_hex (unat c) @ '':'' @
     show_hex (unat d) @ '':'' @ show_hex (unat e) @ '':'' @ show_hex (unat f)"

definition ipv4_fprint :: "u32 \<Rightarrow> string" where
  "ipv4_fprint ip =
     show_dec (unat (drop_bit 24 ip AND 255)) @ ''.'' @ show_dec (unat (drop_bit 16 ip AND 255)) @ ''.'' @
     show_dec (unat (drop_bit 8 ip AND 255)) @ ''.'' @ show_dec (unat (drop_bit 0 ip AND 255))"

text \<open>
  What a run writes to the outside: text on the two standard streams, frames on a tun descriptor,
  and closed descriptors.
\<close>

datatype io_event =
    Stdout string
  | Stderr string
  | Wrote int bytes
  | Closed int

text \<open>The macros \<^verbatim>\<open>INFO\<close>, \<^verbatim>\<open>ERROR\<close> and, where \<^verbatim>\<open>DEBUG\<close> is 1, \<^verbatim>\<open>LOG_DEBUG\<close>.\<close>

definition INFO :: "string \<Rightarrow> io_event list" where
  "INFO s = [Stdout ''[INFO] '', Stdout s]"

definition ERROR :: "string \<Rightarrow> io_event list" where
  "ERROR s = [Stderr ''[ERROR] '', Stderr s]"

definition LOG_DEBUG :: "string \<Rightarrow> io_event list" where
  "LOG_DEBUG s = [Stdout ''[DEBUG] '', Stdout s]"

text \<open>The frames among the events, in the order they were written.\<close>

fun frames_of :: "io_event list \<Rightarrow> bytes list" where
  "frames_of [] = []"
| "frames_of (Wrote fd bs # es) = bs # frames_of es"
| "frames_of (Stdout s # es) = frames_of es"
| "frames_of (Stderr s # es) = frames_of es"
| "frames_of (Closed fd # es) = frames_of es"

lemma frames_of_append [simp]: "frames_of (es @ fs) = frames_of es @ frames_of fs"
  by (induction es rule: frames_of.induct) simp_all

lemma frames_of_log [simp]:
  "frames_of (INFO s) = []" "frames_of (ERROR s) = []" "frames_of (LOG_DEBUG s) = []"
  by (simp_all add: INFO_def ERROR_def LOG_DEBUG_def)

section \<open>Reading an IPv4 address\<close>

text \<open>
  \<^verbatim>\<open>inet_pton(AF_INET, src, dst)\<close>: four decimal octets without superfluous zeros, separated by dots;
  the state is the octets finished so far and the digits of the current one.
\<close>

definition is_digit :: "char \<Rightarrow> bool" where
  "is_digit c \<longleftrightarrow> 48 \<le> (of_char c :: nat) \<and> (of_char c :: nat) \<le> 57"

fun pton_loop :: "string \<Rightarrow> nat list \<Rightarrow> nat option \<Rightarrow> nat list option" where
  "pton_loop [] done cur = (case cur of
     Some n \<Rightarrow> if length done = 3 then Some (done @ [n]) else None
   | None \<Rightarrow> None)"
| "pton_loop (c # cs) done cur =
     (if is_digit c
      then (case cur of
          None \<Rightarrow> if length done < 4 then pton_loop cs done (Some (of_char c - 48)) else None
        | Some n \<Rightarrow> (let n' = n * 10 + (of_char c - 48) in
            if n = 0 \<or> n' > 255 then None else pton_loop cs done (Some n')))
      else if c = CHR ''.''
      then (case cur of
          None \<Rightarrow> None
        | Some n \<Rightarrow> if length done = 3 then None else pton_loop cs (done @ [n]) None)
      else None)"

text \<open>The octets are stored in the order of the text, which is network byte order.\<close>

definition inet_pton :: "string \<Rightarrow> u32 option" where
  "inet_pton src = (case pton_loop src [] None of
     Some [a, b, c, d] \<Rightarrow> Some (u32_of (of_nat a) (of_nat b) (of_nat c) (of_nat d))
   | _ \<Rightarrow> None)"

section \<open>Printing and reading back\<close>

lemma of_char_digit: "d < 10 \<Longrightarrow> (of_char (digit d) :: nat) = 48 + d"
  by (simp add: digit_def)

lemma is_digit_digit: "d < 10 \<Longrightarrow> is_digit (digit d)"
  by (simp add: is_digit_def of_char_digit)

lemma pton_digits_more:
  "n < 256 \<Longrightarrow> 10 \<le> n \<Longrightarrow>
   pton_loop (show_dec n @ rest) done None = 
     (if length done < 4 then pton_loop rest done (Some n) else None)"
proof -
  assume n: "n < 256" "10 \<le> n"
  show ?thesis
  proof (cases "n < 100")
    case True
    then have small: "n div 10 < 10" by simp
    then have "show_dec n = [digit (n div 10), digit (n mod 10)]"
      using n by (simp add: show_base.simps [of 10 n] show_base.simps [of 10 "n div 10"])
    moreover have "n mod 10 < 10" "n div 10 \<noteq> 0" "n div 10 * 10 + n mod 10 = n"
      using n by simp_all
    ultimately show ?thesis
      using n small by (simp add: is_digit_digit of_char_digit)
  next
    case False
    have big: "\<not> n div 10 < 10" "n div 100 < 10" using False n by simp_all
    have lim: "\<not> 255 < n div 10" using n by simp
    have "show_dec n = [digit (n div 100), digit (n div 10 mod 10), digit (n mod 10)]"
      using n big by (simp add: show_base.simps [of 10 n] show_base.simps [of 10 "n div 10"]
          show_base.simps [of 10 "n div 100"] div_mult2_eq [symmetric])
    moreover have "n div 100 * 10 + n div 10 mod 10 = n div 10"
      using div_mult_mod_eq [of "n div 10" 10] by (simp add: div_mult2_eq [symmetric])
    moreover have "n div 10 mod 10 < 10" "n mod 10 < 10" "n div 100 \<noteq> 0"
      "n div 10 \<noteq> 0" "n div 10 \<le> 255" "n div 10 * 10 + n mod 10 = n"
      using False n by simp_all
    ultimately show ?thesis
      using n big by (simp add: is_digit_digit of_char_digit Let_def lim)
  qed
qed

lemma pton_digits:
  "n < 256 \<Longrightarrow>
   pton_loop (show_dec n @ rest) done None =
     (if length done < 4 then pton_loop rest done (Some n) else None)"
proof (cases "10 \<le> n")
  case False
  then have "show_dec n = [digit n]" by (simp add: show_base.simps [of 10 n])
  then show ?thesis using False by (simp add: is_digit_digit of_char_digit)
qed (rule pton_digits_more)

lemma pton_dot:
  "length done < 3 \<Longrightarrow> pton_loop (CHR ''.'' # rest) done (Some n) = pton_loop rest (done @ [n]) None"
  by (simp add: is_digit_def)

lemma octet_bound: "unat (w AND 255 :: u32) < 256"
proof -
  have "unat (w AND 255) \<le> unat (255 :: u32)"
    by (rule word_and_le1 [THEN word_le_nat_alt [THEN iffD1]])
  then show ?thesis by simp
qed

lemma pton_ipv4:
  "pton_loop (ipv4_fprint ip) [] None =
     Some [unat (drop_bit 24 ip AND 255), unat (drop_bit 16 ip AND 255),
           unat (drop_bit 8 ip AND 255), unat (drop_bit 0 ip AND 255)]"
proof -
  note octets = octet_bound [of "drop_bit 24 ip"] octet_bound [of "drop_bit 16 ip"]
    octet_bound [of "drop_bit 8 ip"] octet_bound [of "drop_bit 0 ip"]
  have last: "pton_loop (show_dec n) ds None = Some (ds @ [n])" if "n < 256" "length ds = 3" for n ds
    using pton_digits [OF that(1), of "[]" ds] that(2) by simp
  show ?thesis
    unfolding ipv4_fprint_def append_assoc
    using octets by (simp del: pton_loop.simps add: pton_digits pton_dot last)
qed

lemma octet_ucast: "(ucast (w AND 255 :: u32) :: u8) = ucast w"
proof -
  have "(255 :: u32) = mask 8" by (simp add: mask_eq_exp_minus_1)
  moreover have "(ucast (w AND mask 8) :: u8) = ucast w"
    by (rule bit_word_eqI) (auto simp: bit_simps)
  ultimately show ?thesis by simp
qed

lemma inet_pton_print: "inet_pton (ipv4_fprint ip) = Some (htonl ip)"
  by (simp add: inet_pton_def pton_ipv4 octet_ucast htonl_def)

text \<open>
  C30. The text that \<^verbatim>\<open>ipv4_fprint\<close> prints for an address in host byte order is read back by
  \<^verbatim>\<open>inet_pton\<close> as that address in network byte order, for every address.
\<close>

theorem inet_pton_reads_ipv4_fprint: "inet_pton (ipv4_fprint ip) = Some (htonl ip)"
  by (rule inet_pton_print)

end
