(* ===== verification/Ethernet.thy ===== *)
theory Ethernet
  imports Log
begin

text \<open>
  The Ethernet header of \<^verbatim>\<open>protocols/ethernet.h\<close> as a packed struct of 14 bytes, and the
  operations of \<^verbatim>\<open>protocols/ethernet.c\<close>.
\<close>

record eth_header =
  eth_dst_mac :: mac
  eth_src_mac :: mac
  ether_type :: u16

definition eth_bytes :: "eth_header \<Rightarrow> bytes" where
  "eth_bytes h = mac_bytes (eth_dst_mac h) @ mac_bytes (eth_src_mac h) @ u16_bytes (ether_type h)"

definition eth_of :: "bytes \<Rightarrow> eth_header" where
  "eth_of bs = \<lparr> eth_dst_mac = mac_of bs, eth_src_mac = mac_of (drop 6 bs),
     ether_type = u16_of (bs ! 12) (bs ! 13) \<rparr>"

text \<open>\<^verbatim>\<open>sizeof(struct eth_header)\<close>, and the two protocol numbers of \<^verbatim>\<open>linux/if_ether.h\<close>.\<close>

abbreviation eth_size :: nat where
  "eth_size \<equiv> 14"

abbreviation ETH_P_IP :: u16 where
  "ETH_P_IP \<equiv> 0x0800"

abbreviation ETH_P_ARP :: u16 where
  "ETH_P_ARP \<equiv> 0x0806"

definition ethernet_fprint :: "eth_header \<Rightarrow> string" where
  "ethernet_fprint h =
     ''ETH header [dst='' @ mac_fprint (eth_dst_mac h) @ '', src='' @ mac_fprint (eth_src_mac h) @
     '', type='' @ show_dec (unat (ether_type h)) @ '']''"

definition eth_header_hton :: "eth_header \<Rightarrow> eth_header" where
  "eth_header_hton h = h\<lparr> ether_type := htons (ether_type h) \<rparr>"

definition eth_header_ntoh :: "eth_header \<Rightarrow> eth_header" where
  "eth_header_ntoh h = h\<lparr> ether_type := ntohs (ether_type h) \<rparr>"

lemma u16_split_list:
  assumes "length bs = n + 2"
  shows "drop n bs = u16_bytes (u16_of (bs ! n) (bs ! Suc n))"
proof -
  have "drop n bs = [bs ! n, bs ! Suc n]"
    using assms by (intro nth_equalityI) (auto simp: nth_Cons split: nat.splits)
  then show ?thesis by (simp add: u16_bytes_def byte_simps)
qed

interpretation eth: packed_struct eth_bytes eth_of eth_size
proof unfold_locales
  fix h rest
  obtain a b t where h: "h = \<lparr> eth_dst_mac = a, eth_src_mac = b, ether_type = t \<rparr>"
    by (cases h)
  show "eth_of (eth_bytes h @ rest) = h"
    unfolding h
    by (cases a; cases b) (simp add: eth_of_def eth_bytes_def mac_of_def u16_bytes_def byte_simps)
next
  fix bs :: bytes
  assume len: "length bs = eth_size"
  have "mac_bytes (mac_of bs) = take 6 bs"
    using macaddr.dec_take [of bs] macaddr.enc_dec [of "take 6 bs"] len by simp
  moreover have "mac_bytes (mac_of (drop 6 bs)) = take 6 (drop 6 bs)"
    using macaddr.dec_take [of "drop 6 bs"] macaddr.enc_dec [of "take 6 (drop 6 bs)"] len by simp
  moreover have "u16_bytes (u16_of (bs ! 12) (bs ! 13)) = drop 12 bs"
    using u16_split_list [of bs 12] len by simp
  moreover have "take 6 bs @ take 6 (drop 6 bs) @ drop 12 bs = bs"
    by (metis append_take_drop_id drop_drop numeral_plus_numeral semiring_norm(3,4,6,7) add_num_simps)
  ultimately show "eth_bytes (eth_of bs) = bs"
    by (simp add: eth_bytes_def eth_of_def)
qed (simp add: eth_bytes_def)

lemma eth_ntoh_hton [simp]: "eth_header_ntoh (eth_header_hton h) = h"
  by (simp add: eth_header_ntoh_def eth_header_hton_def)

text \<open>On the wire the type field is big-endian.\<close>

lemma eth_bytes_hton:
  "eth_bytes (eth_header_hton h) =
     mac_bytes (eth_dst_mac h) @ mac_bytes (eth_src_mac h) @ rev (u16_bytes (ether_type h))"
  by (simp add: eth_bytes_def eth_header_hton_def u16_bytes_htons)

end
