(* ===== verification/Tun_Device.thy ===== *)
theory Tun_Device
  imports Ethernet
begin

text \<open>
  The tap device of \<^verbatim>\<open>tun_device.c\<close>: ten queues, each with a descriptor and a busy flag, and the
  commands that set the interface up (\<^verbatim>\<open>utils/runtime_utils.c\<close>).  The kernel is a parameter: what
  \<^verbatim>\<open>open\<close>, \<^verbatim>\<open>ioctl\<close>, \<^verbatim>\<open>read\<close>, \<^verbatim>\<open>write\<close> and \<^verbatim>\<open>system\<close> answer.
\<close>

abbreviation TUN_QUEUES :: nat where
  "TUN_QUEUES \<equiv> 10"

text \<open>
  \<open>sys_write fd bs\<close> is the kernel's answer to a \<^verbatim>\<open>write\<close>; \<open>trace\<close> is what the program did so far,
  oldest first.
\<close>

record tun_state =
  tun_fds :: "int list"
  busy_status :: "bool list"
  sys_write :: "int \<Rightarrow> bytes \<Rightarrow> int"
  trace :: "io_event list"

definition emit :: "io_event list \<Rightarrow> 'a tun_state_scheme \<Rightarrow> 'a tun_state_scheme" where
  "emit es w = w\<lparr> trace := trace w @ es \<rparr>"

section \<open>Status\<close>

definition set_busy ::
  "'a tun_state_scheme \<Rightarrow> nat \<Rightarrow> bool \<Rightarrow> ('a tun_state_scheme, 'a tun_state_scheme) run" where
  "set_busy w fi b =
     (if fi < length (busy_status w)
      then Inr (w\<lparr> busy_status := (busy_status w)[fi := b] \<rparr>)
      else Inl (OutOfBounds w))"

text \<open>The loop of \<^verbatim>\<open>available\<close>; \<open>None\<close> is the read of \<^verbatim>\<open>busy_status[i]\<close> past the end of the array.\<close>

function available_loop :: "bool list \<Rightarrow> nat \<Rightarrow> nat option" where
  "available_loop bs i =
     (if i < length bs then (if bs ! i then available_loop bs (i + 1) else Some i) else None)"
  by pat_completeness auto
termination by (relation "measure (\<lambda>(bs, i). length bs - i)") auto

declare available_loop.simps [simp del]

definition available :: "'a tun_state_scheme \<Rightarrow> ('a tun_state_scheme, int) run" where
  "available w =
     (case available_loop (busy_status w) 0 of
        None \<Rightarrow> Inl (OutOfBounds w)
      | Some i \<Rightarrow> Inr (if TUN_QUEUES \<le> i then - 1 else int i))"

section \<open>Input and output\<close>

text \<open>
  \<open>rd fd n\<close> is the kernel's answer to a \<^verbatim>\<open>read\<close> of at most \<open>n\<close> bytes: the bytes, or \<open>None\<close> for an
  error.  The result is the value \<^verbatim>\<open>read\<close> returns and the buffer after it.
\<close>

definition tun_read ::
  "(int \<Rightarrow> int \<Rightarrow> bytes option) \<Rightarrow> 'a tun_state_scheme \<Rightarrow> nat \<Rightarrow> bytes \<Rightarrow> int
    \<Rightarrow> ('a tun_state_scheme, int \<times> bytes) run" where
  "tun_read rd w fi buf len =
     (if fi < length (tun_fds w)
      then (case rd (tun_fds w ! fi) len of
          None \<Rightarrow> Inr (- 1, buf)
        | Some bs \<Rightarrow> if length buf < length bs then Inl (OutOfBounds w)
                    else Inr (int (length bs), patch buf 0 bs))
      else Inl (OutOfBounds w))"

text \<open>A negative \<open>len\<close> is a huge count for \<^verbatim>\<open>write\<close>, past the end of every buffer.\<close>

definition tun_write ::
  "'a tun_state_scheme \<Rightarrow> nat \<Rightarrow> bytes \<Rightarrow> int \<Rightarrow> ('a tun_state_scheme, int \<times> 'a tun_state_scheme) run" where
  "tun_write w fi buf len =
     (if fi < length (tun_fds w) \<and> 0 \<le> len \<and> nat len \<le> length buf
      then let fd = tun_fds w ! fi; bs = take (nat len) buf in
           Inr (sys_write w fd bs, emit [Wrote fd bs] w)
      else Inl (OutOfBounds w))"

section \<open>Setting the interface up\<close>

text \<open>\<^verbatim>\<open>printf\<close>-style expansion of the conversion \<^verbatim>\<open>%s\<close>, the only one the commands use.\<close>

fun vformat :: "string \<Rightarrow> string list \<Rightarrow> string" where
  "vformat [] args = []"
| "vformat (c # d # cs) (a # args) =
     (if c = CHR ''%'' \<and> d = CHR ''s'' then a @ vformat cs args else c # vformat (d # cs) (a # args))"
| "vformat (c # cs) args = c # vformat cs args"

abbreviation CMDBUFLEN :: nat where
  "CMDBUFLEN \<equiv> 100"

text \<open>\<^verbatim>\<open>vsnprintf\<close> keeps 99 characters and the terminator; \<open>sys\<close> is \<^verbatim>\<open>system\<close>.\<close>

definition run_cmd :: "(string \<Rightarrow> int) \<Rightarrow> string \<Rightarrow> string list \<Rightarrow> int" where
  "run_cmd sys cmd args = sys (take (CMDBUFLEN - 1) (vformat cmd args))"

definition set_interface_route :: "(string \<Rightarrow> int) \<Rightarrow> string \<Rightarrow> string \<Rightarrow> int" where
  "set_interface_route sys dev cidr = run_cmd sys ''ip route add dev %s %s'' [dev, cidr]"

definition set_interface_up :: "(string \<Rightarrow> int) \<Rightarrow> string \<Rightarrow> int" where
  "set_interface_up sys dev = run_cmd sys ''ip link set dev %s up'' [dev]"

text \<open>
  The kernel as \<^verbatim>\<open>tun_alloc\<close> and \<^verbatim>\<open>tun_init\<close> see it: the results of the \<open>i\<close>-th \<^verbatim>\<open>open\<close> and \<^verbatim>\<open>ioctl\<close>, the
  name that the device gets, the text of \<^verbatim>\<open>strerror(errno)\<close>, the shell, and the value that the
  uninitialised variable \<^verbatim>\<open>err\<close> starts with.
\<close>

record kernel =
  k_open :: "nat \<Rightarrow> int"
  k_ioctl :: "nat \<Rightarrow> int"
  k_ifr_name :: string
  k_strerror :: string
  k_system :: "string \<Rightarrow> int"
  k_err_garbage :: int

text \<open>
  The allocation loop: \<open>Inr\<close> when every queue is open, otherwise \<open>Inl\<close> with the values of \<open>i\<close> and
  \<open>err\<close> at the label \<^verbatim>\<open>err\<close> and the descriptor that was closed on the way there.
\<close>

function tun_alloc_loop ::
  "kernel \<Rightarrow> nat \<Rightarrow> nat \<Rightarrow> int \<Rightarrow> int list \<Rightarrow> (nat \<times> int \<times> int list \<times> io_event list) + int list" where
  "tun_alloc_loop k queues i err fds =
     (if i < queues then
        let fd = k_open k i in
        if fd < 0 then Inl (i, err, fds, [])
        else let err' = k_ioctl k i in
             if err' \<noteq> 0 then Inl (i, err', fds, [Closed fd])
             else tun_alloc_loop k queues (i + 1) err' (fds[i := fd])
      else Inr fds)"
  by pat_completeness auto
termination by (relation "measure (\<lambda>(k, queues, i, err, fds). queues - i)") auto

declare tun_alloc_loop.simps [simp del]

text \<open>
  \<open>dev\<close> is the pointer argument: \<open>None\<close> for \<^verbatim>\<open>NULL\<close>, else the size of the array.  The result is the
  returned code, the descriptors, the name written to \<^verbatim>\<open>dev\<close>, and the state; a name that does not fit
  overflows the array.
\<close>

definition tun_alloc ::
  "kernel \<Rightarrow> 'a tun_state_scheme \<Rightarrow> nat option \<Rightarrow> nat
    \<Rightarrow> ('a tun_state_scheme, int \<times> string \<times> 'a tun_state_scheme) run" where
  "tun_alloc k w dev queues =
     (case dev of
        None \<Rightarrow> Inr (- 1, [], w)
      | Some cap \<Rightarrow>
         (if length (tun_fds w) < queues then Inl (OutOfBounds w)
          else case tun_alloc_loop k queues 0 (k_err_garbage k) (tun_fds w) of
            Inr fds \<Rightarrow>
              if cap \<le> length (k_ifr_name k) then Inl (OutOfBounds (w\<lparr> tun_fds := fds \<rparr>))
              else Inr (0, k_ifr_name k, w\<lparr> tun_fds := fds \<rparr>)
          | Inl (i, err, fds, closed) \<Rightarrow>
              Inr (err, [], emit (closed
                  @ ERROR (''TUN: Could not ioctl tun: '' @ k_strerror k @ newline)
                  @ map Closed (rev (take i fds))) (w\<lparr> tun_fds := fds \<rparr>))))"

text \<open>Returns the name of the device and the state.\<close>

definition tun_init ::
  "kernel \<Rightarrow> 'a tun_state_scheme \<Rightarrow> nat option
    \<Rightarrow> ('a tun_state_scheme, string \<times> 'a tun_state_scheme) run" where
  "tun_init k w dev =
     bind_run (tun_alloc k w dev TUN_QUEUES) (\<lambda>(err, name, w).
     if err \<noteq> 0 then Inl (Abort (emit (ERROR (''TUN: Failed allocation'' @ newline)) w))
     else if set_interface_up (k_system k) name \<noteq> 0
     then Inl (Abort (emit (ERROR (''TUN: Failed setting up interface: '' @ name @ newline)) w))
     else if set_interface_route (k_system k) name ''10.0.0.0/24'' \<noteq> 0
     then Inl (Abort (emit (ERROR (''TUN: Failed setting route for interface'' @ newline)) w))
     else Inr (name, w))"

section \<open>Facts\<close>

lemma emit_simps [simp]:
  "tun_fds (emit es w) = tun_fds w"
  "busy_status (emit es w) = busy_status w"
  "sys_write (emit es w) = sys_write w"
  "trace (emit es w) = trace w @ es"
  "emit fs (emit es w) = emit (es @ fs) w"
  "emit [] w = w"
  by (simp_all add: emit_def)

lemma all_from_step:
  "(\<forall>k. i \<le> k \<and> k < j \<longrightarrow> P k) \<longleftrightarrow> (i < j \<longrightarrow> P i) \<and> (\<forall>k. Suc i \<le> k \<and> k < j \<longrightarrow> P k)"
proof -
  have "i \<le> k \<longleftrightarrow> k = i \<or> Suc i \<le> k" for k by linarith
  then show ?thesis by auto
qed

lemma available_loop_Some:
  "available_loop bs i = Some j \<longleftrightarrow>
   i \<le> j \<and> j < length bs \<and> \<not> bs ! j \<and> (\<forall>k. i \<le> k \<and> k < j \<longrightarrow> bs ! k)"
proof (induction bs i rule: available_loop.induct)
  case (1 bs i)
  show ?case
  proof (cases "i < length bs \<and> bs ! i")
    case True
    then have "available_loop bs i = available_loop bs (i + 1)"
      by (simp add: available_loop.simps [of bs i])
    moreover have "i \<le> j \<and> j < length bs \<and> \<not> bs ! j \<longleftrightarrow> Suc i \<le> j \<and> j < length bs \<and> \<not> bs ! j"
      using True by (auto simp: Suc_le_eq le_less)
    ultimately show ?thesis
      using 1 True all_from_step [of i j "(!) bs"] by (simp only: Suc_eq_plus1 simp_thms) blast
  next
    case False
    then have "available_loop bs i = (if i < length bs then Some i else None)"
      by (simp add: available_loop.simps [of bs i])
    then show ?thesis using False by (auto simp: le_less)
  qed
qed

lemma available_loop_None:
  "available_loop bs i = None \<longleftrightarrow> (\<forall>k. i \<le> k \<and> k < length bs \<longrightarrow> bs ! k)"
proof (induction bs i rule: available_loop.induct)
  case (1 bs i)
  show ?case
  proof (cases "i < length bs \<and> bs ! i")
    case True
    then have "available_loop bs i = available_loop bs (i + 1)"
      by (simp add: available_loop.simps [of bs i])
    then show ?thesis
      using 1 True all_from_step [of i "length bs" "(!) bs"] by simp
  next
    case False
    then show ?thesis by (auto simp: available_loop.simps [of bs i])
  qed
qed

text \<open>What holds of the state at every point of a run that the program itself controls.\<close>

definition tun_ok :: "'a tun_state_scheme \<Rightarrow> bool" where
  "tun_ok w \<longleftrightarrow> length (tun_fds w) = TUN_QUEUES \<and> length (busy_status w) = TUN_QUEUES"

definition some_free :: "'a tun_state_scheme \<Rightarrow> bool" where
  "some_free w \<longleftrightarrow> (\<exists>i < TUN_QUEUES. \<not> busy_status w ! i)"

definition first_free :: "'a tun_state_scheme \<Rightarrow> nat" where
  "first_free w = (LEAST i. i < TUN_QUEUES \<and> \<not> busy_status w ! i)"

lemma available_free:
  assumes "tun_ok w" and "some_free w"
  shows "available w = Inr (int (first_free w))"
    and "first_free w < TUN_QUEUES"
    and "\<not> busy_status w ! first_free w"
proof -
  let ?P = "\<lambda>i. i < TUN_QUEUES \<and> \<not> busy_status w ! i"
  have ex: "?P (first_free w)"
    unfolding first_free_def by (rule LeastI_ex) (use assms(2) in \<open>simp add: some_free_def\<close>)
  have least: "\<not> ?P k" if "k < first_free w" for k
    using that not_less_Least [of k ?P] unfolding first_free_def by blast
  have busy: "busy_status w ! k" if "k < first_free w" for k
    using least [OF that] that ex by linarith
  have "available_loop (busy_status w) 0 = Some (first_free w)"
    using assms(1) ex busy by (simp add: available_loop_Some tun_ok_def)
  then show "available w = Inr (int (first_free w))"
    using ex by (simp add: available_def)
  show "first_free w < TUN_QUEUES" "\<not> busy_status w ! first_free w" using ex by simp_all
qed

lemma available_all_busy:
  assumes "tun_ok w" and "\<not> some_free w"
  shows "available w = Inl (OutOfBounds w)"
proof -
  have "available_loop (busy_status w) 0 = None"
    using assms by (auto simp: available_loop_None some_free_def tun_ok_def)
  then show ?thesis by (simp add: available_def)
qed

lemma tun_alloc_loop_all_open:
  assumes "\<forall>i < queues. 0 \<le> k_open k i \<and> k_ioctl k i = 0"
  shows "j \<le> queues \<Longrightarrow>
    tun_alloc_loop k queues j err fds =
      Inr (fold (\<lambda>i fds. fds[i := k_open k i]) [j..<queues] fds)"
proof (induction "queues - j" arbitrary: j err fds)
  case 0
  then show ?case by (subst tun_alloc_loop.simps) simp
next
  case (Suc n)
  then have "j < queues" by simp
  with assms have "0 \<le> k_open k j" "k_ioctl k j = 0" by simp_all
  with \<open>j < queues\<close> show ?case
    using Suc.hyps(1) [of "j + 1" 0 "fds[j := k_open k j]"] Suc.hyps(2)
    by (simp add: tun_alloc_loop.simps [of k queues j] Let_def upt_conv_Cons)
qed

lemma fold_updates_nth:
  "length (fold (\<lambda>i fds. fds[i := f i]) [j..<n] fds) = length fds"
  "n \<le> length fds \<Longrightarrow> i < length fds \<Longrightarrow>
   fold (\<lambda>i fds. fds[i := f i]) [j..<n] fds ! i = (if j \<le> i \<and> i < n then f i else fds ! i)"
  by (induction n arbitrary: i) (auto simp: nth_list_update less_Suc_eq le_less)

text \<open>A failing \<^verbatim>\<open>open\<close> of queue \<open>n\<close> leaves \<open>err\<close> as the loop had it.\<close>

lemma tun_alloc_loop_open_fails:
  assumes "\<forall>i < n. 0 \<le> k_open k i \<and> k_ioctl k i = 0" and "k_open k n < 0" and "n < queues"
  shows "j < n \<Longrightarrow>
    tun_alloc_loop k queues j err fds =
      Inl (n, 0, fold (\<lambda>i fds. fds[i := k_open k i]) [j..<n] fds, [])"
proof (induction "n - j" arbitrary: j err fds)
  case (Suc m)
  have "\<not> k_open k j < 0" "k_ioctl k j = 0" using Suc.prems assms(1) by (simp_all add: not_less)
  then have step: "tun_alloc_loop k queues j err fds =
      tun_alloc_loop k queues (j + 1) 0 (fds[j := k_open k j])"
    using Suc.prems assms(3) by (subst tun_alloc_loop.simps) (simp add: Let_def)
  show ?case
  proof (cases "j + 1 < n")
    case True
    then show ?thesis using step Suc.hyps(1) [of "j + 1" 0 "fds[j := k_open k j]"] Suc.hyps(2)
      by (simp add: upt_conv_Cons)
  next
    case False
    then have "n = j + 1" using Suc.prems by simp
    then show ?thesis
      using step assms by (simp add: tun_alloc_loop.simps [of k queues "Suc j"])
  qed
qed simp

lemma tun_init_ok:
  assumes "tun_ok w" and "\<forall>i < TUN_QUEUES. 0 \<le> k_open k i \<and> k_ioctl k i = 0"
    and "length (k_ifr_name k) < cap"
    and "k_system k (take 99 (''ip link set dev '' @ k_ifr_name k @ '' up'')) = 0"
    and "k_system k (take 99 (''ip route add dev '' @ k_ifr_name k @ '' 10.0.0.0/24'')) = 0"
  shows "tun_init k w (Some cap) = Inr (k_ifr_name k, w\<lparr> tun_fds := map (k_open k) [0..<TUN_QUEUES] \<rparr>)"
proof -
  have len: "length (tun_fds w) = TUN_QUEUES" using assms(1) by (simp add: tun_ok_def)
  have fds: "fold (\<lambda>i fds. fds[i := k_open k i]) [0..<TUN_QUEUES] (tun_fds w) = map (k_open k) [0..<TUN_QUEUES]"
    by (rule nth_equalityI) (simp_all only: fold_updates_nth len length_map length_upt order_refl, simp)
  have loop: "tun_alloc_loop k TUN_QUEUES 0 (k_err_garbage k) (tun_fds w) = Inr (map (k_open k) [0..<TUN_QUEUES])"
    using tun_alloc_loop_all_open [OF assms(2), of 0] by (simp only: fds le0)
  have cmds: "set_interface_up (k_system k) (k_ifr_name k) = 0"
    "set_interface_route (k_system k) (k_ifr_name k) ''10.0.0.0/24'' = 0"
    using assms(4,5) by (simp_all add: set_interface_up_def set_interface_route_def run_cmd_def)
  have "tun_alloc k w (Some cap) TUN_QUEUES =
      Inr (0, k_ifr_name k, w\<lparr> tun_fds := map (k_open k) [0..<TUN_QUEUES] \<rparr>)"
    using loop len assms(3) by (simp add: tun_alloc_def del: upt_rec_numeral)
  then show ?thesis using cmds by (simp add: tun_init_def del: upt_rec_numeral)
qed

section \<open>Properties\<close>

text \<open>
  \<^verbatim>\<open>available\<close> on the ten flags: when a queue is free it returns the first free one; when all are
  busy it does not return -1 as its callers expect but reads \<^verbatim>\<open>busy_status[10]\<close>, past the array.
\<close>

lemma available_first_free_or_overrun:
  assumes "tun_ok w"
  shows "available w =
    (if some_free w then Inr (int (first_free w)) else Inl (OutOfBounds w))"
  using available_free [OF assms] available_all_busy [OF assms] by simp

definition sample_tun :: "bool list \<Rightarrow> tun_state" where
  "sample_tun bs = \<lparr> tun_fds = [3..12], busy_status = bs, sys_write = (\<lambda>fd bs. int (length bs)), trace = [] \<rparr>"

definition sample_kernel :: "(nat \<Rightarrow> int) \<Rightarrow> kernel" where
  "sample_kernel op = \<lparr> k_open = op, k_ioctl = (\<lambda>i. 0), k_ifr_name = ''tap0'',
     k_strerror = ''Too many open files'', k_system = (\<lambda>s. 0), k_err_garbage = 17 \<rparr>"

text \<open>
  When the \<^verbatim>\<open>open\<close> of a queue other than the first fails, \<^verbatim>\<open>tun_alloc\<close> closes the queues opened so
  far and still returns 0, the result of the last successful \<^verbatim>\<open>ioctl\<close>: the caller sees success while
  every descriptor it holds is closed.
\<close>

lemma tun_alloc_reports_success_after_open_failure:
  assumes "tun_ok w" and "0 < n" and "n < TUN_QUEUES"
    and "\<forall>i < n. 0 \<le> k_open k i \<and> k_ioctl k i = 0" and "k_open k n < 0"
  shows "\<exists>w'. tun_alloc k w (Some cap) TUN_QUEUES = Inr (0, [], w') \<and>
    trace w' = trace w @ ERROR (''TUN: Could not ioctl tun: '' @ k_strerror k @ newline)
                 @ map Closed (rev (map (k_open k) [0..<n]))"
proof -
  let ?fds = "fold (\<lambda>i fds. fds[i := k_open k i]) [0..<n] (tun_fds w)"
  have len: "length (tun_fds w) = TUN_QUEUES" using assms(1) by (simp add: tun_ok_def)
  have "take n ?fds = map (k_open k) [0..<n]"
    using assms(3) len by (intro nth_equalityI) (simp_all add: fold_updates_nth)
  moreover have "tun_alloc_loop k TUN_QUEUES 0 (k_err_garbage k) (tun_fds w) = Inl (n, 0, ?fds, [])"
    using tun_alloc_loop_open_fails [OF assms(4,5,3,2)] .
  ultimately show ?thesis using len by (simp add: tun_alloc_def)
qed

end
