(* ===== verification/Net_Interface.thy ===== *)
theory Net_Interface
  imports Tun_Device
begin

text \<open>
  The network interface of \<^verbatim>\<open>net_interface.c\<close>: the stack's own addresses, one transmit buffer per
  queue, and sending and reading of frames.
\<close>

text \<open>
  \<open>ni_buffers\<close> holds the blocks the pointers \<^verbatim>\<open>buffers[i]\<close> point to (\<open>None\<close> for \<^verbatim>\<open>NULL\<close>); \<open>heap_fill\<close>
  is what \<^verbatim>\<open>realloc\<close> leaves in the bytes that it adds.  Allocations succeed.
\<close>

record net_state = tun_state +
  ni_ip :: u32
  ni_mac :: mac
  ni_buffers :: "bytes option list"
  ni_buffers_size :: "u32 list"
  heap_fill :: "nat \<Rightarrow> u8"

section \<open>The code\<close>

definition net_interface_get_ip :: "'a net_state_scheme \<Rightarrow> u32" where
  "net_interface_get_ip w = ni_ip w"

definition net_interface_get_mac :: "'a net_state_scheme \<Rightarrow> mac" where
  "net_interface_get_mac w = ni_mac w"

definition realloc :: "(nat \<Rightarrow> u8) \<Rightarrow> bytes \<Rightarrow> nat \<Rightarrow> bytes" where
  "realloc fill b n = take n b @ map fill [length b..<n]"

definition ensure_has_size ::
  "'a net_state_scheme \<Rightarrow> nat \<Rightarrow> u32 \<Rightarrow> ('a net_state_scheme, 'a net_state_scheme) run" where
  "ensure_has_size w fi sz =
     (if fi < length (ni_buffers_size w) \<and> fi < length (ni_buffers w) then
        Inr (if sz > ni_buffers_size w ! fi \<or> ni_buffers_size w ! fi = 0
             then w\<lparr> ni_buffers := (ni_buffers w)[fi := Some (case ni_buffers w ! fi of
                         Some b \<Rightarrow> realloc (heap_fill w) b (unat sz)
                       | None \<Rightarrow> replicate (unat sz) 0)],
                     ni_buffers_size := (ni_buffers_size w)[fi := sz] \<rparr>
             else w)
      else Inl (OutOfBounds w))"

text \<open>The debug line of \<^verbatim>\<open>net_interface_send\<close>.\<close>

definition sent_debug :: "nat \<Rightarrow> nat \<Rightarrow> eth_header \<Rightarrow> io_event list" where
  "sent_debug fi len h =
     [Stdout (''[DEBUG] [NET-IF] {'' @ show_dec fi @ ''} Sent payload size='' @ show_dec len @ '' ''),
      Stdout (ethernet_fprint h), Stdout newline]"

text \<open>
  The part of \<^verbatim>\<open>net_interface_send\<close> between \<^verbatim>\<open>ensure_has_size\<close> and \<^verbatim>\<open>set_busy\<close>: the header and the
  payload are copied into the block of the queue, the header is printed and converted.  \<open>content\<close> is
  the memory from the pointer argument to the end of the object it points into.
\<close>

definition fill_frame ::
  "'a net_state_scheme \<Rightarrow> nat \<Rightarrow> bytes \<Rightarrow> u32 \<Rightarrow> mac \<Rightarrow> u16 \<Rightarrow> ('a net_state_scheme, 'a net_state_scheme) run" where
  "fill_frame w fi content len dst_mac protocol =
     (case ni_buffers w ! fi of
        None \<Rightarrow> Inl (OutOfBounds w)
      | Some b \<Rightarrow>
          if length b < eth_size + unat len \<or> length content < unat len then Inl (OutOfBounds w)
          else let h = \<lparr> eth_dst_mac = dst_mac, eth_src_mac = ni_mac w, ether_type = protocol \<rparr>;
                   b = patch (put_at eth_bytes b 0 h) eth_size (take (unat len) content);
                   out = sent_debug fi (unat len) (get_at eth_of b 0);
                   b = put_at eth_bytes b 0 (eth_header_hton (get_at eth_of b 0))
               in Inr (emit out (w\<lparr> ni_buffers := (ni_buffers w)[fi := Some b] \<rparr>)))"

text \<open>The rest of \<^verbatim>\<open>net_interface_send\<close>: the queue is marked busy around the write.\<close>

definition write_frame ::
  "'a net_state_scheme \<Rightarrow> nat \<Rightarrow> u32 \<Rightarrow> ('a net_state_scheme, 'a net_state_scheme) run" where
  "write_frame w fi total_size =
     bind_run (set_busy w fi True) (\<lambda>w.
     case ni_buffers w ! fi of
       None \<Rightarrow> Inl (OutOfBounds w)
     | Some b \<Rightarrow> bind_run (tun_write w fi b (sint total_size)) (\<lambda>(n, w).
                 set_busy w fi False))"

definition net_interface_send ::
  "'a net_state_scheme \<Rightarrow> bytes \<Rightarrow> u32 \<Rightarrow> mac option \<Rightarrow> u16 \<Rightarrow> ('a net_state_scheme, 'a net_state_scheme) run" where
  "net_interface_send w content len dst_mac protocol =
     (case dst_mac of
        None \<Rightarrow> Inl (AssertFail w)
      | Some dst_mac \<Rightarrow>
          bind_run (available w) (\<lambda>fi.
          let total_size = len + of_nat eth_size in
          if fi = - 1 then Inl (Abort (emit (ERROR ''NET-IF: No tun device available.'') w))
          else bind_run (ensure_has_size w (nat fi) total_size) (\<lambda>w.
               bind_run (fill_frame w (nat fi) content len dst_mac protocol) (\<lambda>w.
               write_frame w (nat fi) total_size))))"

definition BROADCAST :: mac where
  "BROADCAST = MAC 0xff 0xff 0xff 0xff 0xff 0xff"

definition net_interface_broadcast ::
  "'a net_state_scheme \<Rightarrow> bytes \<Rightarrow> u32 \<Rightarrow> u16 \<Rightarrow> ('a net_state_scheme, 'a net_state_scheme) run" where
  "net_interface_broadcast w content len protocol =
     net_interface_send w content len (Some BROADCAST) protocol"

text \<open>The value returned, the buffer and the state after the call.\<close>

definition net_interface_read ::
  "(int \<Rightarrow> int \<Rightarrow> bytes option) \<Rightarrow> 'a net_state_scheme \<Rightarrow> bytes \<Rightarrow> u32
    \<Rightarrow> ('a net_state_scheme, int \<times> bytes \<times> 'a net_state_scheme) run" where
  "net_interface_read rd w buffer len =
     bind_run (available w) (\<lambda>fi.
     if fi = - 1
     then Inr (- 1, buffer, emit (LOG_DEBUG ''[NET-IF] No tun device available.'') w)
     else bind_run (set_busy w (nat fi) True) (\<lambda>w.
          bind_run (tun_read rd w (nat fi) buffer (sint len)) (\<lambda>(out, buffer).
          bind_run (set_busy w (nat fi) False) (\<lambda>w.
          Inr (out, buffer, w)))))"

text \<open>The bytes of a C string, without the terminator.\<close>

definition cstring :: "string \<Rightarrow> bytes" where
  "cstring s = map (\<lambda>c. of_nat (of_char c)) s"

text \<open>
  \<^verbatim>\<open>memcpy(mac, src_mac, 6)\<close> copies the first six characters of the text; a string too short for it
  is read past its end.
\<close>

definition net_interface_init ::
  "'a net_state_scheme \<Rightarrow> string \<Rightarrow> string \<Rightarrow> ('a net_state_scheme, 'a net_state_scheme) run" where
  "net_interface_init w src_ip src_mac =
     (if length src_mac + 1 < 6 then Inl (OutOfBounds w)
      else let w = w\<lparr> ni_mac := mac_of (cstring src_mac @ [0]) \<rparr> in
           case inet_pton src_ip of
             None \<Rightarrow> Inl (Exit 1 (emit (ERROR (''NET-IF: Parsing inet address failed'' @ newline)) w))
           | Some ip \<Rightarrow> Inr (w\<lparr> ni_ip := ip \<rparr>))"

text \<open>The blocks are freed; the pointers stay, so every later use of one is an access to freed
  memory.  The freed blocks are returned.\<close>

definition net_interface_destroy :: "'a net_state_scheme \<Rightarrow> bytes list" where
  "net_interface_destroy w =
     concat (map (\<lambda>i. case ni_buffers w ! i of None \<Rightarrow> [] | Some b \<Rightarrow> [b]) [0..<TUN_QUEUES])"

section \<open>The invariant of the interface\<close>

definition buffer_ok :: "bytes option \<Rightarrow> u32 \<Rightarrow> bool" where
  "buffer_ok b sz = (case b of None \<Rightarrow> sz = 0 | Some b \<Rightarrow> length b = unat sz)"

definition net_ok :: "'a net_state_scheme \<Rightarrow> bool" where
  "net_ok w \<longleftrightarrow> tun_ok w \<and> length (ni_buffers w) = TUN_QUEUES \<and>
     list_all2 buffer_ok (ni_buffers w) (ni_buffers_size w)"

text \<open>What a frame looks like on the wire.\<close>

definition eth_frame :: "mac \<Rightarrow> mac \<Rightarrow> u16 \<Rightarrow> bytes \<Rightarrow> bytes" where
  "eth_frame dst src protocol payload =
     mac_bytes dst @ mac_bytes src @ rev (u16_bytes protocol) @ payload"

text \<open>
  The contract of sending: nothing but the buffers and the trace changes, and the trace gains the
  debug lines and the one frame, written to the first free queue.
\<close>

definition send_log :: "'a net_state_scheme \<Rightarrow> nat \<Rightarrow> mac \<Rightarrow> u16 \<Rightarrow> io_event list" where
  "send_log w n dst protocol =
     sent_debug (first_free w) n
       \<lparr> eth_dst_mac = dst, eth_src_mac = ni_mac w, ether_type = protocol \<rparr>"

definition sends :: "'a net_state_scheme \<Rightarrow> mac \<Rightarrow> u16 \<Rightarrow> bytes \<Rightarrow> 'a net_state_scheme \<Rightarrow> bool" where
  "sends w dst protocol payload w' \<longleftrightarrow>
     net_ok w' \<and>
     w' = emit (send_log w (length payload) dst protocol @
                [Wrote (tun_fds w ! first_free w) (eth_frame dst (ni_mac w) protocol payload)])
            (w\<lparr> ni_buffers := ni_buffers w', ni_buffers_size := ni_buffers_size w' \<rparr>)"

lemma buffers_update_swap [simp]:
  "w\<lparr> ni_buffers := bs, ni_buffers_size := ss \<rparr> = w\<lparr> ni_buffers_size := ss, ni_buffers := bs \<rparr>"
  by (cases w) simp

lemma length_realloc [simp]: "length (realloc fill b n) = n"
  by (simp add: realloc_def)

lemma emit_net_simps [simp]:
  "ni_ip (emit es w) = ni_ip w"
  "ni_mac (emit es w) = ni_mac w"
  "ni_buffers (emit es w) = ni_buffers w"
  "ni_buffers_size (emit es w) = ni_buffers_size w"
  "heap_fill (emit es w) = heap_fill w"
  by (simp_all add: emit_def)

lemma net_ok_emit [simp]: "net_ok (emit es w) = net_ok w"
  by (simp add: net_ok_def tun_ok_def)

lemma ensure_has_size_ok:
  assumes ok: "net_ok w" and fi: "fi < TUN_QUEUES" and sz: "sz \<noteq> 0"
  obtains b where "ensure_has_size w fi sz =
      Inr (w\<lparr> ni_buffers := (ni_buffers w)[fi := Some b],
             ni_buffers_size := (ni_buffers_size w)[fi := max (ni_buffers_size w ! fi) sz] \<rparr>)"
    and "length b = unat (max (ni_buffers_size w ! fi) sz)"
proof -
  have len: "length (ni_buffers w) = TUN_QUEUES" "length (ni_buffers_size w) = TUN_QUEUES"
    using ok list_all2_lengthD unfolding net_ok_def by fastforce+
  have bok: "buffer_ok (ni_buffers w ! fi) (ni_buffers_size w ! fi)"
    using ok fi len unfolding net_ok_def by (simp add: list_all2_nthD)
  show thesis
  proof (cases "sz > ni_buffers_size w ! fi \<or> ni_buffers_size w ! fi = 0")
    case True
    then have m: "max (ni_buffers_size w ! fi) sz = sz"
      using sz by (auto simp: max_def)
    show thesis
      by (rule that [of "case ni_buffers w ! fi of
                  Some b \<Rightarrow> realloc (heap_fill w) b (unat sz) | None \<Rightarrow> replicate (unat sz) 0"])
         (use True len fi m in \<open>simp_all add: ensure_has_size_def split: option.split\<close>)
  next
    case False
    then have m: "max (ni_buffers_size w ! fi) sz = ni_buffers_size w ! fi"
      by (auto simp: max_def)
    from False bok obtain b where b: "ni_buffers w ! fi = Some b" "length b = unat (ni_buffers_size w ! fi)"
      by (cases "ni_buffers w ! fi") (auto simp: buffer_ok_def)
    have "w\<lparr> ni_buffers := (ni_buffers w)[fi := Some b],
             ni_buffers_size := (ni_buffers_size w)[fi := ni_buffers_size w ! fi] \<rparr> = w"
      using b(1) len fi by (metis (mono_tags, lifting) list_update_id net_state.surjective
          net_state.update_convs(3,4))
    with b m False len fi show thesis
      by (intro that [of b]) (simp_all add: ensure_has_size_def)
  qed
qed

lemma fill_bytes:
  assumes "eth_size + length c \<le> length b"
  shows "put_at eth_bytes (patch (put_at eth_bytes b 0 h) eth_size c) 0 h' =
      eth_bytes h' @ c @ drop (eth_size + length c) b"
    and "get_at eth_of (patch (put_at eth_bytes b 0 h) eth_size c) 0 = h"
proof -
  have p: "patch (put_at eth_bytes b 0 h) eth_size c = eth_bytes h @ c @ drop (eth_size + length c) b"
    using assms by (simp add: put_at_def patch_def eth.enc_length add.commute)
  then show "put_at eth_bytes (patch (put_at eth_bytes b 0 h) eth_size c) 0 h' =
      eth_bytes h' @ c @ drop (eth_size + length c) b"
    by (simp add: put_at_def patch_def eth.enc_length)
  show "get_at eth_of (patch (put_at eth_bytes b 0 h) eth_size c) 0 = h"
    unfolding p by (simp add: eth.get_append)
qed

lemma eth_frame_hton:
  "eth_bytes (eth_header_hton \<lparr> eth_dst_mac = d, eth_src_mac = s, ether_type = t \<rparr>) @ c = eth_frame d s t c"
  by (simp add: eth_bytes_hton eth_frame_def)

lemma length_eth_frame [simp]: "length (eth_frame d s t c) = eth_size + length c"
  by (simp add: eth_frame_def)

lemma total_size:
  assumes "eth_size + unat (len :: u32) < 2 ^ 31"
  shows "unat (len + of_nat eth_size) = eth_size + unat len"
    and "sint (len + of_nat eth_size) = int (eth_size + unat len)"
    and "len + of_nat eth_size \<noteq> 0"
proof -
  show 1: "unat (len + of_nat eth_size) = eth_size + unat len"
    using assms by (simp add: unat_word_ariths)
  then show "len + of_nat eth_size \<noteq> 0"
    by (metis add_is_0 unsigned_0 zero_neq_numeral)
  have u: "uint (len + of_nat eth_size) = int (eth_size + unat len)"
    using 1 by (metis uint_nat)
  have "signed_take_bit 31 (int (eth_size + unat len)) = int (eth_size + unat len)"
    using assms of_nat_less_iff [of "eth_size + unat len" "2 ^ 31", where 'a = int]
    by (intro signed_take_bit_int_eq_self) (simp_all del: of_nat_less_iff)
  then show "sint (len + of_nat eth_size) = int (eth_size + unat len)"
    unfolding sint_uint u by simp
qed

text \<open>The transmit path, once a queue is chosen.\<close>

lemma fill_frame_ok:
  assumes "ni_buffers w ! fi = Some b" and "eth_size + unat len \<le> length b" and "unat len = length c"
  shows "fill_frame w fi c len d t =
      Inr (emit (sent_debug fi (length c)
                   \<lparr> eth_dst_mac = d, eth_src_mac = ni_mac w, ether_type = t \<rparr>)
            (w\<lparr> ni_buffers := (ni_buffers w)[fi :=
                 Some (eth_frame d (ni_mac w) t c @ drop (eth_size + length c) b)] \<rparr>))"
  using assms by (simp add: fill_frame_def fill_bytes eth_frame_hton [symmetric] Let_def)

lemma write_frame_ok:
  assumes ok: "tun_ok w" and fi: "fi < TUN_QUEUES" and free: "\<not> busy_status w ! fi"
    and b: "ni_buffers w ! fi = Some b" and n: "sint n = int m" "m \<le> length b"
  shows "write_frame w fi n = Inr (emit [Wrote (tun_fds w ! fi) (take m b)] w)"
proof -
  have "(busy_status w)[fi := False] = busy_status w"
    using free by (metis list_update_id)
  then show ?thesis
    using assms by (simp add: write_frame_def set_busy_def tun_write_def tun_ok_def emit_def Let_def)
qed

lemma prepare_frame_ok:
  assumes ok: "net_ok w" and fi: "fi < TUN_QUEUES"
    and len: "unat len = length c" "eth_size + length c < 2 ^ 31"
  shows "\<exists>bs ss rest. bind_run (ensure_has_size w fi (len + of_nat eth_size)) (\<lambda>w. fill_frame w fi c len d t) =
      Inr (emit (sent_debug fi (length c) \<lparr> eth_dst_mac = d, eth_src_mac = ni_mac w, ether_type = t \<rparr>)
            (w\<lparr> ni_buffers := bs, ni_buffers_size := ss \<rparr>)) \<and>
      net_ok (w\<lparr> ni_buffers := bs, ni_buffers_size := ss \<rparr>) \<and>
      bs ! fi = Some (eth_frame d (ni_mac w) t c @ rest)"
proof -
  let ?sz = "len + of_nat eth_size :: u32"
  let ?ss = "(ni_buffers_size w)[fi := max (ni_buffers_size w ! fi) ?sz]"
  have sz: "unat ?sz = eth_size + length c" "?sz \<noteq> 0"
    using total_size [of len] len by simp_all
  obtain b where ens: "ensure_has_size w fi ?sz =
      Inr (w\<lparr> ni_buffers := (ni_buffers w)[fi := Some b], ni_buffers_size := ?ss \<rparr>)"
    and lb: "length b = unat (max (ni_buffers_size w ! fi) ?sz)"
    using ensure_has_size_ok [OF ok fi sz(2)] by blast
  define b' where "b' = eth_frame d (ni_mac w) t c @ drop (eth_size + length c) b"
  let ?bs = "(ni_buffers w)[fi := Some b']"
  have big: "eth_size + length c \<le> length b"
    unfolding lb sz(1) [symmetric] by (simp add: word_le_nat_alt [symmetric])
  then have lb': "length b' = length b" by (simp add: b'_def)
  have lens: "length (ni_buffers w) = TUN_QUEUES" using ok by (simp add: net_ok_def)
  have "net_ok (w\<lparr> ni_buffers := ?bs, ni_buffers_size := ?ss \<rparr>)"
    using ok lb lb' by (auto simp: net_ok_def tun_ok_def buffer_ok_def intro!: list_all2_update_cong)
  moreover have "bind_run (ensure_has_size w fi ?sz) (\<lambda>w. fill_frame w fi c len d t) =
      Inr (emit (sent_debug fi (length c) \<lparr> eth_dst_mac = d, eth_src_mac = ni_mac w, ether_type = t \<rparr>)
            (w\<lparr> ni_buffers := ?bs, ni_buffers_size := ?ss \<rparr>))"
    using ens big len lens fi by (simp add: fill_frame_ok b'_def)
  moreover have "?bs ! fi = Some (eth_frame d (ni_mac w) t c @ drop (eth_size + length c) b)"
    using lens fi by (simp add: b'_def)
  ultimately show ?thesis by blast
qed

lemma net_interface_send_ok:
  assumes ok: "net_ok w" and free: "some_free w"
    and len: "unat len = length c" "eth_size + length c < 2 ^ 31"
  shows "\<exists>w'. net_interface_send w c len (Some d) t = Inr w' \<and> sends w d t c w'"
proof -
  let ?fi = "first_free w" and ?sz = "len + of_nat eth_size :: u32"
  have tok: "tun_ok w" using ok by (simp add: net_ok_def)
  note av = available_free [OF tok free]
  have sz: "sint ?sz = int (eth_size + length c)" using total_size(2) [of len] len by simp
  obtain bs ss rest where prep: "bind_run (ensure_has_size w ?fi ?sz) (\<lambda>w. fill_frame w ?fi c len d t) =
      Inr (emit (send_log w (length c) d t) (w\<lparr> ni_buffers := bs, ni_buffers_size := ss \<rparr>))"
    and ok': "net_ok (w\<lparr> ni_buffers := bs, ni_buffers_size := ss \<rparr>)"
    and b: "bs ! ?fi = Some (eth_frame d (ni_mac w) t c @ rest)"
    using prepare_frame_ok [OF ok av(2) len, of d t] unfolding send_log_def by blast
  have "net_interface_send w c len (Some d) t =
      write_frame (emit (send_log w (length c) d t) (w\<lparr> ni_buffers := bs, ni_buffers_size := ss \<rparr>)) ?fi ?sz"
    using av(1) prep by (simp add: net_interface_send_def Let_def bind_run_assoc [symmetric])
  also have "\<dots> = Inr (emit (send_log w (length c) d t @
      [Wrote (tun_fds w ! ?fi) (eth_frame d (ni_mac w) t c)]) (w\<lparr> ni_buffers := bs, ni_buffers_size := ss \<rparr>))"
    using write_frame_ok [OF _ av(2) _ _ sz, of "emit (send_log w (length c) d t)
      (w\<lparr> ni_buffers := bs, ni_buffers_size := ss \<rparr>)"] tok av(3) b by (simp add: tun_ok_def)
  finally show ?thesis using ok' by (simp add: sends_def)
qed

text \<open>Only the stated length of the content is used.\<close>

lemma net_interface_send_take:
  fixes w :: "'a net_state_scheme"
  assumes "unat len \<le> length c"
  shows "net_interface_send w c len d t = net_interface_send w (take (unat len) c) len d t"
proof -
  have "fill_frame v fi (take (unat len) c) len x t = fill_frame v fi c len x t"
    for v :: "'a net_state_scheme" and fi x
    using assms by (cases "ni_buffers v ! fi") (simp_all add: fill_frame_def)
  then show ?thesis by (cases d) (simp_all add: net_interface_send_def Let_def cong: if_cong)
qed

section \<open>The interface to the protocols above\<close>

text \<open>
  What a protocol may rely on: a sender that is ready takes any frame of representable size, writes
  exactly that frame and is ready again with the same addresses; a missing destination address is a
  failed assertion.
\<close>

fun send_all ::
  "('w \<Rightarrow> bytes \<Rightarrow> u32 \<Rightarrow> mac option \<Rightarrow> u16 \<Rightarrow> ('w, 'w) run) \<Rightarrow> 'w \<Rightarrow> (mac \<times> u16 \<times> bytes) list
    \<Rightarrow> ('w, 'w) run" where
  "send_all send w [] = Inr w"
| "send_all send w ((d, t, c) # ps) =
     bind_run (send w c (of_nat (length c)) (Some d) t) (\<lambda>w. send_all send w ps)"

locale frame_sender =
  fixes send :: "'w \<Rightarrow> bytes \<Rightarrow> u32 \<Rightarrow> mac option \<Rightarrow> u16 \<Rightarrow> ('w, 'w) run"
    and ready :: "'w \<Rightarrow> bool"
    and own_mac :: "'w \<Rightarrow> mac"
    and frames :: "'w \<Rightarrow> bytes list"
  assumes send_some: "ready w \<Longrightarrow> unat len = length c \<Longrightarrow> eth_size + length c < 2 ^ 31 \<Longrightarrow>
      \<exists>w'. send w c len (Some d) t = Inr w' \<and> ready w' \<and> own_mac w' = own_mac w \<and>
           frames w' = frames w @ [eth_frame d (own_mac w) t c]"
    and send_none: "send w c len None t = Inl (AssertFail w)"
begin

lemma send_all_in_order:
  "ready w \<Longrightarrow> \<forall>(d, t, c) \<in> set ps. eth_size + length c < 2 ^ 31 \<Longrightarrow>
   \<exists>w'. send_all send w ps = Inr w' \<and> ready w' \<and> own_mac w' = own_mac w \<and>
        frames w' = frames w @ map (\<lambda>(d, t, c). eth_frame d (own_mac w) t c) ps"
proof (induction ps arbitrary: w)
  case (Cons p ps)
  obtain d t c where p: "p = (d, t, c)" by (cases p)
  note 2 = Cons.IH Cons.prems
  from Cons.prems(2) have small: "eth_size + length c < 2 ^ 31" by (simp add: p)
  then have "unat (of_nat (length c) :: u32) = length c" by (simp add: unat_of_nat)
  with send_some [OF 2(2) _ small] obtain w1 where w1:
    "send w c (of_nat (length c)) (Some d) t = Inr w1" "ready w1" "own_mac w1 = own_mac w"
    "frames w1 = frames w @ [eth_frame d (own_mac w) t c]" by blast
  from 2(1) [OF w1(2)] 2(3) obtain w' where
    "send_all send w1 ps = Inr w'" "ready w'" "own_mac w' = own_mac w1"
    "frames w' = frames w1 @ map (\<lambda>(d, t, c). eth_frame d (own_mac w1) t c) ps" by auto
  with w1 show ?case by (simp add: p)
qed simp

end

lemma sends_effects:
  assumes "sends w d t c w'"
  shows "tun_fds w' = tun_fds w" "busy_status w' = busy_status w" "ni_ip w' = ni_ip w"
    "ni_mac w' = ni_mac w" "net_ok w'" "some_free w' = some_free w" "first_free w' = first_free w"
    "trace w' = trace w @ send_log w (length c) d t @
       [Wrote (tun_fds w ! first_free w) (eth_frame d (ni_mac w) t c)]"
    "net_state.more w' = net_state.more w"
proof -
  let ?u = "emit (send_log w (length c) d t @
                [Wrote (tun_fds w ! first_free w) (eth_frame d (ni_mac w) t c)])
            (w\<lparr> ni_buffers := ni_buffers w', ni_buffers_size := ni_buffers_size w' \<rparr>)"
  have w': "w' = ?u" and "net_ok w'" using assms unfolding sends_def by blast+
  then show "net_ok w'" by simp
  show "tun_fds w' = tun_fds w" by (subst w') simp
  show b: "busy_status w' = busy_status w" by (subst w') simp
  show "ni_ip w' = ni_ip w" by (subst w') simp
  show "ni_mac w' = ni_mac w" by (subst w') simp
  show "some_free w' = some_free w" "first_free w' = first_free w"
    by (simp_all add: some_free_def first_free_def b)
  show "trace w' = trace w @ send_log w (length c) d t @
       [Wrote (tun_fds w ! first_free w) (eth_frame d (ni_mac w) t c)]"
    by (subst w') simp
  show "net_state.more w' = net_state.more w" by (subst w') (simp add: emit_def)
qed

lemma frames_send_log [simp]: "frames_of (send_log w n d t) = []"
  by (simp add: send_log_def sent_debug_def)

interpretation nif: frame_sender net_interface_send "\<lambda>w. net_ok w \<and> some_free w" ni_mac
  "\<lambda>w. frames_of (trace w)"
proof unfold_locales
  fix w :: "'a net_state_scheme" and len :: u32 and c :: bytes and d t
  assume "net_ok w \<and> some_free w" "unat len = length c" "eth_size + length c < 2 ^ 31"
  then obtain w' where "net_interface_send w c len (Some d) t = Inr w'" and s: "sends w d t c w'"
    using net_interface_send_ok by blast
  with sends_effects [OF s] \<open>net_ok w \<and> some_free w\<close>
  show "\<exists>w'. net_interface_send w c len (Some d) t = Inr w' \<and> (net_ok w' \<and> some_free w') \<and>
      ni_mac w' = ni_mac w \<and>
      frames_of (trace w') = frames_of (trace w) @ [eth_frame d (ni_mac w) t c]"
    by simp
qed (simp add: net_interface_send_def)

lemma net_interface_read_free:
  assumes ok: "net_ok w" and free: "some_free w"
    and fits: "\<And>bs. rd (tun_fds w ! first_free w) (sint len) = Some bs \<Longrightarrow> length bs \<le> length buf"
  shows "net_interface_read rd w buf len =
    Inr (case rd (tun_fds w ! first_free w) (sint len) of
           None \<Rightarrow> (- 1, buf, w)
         | Some bs \<Rightarrow> (int (length bs), bs @ drop (length bs) buf, w))"
proof -
  have tok: "tun_ok w" using ok by (simp add: net_ok_def)
  note av = available_free [OF tok free]
  have "(busy_status w)[first_free w := False] = busy_status w"
    using av(3) by (metis list_update_id)
  then show ?thesis
    using fits av tok
    by (auto simp: net_interface_read_def set_busy_def tun_read_def tun_ok_def patch_def not_less
        split: option.splits)
qed

lemma net_interface_read_ok:
  assumes "net_ok w" and "some_free w"
    and "rd (tun_fds w ! first_free w) (sint len) = Some bs" and "length bs \<le> length buf"
  shows "net_interface_read rd w buf len = Inr (int (length bs), bs @ drop (length bs) buf, w)"
  using net_interface_read_free [OF assms(1,2), of rd len buf] assms(3,4) by simp

text \<open>The arguments of \<^verbatim>\<open>main\<close>.\<close>

lemma net_interface_init_main:
  "net_interface_init w ''10.0.0.4'' ''00:0c:29:6d:50:25'' =
     Inr (w\<lparr> ni_mac := MAC 0x30 0x30 0x3a 0x30 0x63 0x3a, ni_ip := u32_of 10 0 0 4 \<rparr>)"
proof -
  have "inet_pton ''10.0.0.4'' = Some (u32_of 10 0 0 4)" by code_simp
  moreover have "mac_of (cstring ''00:0c:29:6d:50:25'' @ [0]) = MAC 0x30 0x30 0x3a 0x30 0x63 0x3a" by code_simp
  ultimately show ?thesis by (simp add: net_interface_init_def)
qed

section \<open>Properties\<close>

definition sample_net :: "bool list \<Rightarrow> net_state" where
  "sample_net bs = \<lparr> tun_fds = [3..12], busy_status = bs, sys_write = (\<lambda>fd bs. int (length bs)), trace = [],
     ni_ip = u32_of 10 0 0 4, ni_mac = MAC 2 0 0 0 0 4, ni_buffers = replicate 10 None,
     ni_buffers_size = replicate 10 0, heap_fill = (\<lambda>i. 0) \<rparr>"

lemma sample_net_ok: "length bs = TUN_QUEUES \<Longrightarrow> net_ok (sample_net bs)"
  by (simp add: sample_net_def net_ok_def tun_ok_def buffer_ok_def list_all2_conv_all_nth upto.simps)

lemma sample_net_free: "some_free (sample_net (False # bs))"
  by (simp add: some_free_def sample_net_def exI [of _ 0])

text \<open>
  C26. A sequence of sends from a ready interface succeeds and puts the frames on the wire in order,
  each with the interface's own address as source, and leaves the interface ready again.
\<close>

theorem net_interface_sends_in_order:
  assumes "net_ok w" and "some_free w" and "\<forall>(d, t, c) \<in> set ps. eth_size + length c < 2 ^ 31"
  shows "\<exists>w'. send_all net_interface_send w ps = Inr w' \<and> net_ok w' \<and> some_free w' \<and>
    frames_of (trace w') = frames_of (trace w) @ map (\<lambda>(d, t, c). eth_frame d (ni_mac w) t c) ps"
  using nif.send_all_in_order [of w ps] assms by auto

theorem net_interface_sends_in_order_witness:
  "\<exists>w'. send_all net_interface_send (sample_net (False # replicate 9 True))
      [(BROADCAST, ETH_P_ARP, [1]), (MAC 2 0 0 0 0 9, ETH_P_IP, [2, 3])] = Inr w' \<and>
    frames_of (trace w') =
      [eth_frame BROADCAST (MAC 2 0 0 0 0 4) ETH_P_ARP [1],
       eth_frame (MAC 2 0 0 0 0 9) (MAC 2 0 0 0 0 4) ETH_P_IP [2, 3]]"
proof -
  let ?w = "sample_net (False # replicate 9 True)"
  let ?ps = "[(BROADCAST, ETH_P_ARP, [1]), (MAC 2 0 0 0 0 9, ETH_P_IP, [2, 3])]"
  have "net_ok ?w" "some_free ?w" by (simp_all add: sample_net_ok sample_net_free)
  moreover have "frames_of (trace ?w) = []" "ni_mac ?w = MAC 2 0 0 0 0 4" by (simp_all add: sample_net_def)
  moreover have "\<forall>(d, t, c) \<in> set ?ps. eth_size + length c < 2 ^ 31" by simp
  ultimately show ?thesis using net_interface_sends_in_order [of ?w ?ps] by auto
qed

text \<open>
  \<^verbatim>\<open>net_interface_init\<close> reads the IPv4 address from its text into network byte order, but copies
  the first six \<^emph>\<open>characters\<close> of the textual hardware address: with the arguments of \<^verbatim>\<open>main\<close> the
  stack's address is 10.0.0.4 and its hardware address is 30:30:3a:30:63:3a, the text \<^verbatim>\<open>00:0c:\<close>, and
  not 00:0c:29:6d:50:25.
\<close>

lemma net_interface_init_copies_text:
  "(5 \<le> length s \<longrightarrow> net_interface_init w (ipv4_fprint ip) s =
      Inr (w\<lparr> ni_mac := mac_of (cstring s @ [0]), ni_ip := htonl ip \<rparr>)) \<and>
   net_interface_init w ''10.0.0.4'' ''00:0c:29:6d:50:25'' =
      Inr (w\<lparr> ni_mac := MAC 0x30 0x30 0x3a 0x30 0x63 0x3a, ni_ip := u32_of 10 0 0 4 \<rparr>)"
proof (intro conjI impI)
  assume "5 \<le> length s"
  then show "net_interface_init w (ipv4_fprint ip) s =
      Inr (w\<lparr> ni_mac := mac_of (cstring s @ [0]), ni_ip := htonl ip \<rparr>)"
    by (simp add: net_interface_init_def inet_pton_print)
qed (rule net_interface_init_main)

end
