(* ===== verification/Hashmap.thy ===== *)
theory Hashmap
  imports Net_Prelude
begin

text \<open>
  The open-addressing hash map of \<^verbatim>\<open>collections/hashmap.c\<close>.  Keys and values are the \<^verbatim>\<open>void*\<close>
  pointers of the source, of any type with a null pointer \<open>0\<close>; the pointees are read by the
  \<^verbatim>\<open>hash\<close> and \<^verbatim>\<open>equals\<close> functions the map carries.  A call that may not return has an \<open>option\<close>
  result, \<open>None\<close> for the loop that never ends.  Allocation succeeds, and a capacity is the length
  of an allocated array, so arithmetic on capacities does not overflow.
\<close>

section \<open>The map\<close>

record ('k, 'v) hashmap_element =
  el_used :: bool
  el_key :: 'k
  el_value :: 'v

record ('k, 'v) hashmap =
  hm_array :: "('k, 'v) hashmap_element list"
  hm_capacity :: nat
  hm_size :: int
  hm_hash :: "'k \<Rightarrow> u64"
  hm_equals :: "'k \<Rightarrow> 'k \<Rightarrow> bool"

text \<open>What \<^verbatim>\<open>calloc\<close> fills an array of elements with.\<close>

definition zero_element :: "('k::zero, 'v::zero) hashmap_element" where
  "zero_element = \<lparr>el_used = False, el_key = 0, el_value = 0\<rparr>"

text \<open>\<^verbatim>\<open>long\<close> arithmetic wraps: past \<open>2 ^ 62\<close> the shift leaves the positive range.\<close>

partial_function (option) highest_bit_loop :: "int \<Rightarrow> int \<Rightarrow> int option" where
  "highest_bit_loop i ret =
     (if ret < i then highest_bit_loop i (wrap64 (push_bit 1 ret)) else Some ret)"

definition highest_bit :: "int \<Rightarrow> int option" where
  "highest_bit i = map_option (\<lambda>ret. ret sdiv 2) (highest_bit_loop i 1)"

definition hashmap_alloc ::
    "int \<Rightarrow> ('k \<Rightarrow> u64) \<Rightarrow> ('k \<Rightarrow> 'k \<Rightarrow> bool) \<Rightarrow> ('k::zero, 'v::zero) hashmap option" where
  "hashmap_alloc initial_size hash equals =
     map_option (\<lambda>hb.
       let target_size = wrap64 (push_bit 1 hb);
           target_size = (if target_size < 16 then 16 else target_size)
       in \<lparr>hm_array = replicate (nat target_size) zero_element,
           hm_capacity = nat target_size,
           hm_size = 0,
           hm_hash = hash,
           hm_equals = equals\<rparr>)
     (highest_bit initial_size)"

text \<open>The array that is released, with the struct itself; \<open>None\<close> is the failed assertion.\<close>

definition free_hashmap :: "('k, 'v) hashmap option \<Rightarrow> ('k, 'v) hashmap_element list option" where
  "free_hashmap mp = (case mp of None \<Rightarrow> None | Some m \<Rightarrow> Some (hm_array m))"

text \<open>Linear probing: the loop runs until a free element or one whose key is equal.\<close>

partial_function (option) indexof_loop ::
    "('k, 'v) hashmap \<Rightarrow> 'k \<Rightarrow> nat \<Rightarrow> nat option" where
  "indexof_loop m key index =
     (if el_used (hm_array m ! index)
      then if hm_equals m key (el_key (hm_array m ! index)) then Some index
           else indexof_loop m key ((index + 1) AND (hm_capacity m - 1))
      else Some index)"

definition hashmap_indexof :: "('k, 'v) hashmap \<Rightarrow> 'k \<Rightarrow> nat option" where
  "hashmap_indexof m key = indexof_loop m key (unat (hm_hash m key) AND (hm_capacity m - 1))"

definition hashmap_contains_key :: "('k, 'v) hashmap \<Rightarrow> 'k \<Rightarrow> bool option" where
  "hashmap_contains_key m key =
     map_option (\<lambda>index. el_used (hm_array m ! index)) (hashmap_indexof m key)"

definition hashmap_get_or_default :: "('k, 'v) hashmap \<Rightarrow> 'k \<Rightarrow> 'v \<Rightarrow> 'v option" where
  "hashmap_get_or_default m key def =
     map_option (\<lambda>index. let el = hm_array m ! index in
       if el_used el then el_value el else def) (hashmap_indexof m key)"

definition hashmap_get :: "('k, 'v::zero) hashmap \<Rightarrow> 'k \<Rightarrow> 'v option" where
  "hashmap_get m key = hashmap_get_or_default m key 0"

definition hashmap_lget_or_default :: "('k, 'v) hashmap \<Rightarrow> 'k \<Rightarrow> (unit \<Rightarrow> 'v) \<Rightarrow> 'v option" where
  "hashmap_lget_or_default m key def =
     map_option (\<lambda>index. let el = hm_array m ! index in
       if el_used el then el_value el else def ()) (hashmap_indexof m key)"

definition hashmap_remove :: "('k, 'v) hashmap \<Rightarrow> 'k \<Rightarrow> ('k, 'v) hashmap option" where
  "hashmap_remove m key =
     map_option (\<lambda>index. let el = hm_array m ! index in
       m\<lparr>hm_array := (hm_array m)[index := el\<lparr>el_used := False\<rparr>],
         hm_size := hm_size m - 1\<rparr>) (hashmap_indexof m key)"

fun clear_loop :: "nat \<Rightarrow> nat \<Rightarrow> ('k, 'v) hashmap_element list \<Rightarrow> ('k, 'v) hashmap_element list"
where
  "clear_loop i 0 arr = arr"
| "clear_loop i (Suc n) arr = clear_loop (Suc i) n (arr[i := (arr ! i)\<lparr>el_used := False\<rparr>])"

definition hashmap_clear :: "('k, 'v) hashmap \<Rightarrow> ('k, 'v) hashmap" where
  "hashmap_clear m = m\<lparr>hm_array := clear_loop 0 (hm_capacity m) (hm_array m), hm_size := 0\<rparr>"

definition hashmap_load_factor :: "('k, 'v) hashmap \<Rightarrow> int" where
  "hashmap_load_factor m = (hm_size m * 100) sdiv int (hm_capacity m)"

text \<open>The part of \<^verbatim>\<open>hashmap_put\<close> after the load check.\<close>

definition put_element :: "('k, 'v) hashmap \<Rightarrow> 'k \<Rightarrow> 'v \<Rightarrow> ('k, 'v) hashmap option" where
  "put_element m key data =
     map_option (\<lambda>index.
       let el = (hm_array m ! index)\<lparr>el_value := data\<rparr> in
       if \<not> el_used el
       then m\<lparr>hm_array := (hm_array m)[index := el\<lparr>el_key := key, el_used := True\<rparr>],
              hm_size := hm_size m + 1\<rparr>
       else m\<lparr>hm_array := (hm_array m)[index := el]\<rparr>) (hashmap_indexof m key)"

definition hashmap_capacity :: "('k, 'v) hashmap \<Rightarrow> nat" where
  "hashmap_capacity m = hm_capacity m"

definition hashmap_size :: "('k, 'v) hashmap \<Rightarrow> int" where
  "hashmap_size m = hm_size m"

text \<open>The empty array of twice the capacity that \<^verbatim>\<open>hashmap_expand\<close> fills.\<close>

definition expand_start :: "('k::zero, 'v::zero) hashmap \<Rightarrow> ('k, 'v) hashmap" where
  "expand_start m =
     m\<lparr>hm_array := replicate (hm_capacity m * 2) zero_element,
       hm_size := 0, hm_capacity := 2 * hm_capacity m\<rparr>"

text \<open>
  \<^verbatim>\<open>hashmap_put\<close> and \<^verbatim>\<open>hashmap_expand\<close> call each other, so they are one recursion over the calls:
  a put, or the loop of an expansion over the old elements that are left.
\<close>

datatype ('k, 'v) hm_call =
    PutCall "('k, 'v) hashmap" 'k 'v
  | ReinsertCall "('k, 'v) hashmap_element list" "('k, 'v) hashmap"

partial_function (option) hm_run ::
    "('k::zero, 'v::zero) hm_call \<Rightarrow> ('k, 'v) hashmap option" where
  "hm_run c = (case c of
     PutCall m key data \<Rightarrow>
       (if hashmap_load_factor m > 70
        then Option.bind (hm_run (ReinsertCall (hm_array m) (expand_start m)))
               (\<lambda>m'. put_element m' key data)
        else put_element m key data)
   | ReinsertCall old m \<Rightarrow>
       (case old of
          [] \<Rightarrow> Some m
        | element # rest \<Rightarrow>
            (if el_used element
             then Option.bind (hm_run (PutCall m (el_key element) (el_value element)))
                    (\<lambda>m'. hm_run (ReinsertCall rest m'))
             else hm_run (ReinsertCall rest m))))"

definition hashmap_put ::
    "('k::zero, 'v::zero) hashmap \<Rightarrow> 'k \<Rightarrow> 'v \<Rightarrow> ('k, 'v) hashmap option" where
  "hashmap_put m key data = hm_run (PutCall m key data)"

definition hashmap_expand :: "('k::zero, 'v::zero) hashmap \<Rightarrow> ('k, 'v) hashmap option" where
  "hashmap_expand m = hm_run (ReinsertCall (hm_array m) (expand_start m))"

section \<open>The iterator\<close>

text \<open>
  \<^verbatim>\<open>it->map\<close> is the map the iterator points to, \<open>None\<close> for \<^verbatim>\<open>NULL\<close>.  The memory after the array,
  which the loops read, is a parameter: \<open>None\<close> if the read is refused, \<open>Some b\<close> if the byte there
  reads as \<open>b\<close>.
\<close>

record ('k, 'v) hashmap_iterator =
  it_index :: nat
  it_consumed :: bool
  it_map :: "('k, 'v) hashmap option"

definition hashmap_it_alloc :: "('k, 'v) hashmap_iterator" where
  "hashmap_it_alloc = \<lparr>it_index = 0, it_consumed = False, it_map = None\<rparr>"

definition hashmap_it_reset :: "('k, 'v) hashmap_iterator \<Rightarrow> ('k, 'v) hashmap_iterator" where
  "hashmap_it_reset it = it\<lparr>it_index := 0, it_consumed := False\<rparr>"

definition hashmap_it_set_map ::
    "('k, 'v) hashmap_iterator \<Rightarrow> ('k, 'v) hashmap \<Rightarrow> ('k, 'v) hashmap_iterator" where
  "hashmap_it_set_map it m = hashmap_it_reset (it\<lparr>it_map := Some m\<rparr>)"

definition it_used ::
    "bool option \<Rightarrow> ('k, 'v) hashmap \<Rightarrow> nat \<Rightarrow> (nat, bool) run" where
  "it_used oob m i =
     (if i < hm_capacity m then Inr (el_used (hm_array m ! i))
      else case oob of None \<Rightarrow> Inl (OutOfBounds i) | Some b \<Rightarrow> Inr b)"

lemma bind_run_cong [fundef_cong]:
  "m = m' \<Longrightarrow> (\<And>x. m' = Inr x \<Longrightarrow> f x = g x) \<Longrightarrow> bind_run m f = bind_run m' g"
  by (cases m') auto

function it_scan :: "bool option \<Rightarrow> ('k, 'v) hashmap \<Rightarrow> nat \<Rightarrow> (nat, nat) run" where
  "it_scan oob m i =
     bind_run (it_used oob m i) (\<lambda>used.
       if \<not> used \<and> i < hm_capacity m then it_scan oob m (i + 1) else Inr i)"
  by pat_completeness auto
termination
  by (relation "measure (\<lambda>(oob, m, i). hm_capacity m - i)") auto

declare it_scan.simps [simp del]

definition hashmap_it_has_next ::
    "bool option \<Rightarrow> ('k, 'v) hashmap_iterator \<Rightarrow> (nat, bool \<times> ('k, 'v) hashmap_iterator) run" where
  "hashmap_it_has_next oob it = (case it_map it of
     None \<Rightarrow> Inr (False, it)
   | Some m \<Rightarrow>
       if it_index it \<ge> hm_capacity m then Inr (False, it)
       else let it = (if it_consumed it
                      then it\<lparr>it_index := it_index it + 1, it_consumed := False\<rparr> else it)
            in bind_run (it_scan oob m (it_index it)) (\<lambda>i.
                 if i < hm_capacity m
                 then if el_used (hm_array m ! i) then Inr (True, it\<lparr>it_index := i\<rparr>)
                      else Inl (AssertFail i)
                 else Inr (False, it\<lparr>it_index := i\<rparr>)))"

text \<open>\<^verbatim>\<open>*key\<close> and \<^verbatim>\<open>*value\<close> are written only when an element is found.\<close>

definition hashmap_it_next ::
    "bool option \<Rightarrow> ('k, 'v) hashmap_iterator \<Rightarrow>
     (nat, ('k \<times> 'v) option \<times> ('k, 'v) hashmap_iterator) run" where
  "hashmap_it_next oob it = (case it_map it of
     None \<Rightarrow> Inr (None, it)
   | Some m \<Rightarrow>
       if it_index it \<ge> hm_capacity m then Inr (None, it)
       else let it = (if it_consumed it
                      then it\<lparr>it_index := it_index it + 1, it_consumed := False\<rparr> else it)
            in bind_run (it_scan oob m (it_index it)) (\<lambda>i.
                 if i < hm_capacity m
                 then if el_used (hm_array m ! i)
                      then Inr (Some (el_key (hm_array m ! i), el_value (hm_array m ! i)),
                                it\<lparr>it_index := i, it_consumed := True\<rparr>)
                      else Inl (AssertFail i)
                 else Inr (None, it\<lparr>it_index := i\<rparr>)))"

text \<open>The loop of \<^verbatim>\<open>hashmap_it_skip\<close>, run while \<^verbatim>\<open>n > 0\<close>; the result is \<^verbatim>\<open>n == 0\<close>.\<close>

fun skip_loop ::
    "bool option \<Rightarrow> ('k, 'v) hashmap_iterator \<Rightarrow> nat \<Rightarrow>
     (nat, bool \<times> ('k, 'v) hashmap_iterator) run" where
  "skip_loop oob it 0 = Inr (True, it)"
| "skip_loop oob it (Suc n) =
     bind_run (hashmap_it_has_next oob it) (\<lambda>(more, it).
       if more
       then bind_run (hashmap_it_next oob it) (\<lambda>(_, it). skip_loop oob it n)
       else Inr (False, it))"

definition hashmap_it_skip ::
    "bool option \<Rightarrow> ('k, 'v) hashmap_iterator \<Rightarrow> int \<Rightarrow>
     (nat, bool \<times> ('k, 'v) hashmap_iterator) run" where
  "hashmap_it_skip oob it n = (if n < 0 then Inr (False, it) else skip_loop oob it (nat n))"

end
