(* ===== verification/Hashmap_Correct.thy ===== *)
theory Hashmap_Correct
  imports Hashmap
begin

text \<open>
  Correctness of the hash map.  The abstract specification is a partial map on keys up to
  \<^verbatim>\<open>equals\<close>; the invariant says where an element may sit: every element between the home slot of
  a stored key and the slot it occupies is in use.  The interface \<open>key_store\<close> is what the ARP
  cache relies on.
\<close>

section \<open>Interfaces\<close>

text \<open>What a map asks of the functions it is given.\<close>

locale hash_key =
  fixes hash :: "'k \<Rightarrow> u64"
    and equals :: "'k \<Rightarrow> 'k \<Rightarrow> bool"
  assumes eq_refl: "equals k k"
    and eq_sym: "equals k l \<Longrightarrow> equals l k"
    and eq_trans: "equals k l \<Longrightarrow> equals l n \<Longrightarrow> equals k n"
    and eq_hash: "equals k l \<Longrightarrow> hash k = hash l"
begin

lemma eq_left: "equals k l \<Longrightarrow> equals k n \<longleftrightarrow> equals l n"
  using eq_sym eq_trans by blast

end

section \<open>Slots, probe sequences and the invariant\<close>

abbreviation used_at :: "('k, 'v) hashmap \<Rightarrow> nat \<Rightarrow> bool" where
  "used_at m i \<equiv> el_used (hm_array m ! i)"

abbreviation key_at :: "('k, 'v) hashmap \<Rightarrow> nat \<Rightarrow> 'k" where
  "key_at m i \<equiv> el_key (hm_array m ! i)"

definition home :: "('k, 'v) hashmap \<Rightarrow> 'k \<Rightarrow> nat" where
  "home m k = unat (hm_hash m k) mod hm_capacity m"

definition probe :: "('k, 'v) hashmap \<Rightarrow> 'k \<Rightarrow> nat \<Rightarrow> nat" where
  "probe m k d = (home m k + d) mod hm_capacity m"

definition used_set :: "('k, 'v) hashmap \<Rightarrow> nat set" where
  "used_set m = {i. i < hm_capacity m \<and> used_at m i}"

definition holds_at :: "('k, 'v) hashmap \<Rightarrow> 'k \<Rightarrow> nat \<Rightarrow> bool" where
  "holds_at m k i \<longleftrightarrow> i < hm_capacity m \<and> used_at m i \<and> hm_equals m k (key_at m i)"

definition path_used :: "('k, 'v) hashmap \<Rightarrow> 'k \<Rightarrow> nat \<Rightarrow> bool" where
  "path_used m k i \<longleftrightarrow>
     (\<exists>d < hm_capacity m. i = probe m k d \<and> (\<forall>e < d. used_at m (probe m k e)))"

definition hm_shape :: "('k, 'v) hashmap \<Rightarrow> bool" where
  "hm_shape m \<longleftrightarrow> length (hm_array m) = hm_capacity m \<and> (\<exists>n \<ge> 4. hm_capacity m = 2 ^ n)"

definition hm_inv :: "('k, 'v) hashmap \<Rightarrow> bool" where
  "hm_inv m \<longleftrightarrow>
     hash_key (hm_hash m) (hm_equals m) \<and> hm_shape m \<and>
     hm_size m = int (card (used_set m)) \<and>
     100 * card (used_set m) < 71 * hm_capacity m + 100 \<and>
     (\<forall>i \<in> used_set m. \<forall>j \<in> used_set m. hm_equals m (key_at m i) (key_at m j) \<longrightarrow> i = j) \<and>
     (\<forall>i \<in> used_set m. path_used m (key_at m i) i)"

text \<open>The key pointers the map has stored.\<close>

definition stored_keys :: "('k, 'v) hashmap \<Rightarrow> 'k set" where
  "stored_keys m = key_at m ` used_set m"

text \<open>The abstract map.\<close>

definition hm_lookup :: "('k, 'v) hashmap \<Rightarrow> 'k \<Rightarrow> 'v option" where
  "hm_lookup m k =
     map_option (\<lambda>i. el_value (hm_array m ! i)) (find (holds_at m k) [0..<hm_capacity m])"

lemma and_pow2_minus_1: "(x :: nat) AND (2 ^ n - 1) = x mod 2 ^ n"
  by (metis mask_nat_def take_bit_eq_mask take_bit_eq_mod)

lemma hm_shapeD:
  assumes "hm_shape m"
  shows "length (hm_array m) = hm_capacity m" and "16 \<le> hm_capacity m"
    and "x AND (hm_capacity m - 1) = x mod hm_capacity m"
proof -
  obtain n where n: "n \<ge> 4" "hm_capacity m = 2 ^ n" using assms by (auto simp: hm_shape_def)
  have "(2 :: nat) ^ 4 \<le> 2 ^ n" using n(1) by (rule power_increasing) simp
  then show "16 \<le> hm_capacity m" using n(2) by simp
  show "length (hm_array m) = hm_capacity m" using assms by (simp add: hm_shape_def)
  show "x AND (hm_capacity m - 1) = x mod hm_capacity m" by (simp only: n(2) and_pow2_minus_1)
qed

lemma probe_less: "hm_shape m \<Longrightarrow> probe m k d < hm_capacity m"
  using hm_shapeD(2) [of m] by (simp add: probe_def)

lemma probe_step:
  "hm_shape m \<Longrightarrow> (probe m k d + 1) AND (hm_capacity m - 1) = probe m k (d + 1)"
  by (simp only: hm_shapeD(3)) (simp add: probe_def mod_Suc_eq)

lemma probe_surj:
  assumes "i < hm_capacity m"
  shows "\<exists>d < hm_capacity m. probe m k d = i"
proof -
  have h: "home m k < hm_capacity m" using assms by (simp add: home_def)
  let ?d = "(i + hm_capacity m - home m k) mod hm_capacity m"
  have "probe m k ?d = (home m k + (i + hm_capacity m - home m k)) mod hm_capacity m"
    by (simp add: probe_def mod_add_right_eq)
  also have "\<dots> = i" using assms h by simp
  finally show ?thesis using assms by (intro exI [of _ ?d]) simp
qed

lemma probe_inj:
  assumes "probe m k d = probe m k e" and "d < hm_capacity m" and "e < hm_capacity m"
  shows "d = e"
proof -
  have le: "x = y" if "x \<le> y" "y < hm_capacity m" "probe m k x = probe m k y" for x y
  proof -
    have "hm_capacity m dvd (home m k + y) - (home m k + x)"
      using that(1,3) by (metis add_le_cancel_left mod_eq_dvd_iff_nat probe_def)
    then have "hm_capacity m dvd y - x" by simp
    then show "x = y" using that(1,2) by (auto dest: dvd_imp_le)
  qed
  show ?thesis using le [of d e] le [of e d] assms by (metis nat_le_linear)
qed

section \<open>Where a probe ends\<close>

lemma indexof_loop_probe:
  assumes shape: "hm_shape m"
    and path: "\<forall>e < d. used_at m (probe m k (s + e)) \<and> \<not> hm_equals m k (key_at m (probe m k (s + e)))"
    and stop: "\<not> used_at m (probe m k (s + d)) \<or> hm_equals m k (key_at m (probe m k (s + d)))"
  shows "indexof_loop m k (probe m k s) = Some (probe m k (s + d))"
  using path stop
proof (induction d arbitrary: s)
  case 0
  then show ?case by (auto simp: indexof_loop.simps)
next
  case (Suc d)
  have "indexof_loop m k (probe m k s) = indexof_loop m k (probe m k (s + 1))"
    using Suc.prems(1) by (subst indexof_loop.simps) (auto simp: probe_step [OF shape, simplified])
  also have "\<dots> = Some (probe m k (s + 1 + d))"
  proof (rule Suc.IH)
    show "\<forall>e < d. used_at m (probe m k (s + 1 + e)) \<and>
        \<not> hm_equals m k (key_at m (probe m k (s + 1 + e)))"
      using Suc.prems(1) by (metis Suc_less_eq add.assoc plus_1_eq_Suc)
    show "\<not> used_at m (probe m k (s + 1 + d)) \<or> hm_equals m k (key_at m (probe m k (s + 1 + d)))"
      using Suc.prems(2) by simp
  qed
  finally show ?case by simp
qed

lemma hashmap_indexof_probe:
  assumes "hm_shape m"
    and "\<forall>e < d. used_at m (probe m k e) \<and> \<not> hm_equals m k (key_at m (probe m k e))"
    and "\<not> used_at m (probe m k d) \<or> hm_equals m k (key_at m (probe m k d))"
  shows "hashmap_indexof m k = Some (probe m k d)"
proof -
  have "unat (hm_hash m k) AND (hm_capacity m - 1) = probe m k 0"
    by (simp only: hm_shapeD(3) [OF assms(1)]) (simp add: probe_def home_def)
  then show ?thesis
    using indexof_loop_probe [of m d k 0] assms by (simp add: hashmap_indexof_def)
qed

lemma used_set_finite [simp]: "finite (used_set m)"
  by (simp add: used_set_def)

lemma free_slot:
  assumes "card (used_set m) < hm_capacity m"
  shows "\<exists>i < hm_capacity m. \<not> used_at m i"
proof (rule ccontr)
  assume "\<not> ?thesis"
  then have "used_set m = {..<hm_capacity m}" by (auto simp: used_set_def)
  then show False using assms by simp
qed

text \<open>With a free slot the probe loop ends, at the first slot that is free or holds the key.\<close>

lemma indexof_stops:
  assumes "hm_shape m" and "i < hm_capacity m" and "\<not> used_at m i"
  obtains d where "d < hm_capacity m" and "hashmap_indexof m k = Some (probe m k d)"
    and "\<forall>e < d. used_at m (probe m k e) \<and> \<not> hm_equals m k (key_at m (probe m k e))"
    and "\<not> used_at m (probe m k d) \<or> hm_equals m k (key_at m (probe m k d))"
proof -
  let ?stop = "\<lambda>d. \<not> used_at m (probe m k d) \<or> hm_equals m k (key_at m (probe m k d))"
  obtain d0 where d0: "d0 < hm_capacity m" "probe m k d0 = i" using probe_surj [OF assms(2)] by blast
  then have "?stop d0" using assms(3) by simp
  define d where "d = (LEAST d. ?stop d)"
  have stop: "?stop d" unfolding d_def using \<open>?stop d0\<close> by (rule LeastI)
  have before: "\<forall>e < d. used_at m (probe m k e) \<and> \<not> hm_equals m k (key_at m (probe m k e))"
    unfolding d_def using not_less_Least by blast
  have "d \<le> d0" unfolding d_def using \<open>?stop d0\<close> by (rule Least_le)
  then have "d < hm_capacity m" using d0(1) by simp
  then show thesis using that hashmap_indexof_probe [OF assms(1) before stop] before stop by blast
qed


section \<open>Looking a key up\<close>

lemma hm_invD:
  assumes "hm_inv m"
  shows "hash_key (hm_hash m) (hm_equals m)" and "hm_shape m"
    and "hm_size m = int (card (used_set m))" and "card (used_set m) < hm_capacity m"
    and "100 * card (used_set m) < 71 * hm_capacity m + 100"
  using assms hm_shapeD(2) [of m] by (simp_all add: hm_inv_def)

lemma hm_inv_equals:
  assumes "hm_inv m"
  shows "hm_equals m k k" and "hm_equals m k l \<Longrightarrow> hm_equals m l k"
    and "hm_equals m k l \<Longrightarrow> hm_equals m l n \<Longrightarrow> hm_equals m k n"
    and "hm_equals m k l \<Longrightarrow> hm_hash m k = hm_hash m l"
  by (fact hash_key.eq_refl [OF hm_invD(1) [OF assms]] hash_key.eq_sym [OF hm_invD(1) [OF assms]]
      hash_key.eq_trans [OF hm_invD(1) [OF assms]] hash_key.eq_hash [OF hm_invD(1) [OF assms]])+

lemma hm_inv_unique:
  assumes inv: "hm_inv m" and "holds_at m k i" and "holds_at m k j"
  shows "i = j"
proof -
  have "hm_equals m (key_at m i) (key_at m j)"
    using assms(2,3) hm_inv_equals(2,3) [OF inv] unfolding holds_at_def by blast
  then show ?thesis using assms by (auto simp: hm_inv_def used_set_def holds_at_def)
qed

lemma hm_lookup_None_iff: "hm_lookup m k = None \<longleftrightarrow> (\<forall>i. \<not> holds_at m k i)"
  by (auto simp: hm_lookup_def find_None_iff holds_at_def)

lemma hm_lookup_holds:
  assumes "hm_inv m" and "holds_at m k i"
  shows "hm_lookup m k = Some (el_value (hm_array m ! i))"
proof -
  obtain j where j: "find (holds_at m k) [0..<hm_capacity m] = Some j"
    using hm_lookup_None_iff [of m k] assms(2) by (auto simp: hm_lookup_def)
  then have "holds_at m k j" by (auto simp: find_Some_iff)
  then have "j = i" using hm_inv_unique [OF assms(1)] assms(2) by blast
  with j show ?thesis by (simp add: hm_lookup_def)
qed

lemma hm_lookup_SomeE:
  assumes "hm_inv m" and "hm_lookup m k = Some v"
  obtains i where "holds_at m k i" and "el_value (hm_array m ! i) = v"
  using assms hm_lookup_holds [OF assms(1)] hm_lookup_None_iff [of m k] by fastforce

lemma hm_lookup_cong: "hm_inv m \<Longrightarrow> hm_equals m k l \<Longrightarrow> hm_lookup m k = hm_lookup m l"
proof -
  assume inv: "hm_inv m" and kl: "hm_equals m k l"
  have "holds_at m k = holds_at m l"
    using kl hm_inv_equals(2,3) [OF inv] unfolding holds_at_def by blast
  then show ?thesis by (simp add: hm_lookup_def)
qed

lemma hm_lookup_eqI:
  assumes "hm_capacity m' = hm_capacity m" and "\<And>j. holds_at m' l j \<longleftrightarrow> holds_at m l j"
    and "\<And>j. holds_at m l j \<Longrightarrow> el_value (hm_array m' ! j) = el_value (hm_array m ! j)"
  shows "hm_lookup m' l = hm_lookup m l"
proof -
  have eq: "holds_at m' l = holds_at m l" using assms(2) by (simp add: fun_eq_iff)
  show ?thesis
  proof (cases "find (holds_at m l) [0..<hm_capacity m]")
    case (Some j)
    then have "holds_at m l j" by (auto simp: find_Some_iff)
    with Some show ?thesis by (simp add: hm_lookup_def eq assms)
  qed (simp add: hm_lookup_def eq assms)
qed

text \<open>The probe loop finds a stored key at its slot \<dots>\<close>

lemma indexof_holds:
  assumes inv: "hm_inv m" and i: "holds_at m k i"
  shows "hashmap_indexof m k = Some i"
proof -
  have "path_used m (key_at m i) i"
    using inv i by (simp add: hm_inv_def used_set_def holds_at_def)
  then obtain d where d: "d < hm_capacity m" "i = probe m (key_at m i) d"
    and path: "\<forall>e < d. used_at m (probe m (key_at m i) e)"
    by (auto simp: path_used_def)
  have "hm_hash m (key_at m i) = hm_hash m k"
    using i hm_inv_equals(4) [OF inv] unfolding holds_at_def by metis
  then have same: "probe m (key_at m i) = probe m k" by (simp add: fun_eq_iff probe_def home_def)
  have "\<not> hm_equals m k (key_at m (probe m k e))" if "e < d" for e
  proof
    assume "hm_equals m k (key_at m (probe m k e))"
    then have "holds_at m k (probe m k e)"
      using path that same probe_less [OF hm_invD(2) [OF inv]] by (simp add: holds_at_def)
    then have "probe m k e = probe m k d" using hm_inv_unique [OF inv _ i] d(2) same by simp
    then show False using probe_inj d(1) that by fastforce
  qed
  then show ?thesis
    using hashmap_indexof_probe [OF hm_invD(2) [OF inv], of d k] path d i same
    by (simp add: holds_at_def)
qed

text \<open>\<dots> and ends at a free slot of the probe sequence when the key is not stored.\<close>

lemma indexof_absent:
  assumes inv: "hm_inv m" and "hm_lookup m k = None"
  obtains d where "d < hm_capacity m" and "hashmap_indexof m k = Some (probe m k d)"
    and "\<not> used_at m (probe m k d)" and "\<forall>e < d. used_at m (probe m k e)"
proof -
  obtain i where i: "i < hm_capacity m" "\<not> used_at m i"
    using free_slot [OF hm_invD(4) [OF inv]] by blast
  obtain d where d: "d < hm_capacity m" "hashmap_indexof m k = Some (probe m k d)"
    and before: "\<forall>e < d. used_at m (probe m k e) \<and> \<not> hm_equals m k (key_at m (probe m k e))"
    and stop: "\<not> used_at m (probe m k d) \<or> hm_equals m k (key_at m (probe m k d))"
    using indexof_stops [OF hm_invD(2) [OF inv] i] by blast
  have "\<not> used_at m (probe m k d)"
    using stop assms(2) probe_less [OF hm_invD(2) [OF inv]]
    by (auto simp: hm_lookup_None_iff holds_at_def)
  then show thesis using that d before by blast
qed

lemma indexof_returns:
  assumes "hm_inv m"
  obtains i where "hashmap_indexof m k = Some i" and "i < hm_capacity m"
    and "hm_lookup m k = (if used_at m i then Some (el_value (hm_array m ! i)) else None)"
proof (cases "hm_lookup m k")
  case None
  obtain d where "hashmap_indexof m k = Some (probe m k d)" "\<not> used_at m (probe m k d)"
    using indexof_absent [OF assms None] by blast
  with None that probe_less [OF hm_invD(2) [OF assms]] show thesis by metis
next
  case (Some v)
  then obtain i where i: "holds_at m k i" "el_value (hm_array m ! i) = v"
    using hm_lookup_SomeE [OF assms] by blast
  then show thesis
    using that [of i] indexof_holds [OF assms i(1)] Some by (simp add: holds_at_def)
qed

lemma contains_key_lookup: "hm_inv m \<Longrightarrow> hashmap_contains_key m k = Some (hm_lookup m k \<noteq> None)"
  by (rule indexof_returns [of m k]) (auto simp: hashmap_contains_key_def)

lemma get_or_default_lookup:
  "hm_inv m \<Longrightarrow>
   hashmap_get_or_default m k def = Some (case hm_lookup m k of None \<Rightarrow> def | Some v \<Rightarrow> v)"
  by (rule indexof_returns [of m k]) (auto simp: hashmap_get_or_default_def Let_def)

lemma lget_or_default_lookup:
  "hm_inv m \<Longrightarrow>
   hashmap_lget_or_default m k def = Some (case hm_lookup m k of None \<Rightarrow> def () | Some v \<Rightarrow> v)"
  by (rule indexof_returns [of m k]) (auto simp: hashmap_lget_or_default_def Let_def)

section \<open>Storing an element\<close>

definition set_value :: "('k, 'v) hashmap \<Rightarrow> nat \<Rightarrow> 'v \<Rightarrow> ('k, 'v) hashmap" where
  "set_value m i v = m\<lparr>hm_array := (hm_array m)[i := (hm_array m ! i)\<lparr>el_value := v\<rparr>]\<rparr>"

definition add_at :: "('k, 'v) hashmap \<Rightarrow> nat \<Rightarrow> 'k \<Rightarrow> 'v \<Rightarrow> ('k, 'v) hashmap" where
  "add_at m i k v = m\<lparr>hm_array :=
       (hm_array m)[i := (hm_array m ! i)\<lparr>el_value := v, el_key := k, el_used := True\<rparr>],
     hm_size := hm_size m + 1\<rparr>"

lemma put_element_present:
  "hm_inv m \<Longrightarrow> holds_at m k i \<Longrightarrow> put_element m k v = Some (set_value m i v)"
  by (auto simp: put_element_def indexof_holds set_value_def holds_at_def Let_def)

lemma put_element_absent:
  "hashmap_indexof m k = Some i \<Longrightarrow> \<not> used_at m i \<Longrightarrow> put_element m k v = Some (add_at m i k v)"
  by (simp add: put_element_def add_at_def Let_def)

lemma set_value_simps:
  assumes "i < length (hm_array m)"
  shows "used_at (set_value m i v) j = used_at m j" and "key_at (set_value m i v) j = key_at m j"
    and "hm_capacity (set_value m i v) = hm_capacity m" and "hm_hash (set_value m i v) = hm_hash m"
    and "hm_equals (set_value m i v) = hm_equals m" and "hm_size (set_value m i v) = hm_size m"
    and "length (hm_array (set_value m i v)) = length (hm_array m)"
    and "el_value (hm_array (set_value m i v) ! j) = (if j = i then v else el_value (hm_array m ! j))"
  using assms by (auto simp: set_value_def nth_list_update)

lemma set_value_inv:
  assumes "hm_inv m" and "holds_at m k i"
  shows "hm_inv (set_value m i v)"
    and "hm_lookup (set_value m i v) l = (if hm_equals m l k then Some v else hm_lookup m l)"
    and "stored_keys (set_value m i v) = stored_keys m"
proof -
  have i: "i < length (hm_array m)"
    using assms hm_shapeD(1) [OF hm_invD(2) [OF assms(1)]] by (simp add: holds_at_def)
  note simps = set_value_simps [OF i]
  show "stored_keys (set_value m i v) = stored_keys m"
    by (simp add: stored_keys_def used_set_def simps)
  have "probe (set_value m i v) = probe m" by (simp add: fun_eq_iff probe_def home_def simps)
  then show inv': "hm_inv (set_value m i v)"
    using assms(1) by (simp add: hm_inv_def hm_shape_def used_set_def path_used_def simps)
  have holds: "holds_at (set_value m i v) = holds_at m" by (simp add: fun_eq_iff holds_at_def simps)
  show "hm_lookup (set_value m i v) l = (if hm_equals m l k then Some v else hm_lookup m l)"
  proof (cases "hm_equals m l k")
    case True
    then have "holds_at m l i"
      using assms hm_inv_equals(3) [OF assms(1)] unfolding holds_at_def by blast
    then show ?thesis using True hm_lookup_holds [OF inv', of l i] by (simp add: holds simps)
  next
    case False
    have "holds_at m l j \<Longrightarrow> j \<noteq> i" for j
      using False assms hm_inv_equals(2,3) [OF assms(1)] unfolding holds_at_def by blast
    then have "hm_lookup (set_value m i v) l = hm_lookup m l"
      by (intro hm_lookup_eqI) (auto simp: holds simps)
    with False show ?thesis by simp
  qed
qed


lemma add_at_simps:
  assumes "i < length (hm_array m)"
  shows "used_at (add_at m i k v) j \<longleftrightarrow> j = i \<or> used_at m j"
    and "key_at (add_at m i k v) j = (if j = i then k else key_at m j)"
    and "hm_capacity (add_at m i k v) = hm_capacity m" and "hm_hash (add_at m i k v) = hm_hash m"
    and "hm_equals (add_at m i k v) = hm_equals m" and "hm_size (add_at m i k v) = hm_size m + 1"
    and "length (hm_array (add_at m i k v)) = length (hm_array m)"
    and "el_value (hm_array (add_at m i k v) ! j) = (if j = i then v else el_value (hm_array m ! j))"
  using assms by (auto simp: add_at_def nth_list_update)

lemma add_at_used:
  assumes "hm_shape m" and "i < hm_capacity m"
  shows "used_set (add_at m i k v) = insert i (used_set m)" and "probe (add_at m i k v) = probe m"
    and "hm_shape (add_at m i k v)"
proof -
  have "i < length (hm_array m)" using hm_shapeD(1) [OF assms(1)] assms(2) by simp
  note simps = add_at_simps [OF this, of k v]
  show "used_set (add_at m i k v) = insert i (used_set m)" using assms(2) by (auto simp: used_set_def simps)
  show "probe (add_at m i k v) = probe m" by (simp add: fun_eq_iff probe_def home_def simps)
  show "hm_shape (add_at m i k v)" using assms(1) by (simp add: hm_shape_def simps)
qed

lemma add_at_path:
  assumes inv: "hm_inv m" and d: "d < hm_capacity m" "\<forall>e < d. used_at m (probe m k e)"
    and i: "i = probe m k d" and j: "j \<in> insert i (used_set m)"
  shows "path_used (add_at m i k v) (key_at (add_at m i k v) j) j"
proof -
  have less: "i < hm_capacity m" unfolding i by (rule probe_less [OF hm_invD(2) [OF inv]])
  then have len: "i < length (hm_array m)" using hm_shapeD(1) [OF hm_invD(2) [OF inv]] by simp
  note simps = add_at_simps [OF len, of k v] and probe = add_at_used(2) [OF hm_invD(2) [OF inv] less]
  show ?thesis
  proof (cases "j = i")
    case True
    have "\<exists>da<hm_capacity m. i = probe m k da \<and> (\<forall>e<da. used_at (add_at m i k v) (probe m k e))"
      by (rule exI [of _ d]) (use d in \<open>simp add: simps i [symmetric]\<close>)
    with True show ?thesis by (simp add: path_used_def probe simps)
  next
    case False
    then have "path_used m (key_at m j) j" using j inv by (auto simp: hm_inv_def)
    with False show ?thesis by (auto simp: path_used_def probe simps)
  qed
qed

lemma add_at_inv:
  assumes inv: "hm_inv m" and absent: "hm_lookup m k = None"
    and room: "100 * card (used_set m) < 71 * hm_capacity m"
    and d: "d < hm_capacity m" "\<not> used_at m (probe m k d)" "\<forall>e < d. used_at m (probe m k e)"
  defines "i \<equiv> probe m k d"
  shows "hm_inv (add_at m i k v)"
    and "hm_lookup (add_at m i k v) l = (if hm_equals m l k then Some v else hm_lookup m l)"
    and "hm_size (add_at m i k v) = hm_size m + 1"
    and "stored_keys (add_at m i k v) = insert k (stored_keys m)"
proof -
  have less: "i < hm_capacity m" unfolding i_def by (rule probe_less [OF hm_invD(2) [OF inv]])
  then have i: "i < length (hm_array m)" using hm_shapeD(1) [OF hm_invD(2) [OF inv]] by simp
  note simps = add_at_simps [OF i, of k v] and used = add_at_used(1) [OF hm_invD(2) [OF inv] less, of k v]
  have free: "i \<notin> used_set m" using d(2) by (simp add: i_def used_set_def)
  then have "key_at (add_at m i k v) ` used_set m = key_at m ` used_set m" by (intro image_cong) (auto simp: simps)
  then show "stored_keys (add_at m i k v) = insert k (stored_keys m)"
    unfolding stored_keys_def used image_insert by (simp only: simps(2) if_True simp_thms)
  have other: "\<not> hm_equals m k (key_at m j)" "\<not> hm_equals m (key_at m j) k" if "j \<in> used_set m" for j
    using that absent hm_inv_equals(2) [OF inv]
    by (auto simp: hm_lookup_None_iff holds_at_def used_set_def)
  have uniq: "j = j'" if "j \<in> insert i (used_set m)" "j' \<in> insert i (used_set m)"
    "hm_equals m (key_at (add_at m i k v) j) (key_at (add_at m i k v) j')" for j j'
    using that other free inv by (auto simp: simps hm_inv_def split: if_splits)
  note path = add_at_path [OF inv d(1,3) i_def [THEN meta_eq_to_obj_eq], of _ v]
  show inv': "hm_inv (add_at m i k v)"
    unfolding hm_inv_def used simps(3-6)
    using hm_invD [OF inv] room free add_at_used(3) [OF hm_invD(2) [OF inv] less, of k v] by (simp add: path uniq)
  have holds: "holds_at (add_at m i k v) l j \<longleftrightarrow> (if j = i then hm_equals m l k else holds_at m l j)"
    for l j using less by (auto simp: holds_at_def simps)
  show "hm_lookup (add_at m i k v) l = (if hm_equals m l k then Some v else hm_lookup m l)"
  proof (cases "hm_equals m l k")
    case True
    then show ?thesis using hm_lookup_holds [OF inv', of l i] by (simp add: holds simps)
  next
    case False
    have "holds_at m l j \<Longrightarrow> j \<noteq> i" for j using d(2) by (auto simp: holds_at_def i_def)
    then show ?thesis using False by (simp, intro hm_lookup_eqI) (auto simp: holds simps)
  qed
qed (simp add: add_at_def)

text \<open>
  The whole of the store: the map holds the new value at the key, every other key keeps its
  value, and the size grows exactly when the key is new.
\<close>

definition updates :: "('k, 'v) hashmap \<Rightarrow> 'k \<Rightarrow> 'v \<Rightarrow> ('k, 'v) hashmap \<Rightarrow> bool" where
  "updates m k v m' \<longleftrightarrow>
     hm_inv m' \<and> hm_hash m' = hm_hash m \<and> hm_equals m' = hm_equals m \<and>
     (\<forall>l. hm_lookup m' l = (if hm_equals m l k then Some v else hm_lookup m l)) \<and>
     hm_size m' = (if hm_lookup m k = None then hm_size m + 1 else hm_size m) \<and>
     stored_keys m' = (if hm_lookup m k = None then insert k (stored_keys m) else stored_keys m)"

lemma put_element_updates:
  assumes inv: "hm_inv m" and room: "100 * card (used_set m) < 71 * hm_capacity m"
  shows "\<exists>m'. put_element m k v = Some m' \<and> updates m k v m' \<and> hm_capacity m' = hm_capacity m"
proof (cases "hm_lookup m k")
  case None
  then obtain d where d: "d < hm_capacity m" "hashmap_indexof m k = Some (probe m k d)"
    "\<not> used_at m (probe m k d)" "\<forall>e < d. used_at m (probe m k e)"
    using indexof_absent [OF inv] by blast
  have "updates m k v (add_at m (probe m k d) k v)"
    using add_at_inv [OF inv None room d(1,3,4)] None
    by (simp add: updates_def) (simp add: add_at_def)
  then show ?thesis
    using put_element_absent [OF d(2,3)] by (auto simp: add_at_def)
next
  case (Some w)
  then obtain i where i: "holds_at m k i" using hm_lookup_SomeE [OF inv] by blast
  have "updates m k v (set_value m i v)"
    using set_value_inv [OF inv i] Some
    by (simp add: updates_def) (simp add: set_value_def)
  then show ?thesis
    using put_element_present [OF inv i] by (auto simp: set_value_def)
qed


section \<open>Growing the array\<close>

lemma load_factor_le:
  assumes "hm_inv m"
  shows "hashmap_load_factor m \<le> 70 \<longleftrightarrow> 100 * card (used_set m) < 71 * hm_capacity m"
proof -
  let ?n = "card (used_set m)" and ?c = "hm_capacity m"
  have "hashmap_load_factor m = int (100 * ?n div ?c)"
    by (simp add: hashmap_load_factor_def hm_invD(3) [OF assms] signed_divide_int_def sgn_if
        zdiv_int mult.commute)
  then have "hashmap_load_factor m \<le> 70 \<longleftrightarrow> 100 * ?n div ?c < 71" by linarith
  also have "\<dots> \<longleftrightarrow> 100 * ?n < 71 * ?c"
    using hm_shapeD(2) [OF hm_invD(2) [OF assms]] by (subst div_less_iff_less_mult) simp_all
  finally show ?thesis .
qed

lemma hashmap_put_unfold:
  "hashmap_put m k v =
     (if hashmap_load_factor m > 70
      then Option.bind (hashmap_expand m) (\<lambda>m'. put_element m' k v) else put_element m k v)"
  by (simp add: hashmap_put_def hashmap_expand_def hm_run.simps [of "PutCall m k v"])

abbreviation reinsert ::
    "('k::zero, 'v::zero) hashmap_element list \<Rightarrow> ('k, 'v) hashmap \<Rightarrow> ('k, 'v) hashmap option" where
  "reinsert old m \<equiv> hm_run (ReinsertCall old m)"

lemma reinsert_simps:
  "reinsert [] m = Some m"
  "reinsert (el # old) m =
     (if el_used el
      then Option.bind (hashmap_put m (el_key el) (el_value el)) (reinsert old)
      else reinsert old m)"
  by (simp_all add: hm_run.simps [of "ReinsertCall _ _"] hashmap_put_def)

definition el_holds :: "('k, 'v) hashmap \<Rightarrow> 'k \<Rightarrow> ('k, 'v) hashmap_element \<Rightarrow> bool" where
  "el_holds m l el \<longleftrightarrow> el_used el \<and> hm_equals m l (el_key el)"

definition fresh_keys ::
    "('k, 'v) hashmap \<Rightarrow> ('k, 'v) hashmap_element list \<Rightarrow> bool" where
  "fresh_keys m old \<longleftrightarrow>
     (\<forall>el \<in> set old. el_used el \<longrightarrow> hm_lookup m (el_key el) = None) \<and>
     sorted_wrt (\<lambda>a b. el_used a \<longrightarrow> el_used b \<longrightarrow> \<not> hm_equals m (el_key b) (el_key a)) old"

text \<open>One used element of the old array: it goes into a map with room and without its key.\<close>

lemma reinsert_one:
  assumes inv: "hm_inv m" and fresh: "fresh_keys m (el # old)" and used: "el_used el"
    and room: "100 * card (used_set m) < 71 * hm_capacity m"
  obtains m1 where "reinsert (el # old) m = reinsert old m1" and "hm_inv m1" "hm_hash m1 = hm_hash m" "hm_equals m1 = hm_equals m"
    "hm_size m1 = hm_size m + 1" "stored_keys m1 = insert (el_key el) (stored_keys m)"
    "\<forall>l. hm_lookup m1 l = (if hm_equals m l (el_key el) then Some (el_value el) else hm_lookup m l)"
    "hm_capacity m1 = hm_capacity m" "card (used_set m1) = card (used_set m) + 1" "fresh_keys m1 old"
proof -
  obtain m1 where m1: "put_element m (el_key el) (el_value el) = Some m1"
    "updates m (el_key el) (el_value el) m1" "hm_capacity m1 = hm_capacity m"
    using put_element_updates [OF inv room] by blast
  have "hashmap_put m (el_key el) (el_value el) = Some m1"
    using load_factor_le [OF inv] room m1(1) by (simp add: hashmap_put_unfold)
  then have run: "reinsert (el # old) m = reinsert old m1" using used by (simp add: reinsert_simps)
  have "hm_lookup m (el_key el) = None" using fresh used by (simp add: fresh_keys_def)
  then have upd: "hm_inv m1" "hm_hash m1 = hm_hash m" "hm_equals m1 = hm_equals m"
    "hm_size m1 = hm_size m + 1" "stored_keys m1 = insert (el_key el) (stored_keys m)"
    "\<forall>l. hm_lookup m1 l = (if hm_equals m l (el_key el) then Some (el_value el) else hm_lookup m l)"
    using m1(2) by (simp_all add: updates_def)
  have "card (used_set m1) = card (used_set m) + 1"
    using upd(4) hm_invD(3) [OF upd(1)] hm_invD(3) [OF inv] by simp
  moreover have "fresh_keys m1 old" using fresh used by (auto simp: fresh_keys_def upd)
  ultimately show thesis by (rule that [OF run upd m1(3)])
qed

lemma fresh_first:
  assumes inv: "hm_inv m" and fresh: "fresh_keys m (el # old)" and "el_used el" and eq: "hm_equals m l (el_key el)"
  shows "find (el_holds m l) old = None"
proof -
  have "\<not> hm_equals m l (el_key e)" if "e \<in> set old" "el_used e" for e
  proof -
    have "\<not> hm_equals m (el_key e) (el_key el)" using fresh assms(3) that by (simp add: fresh_keys_def)
    then show ?thesis using eq hm_inv_equals(2,3) [OF inv] by metis
  qed
  then show ?thesis by (auto simp: find_None_iff el_holds_def)
qed

lemma reinsert_correct:
  assumes "hm_inv m" and "fresh_keys m old"
    and "100 * (card (used_set m) + length (filter el_used old)) < 71 * hm_capacity m"
  shows "\<exists>m'. reinsert old m = Some m' \<and> hm_inv m' \<and> hm_hash m' = hm_hash m \<and>
    hm_equals m' = hm_equals m \<and> hm_capacity m' = hm_capacity m \<and>
    hm_size m' = hm_size m + int (length (filter el_used old)) \<and>
    stored_keys m' = stored_keys m \<union> el_key ` set (filter el_used old) \<and>
    (\<forall>l. hm_lookup m' l = (case find (el_holds m l) old of
       Some el \<Rightarrow> Some (el_value el) | None \<Rightarrow> hm_lookup m l))"
  using assms
proof (induction old arbitrary: m)
  case Nil
  then show ?case by (simp add: reinsert_simps)
next
  case (Cons el old)
  show ?case
  proof (cases "el_used el")
    case False
    have "fresh_keys m old" using Cons.prems(2) by (simp add: fresh_keys_def)
    then show ?thesis
      using Cons.IH [of m] Cons.prems False by (simp add: reinsert_simps el_holds_def)
  next
    case True
    have room: "100 * card (used_set m) < 71 * hm_capacity m" using Cons.prems(3) by simp
    obtain m1 where run: "reinsert (el # old) m = reinsert old m1"
      and m1: "hm_inv m1" "hm_hash m1 = hm_hash m" "hm_equals m1 = hm_equals m"
      "hm_size m1 = hm_size m + 1" "stored_keys m1 = insert (el_key el) (stored_keys m)"
      "\<forall>l. hm_lookup m1 l = (if hm_equals m l (el_key el) then Some (el_value el) else hm_lookup m l)"
      "hm_capacity m1 = hm_capacity m" "card (used_set m1) = card (used_set m) + 1" "fresh_keys m1 old"
      by (rule reinsert_one [OF Cons.prems(1,2) True room])
    obtain m' where m': "reinsert old m1 = Some m'" "hm_inv m'" "hm_hash m' = hm_hash m1"
      "hm_equals m' = hm_equals m1" "hm_capacity m' = hm_capacity m1"
      "hm_size m' = hm_size m1 + int (length (filter el_used old))"
      "stored_keys m' = stored_keys m1 \<union> el_key ` set (filter el_used old)"
      "\<And>l. hm_lookup m' l = (case find (el_holds m1 l) old of
         Some el \<Rightarrow> Some (el_value el) | None \<Rightarrow> hm_lookup m1 l)"
      using Cons.IH [OF m1(1,9)] Cons.prems(3) True m1(7,8) by auto
    have "el_holds m1 = el_holds m" by (simp add: fun_eq_iff el_holds_def m1(3))
    then have "hm_lookup m' l = (case find (el_holds m l) (el # old) of
       Some el \<Rightarrow> Some (el_value el) | None \<Rightarrow> hm_lookup m l)" for l
      using fresh_first [OF Cons.prems(1,2) True, of l] True by (cases "hm_equals m l (el_key el)")
        (simp_all add: m'(8) m1(6) el_holds_def split: option.split)
    then show ?thesis using m'(1-7) run m1(2-5,7) True by auto
  qed
qed


lemma find_map: "find P (map f xs) = map_option f (find (\<lambda>x. P (f x)) xs)"
  by (induction xs) auto

lemma hm_lookup_elements:
  assumes "length (hm_array m) = hm_capacity m"
  shows "hm_lookup m l = map_option el_value (find (el_holds m l) (hm_array m))"
proof -
  have "hm_array m = map ((!) (hm_array m)) [0..<hm_capacity m]"
    using assms by (metis map_nth)
  then have "find (el_holds m l) (hm_array m) =
      map_option ((!) (hm_array m)) (find (\<lambda>i. el_holds m l (hm_array m ! i)) [0..<hm_capacity m])"
    by (metis find_map)
  also have "find (\<lambda>i. el_holds m l (hm_array m ! i)) [0..<hm_capacity m] =
      find (holds_at m l) [0..<hm_capacity m]"
    by (rule find_cong) (auto simp: el_holds_def holds_at_def)
  finally show ?thesis by (simp add: hm_lookup_def option.map_comp comp_def)
qed

lemma stored_keys_elements:
  "length (hm_array m) = hm_capacity m \<Longrightarrow> stored_keys m = el_key ` set (filter el_used (hm_array m))"
  by (auto simp: stored_keys_def used_set_def in_set_conv_nth)

lemma card_used_set:
  "length (hm_array m) = hm_capacity m \<Longrightarrow> card (used_set m) = length (filter el_used (hm_array m))"
  by (simp add: used_set_def length_filter_conv_card)

text \<open>An array of unused elements is a valid, empty map.\<close>

lemma empty_map_inv:
  assumes "hash_key (hm_hash m) (hm_equals m)" and "hm_shape m" and "hm_size m = 0"
    and "\<forall>i < hm_capacity m. \<not> used_at m i"
  shows "hm_inv m" and "hm_lookup m k = None" and "used_set m = {}"
proof -
  show "used_set m = {}" using assms(4) by (auto simp: used_set_def)
  with assms show "hm_inv m" by (simp add: hm_inv_def)
  show "hm_lookup m k = None" using assms(4) by (auto simp: hm_lookup_None_iff holds_at_def)
qed

lemma expand_start_inv:
  assumes "hm_inv m"
  shows "hm_inv (expand_start m)" and "hm_lookup (expand_start m) k = None"
    and "used_set (expand_start m) = {}"
proof -
  obtain n where n: "n \<ge> 4" "hm_capacity m = 2 ^ n"
    using hm_invD(2) [OF assms] by (auto simp: hm_shape_def)
  have "\<exists>n' \<ge> 4. hm_capacity (expand_start m) = 2 ^ n'"
    using n by (intro exI [of _ "Suc n"]) (simp add: expand_start_def)
  then have shape: "hm_shape (expand_start m)" by (simp add: hm_shape_def expand_start_def)
  note * = empty_map_inv [of "expand_start m"]
  show "hm_inv (expand_start m)" "hm_lookup (expand_start m) k = None" "used_set (expand_start m) = {}"
    by (rule *; use shape hm_invD(1) [OF assms] in \<open>simp add: expand_start_def zero_element_def\<close>)+
qed

lemma fresh_keys_array:
  assumes "hm_inv m"
  shows "fresh_keys (expand_start m) (hm_array m)"
proof -
  have eq: "hm_equals (expand_start m) = hm_equals m" by (simp add: expand_start_def)
  have "\<not> hm_equals m (key_at m j) (key_at m i)"
    if "i < j" "j < length (hm_array m)" "used_at m i" "used_at m j" for i j
    using that hm_shapeD(1) [OF hm_invD(2) [OF assms]] hm_inv_equals(1) [OF assms]
      hm_inv_unique [OF assms, of "key_at m j" i j] by (auto simp: holds_at_def)
  then show ?thesis
    using expand_start_inv(2) [OF assms] by (simp add: fresh_keys_def sorted_wrt_iff_nth_less eq)
qed

lemma hashmap_expand_correct:
  assumes "hm_inv m"
  shows "\<exists>m'. hashmap_expand m = Some m' \<and> hm_inv m' \<and> hm_hash m' = hm_hash m \<and>
    hm_equals m' = hm_equals m \<and> hm_capacity m' = 2 * hm_capacity m \<and> hm_size m' = hm_size m \<and>
    hm_lookup m' = hm_lookup m \<and> stored_keys m' = stored_keys m"
proof -
  have len: "length (hm_array m) = hm_capacity m" by (rule hm_shapeD(1) [OF hm_invD(2) [OF assms]])
  have "16 \<le> hm_capacity m" by (rule hm_shapeD(2) [OF hm_invD(2) [OF assms]])
  then have room: "100 * (card (used_set (expand_start m)) + length (filter el_used (hm_array m)))
      < 71 * hm_capacity (expand_start m)"
    using hm_invD(5) [OF assms] expand_start_inv(3) [OF assms]
    by (simp add: card_used_set [OF len] expand_start_def)
  obtain m' where m': "hashmap_expand m = Some m'" "hm_inv m'"
    "hm_hash m' = hm_hash (expand_start m)" "hm_equals m' = hm_equals (expand_start m)"
    "hm_capacity m' = hm_capacity (expand_start m)"
    "hm_size m' = hm_size (expand_start m) + int (length (filter el_used (hm_array m)))"
    "stored_keys m' = stored_keys (expand_start m) \<union> el_key ` set (filter el_used (hm_array m))"
    "\<And>l. hm_lookup m' l = (case find (el_holds (expand_start m) l) (hm_array m) of
       Some el \<Rightarrow> Some (el_value el) | None \<Rightarrow> hm_lookup (expand_start m) l)"
    using reinsert_correct [OF expand_start_inv(1) [OF assms] fresh_keys_array [OF assms] room]
    by (auto simp: hashmap_expand_def)
  have "el_holds (expand_start m) = el_holds m"
    by (simp add: fun_eq_iff el_holds_def expand_start_def)
  then have "hm_lookup m' = hm_lookup m"
    by (intro ext) (simp add: m'(8) hm_lookup_elements [OF len] expand_start_inv(2) [OF assms]
        split: option.splits)
  moreover have "hm_size m' = hm_size m"
    by (simp add: m'(6) hm_invD(3) [OF assms] card_used_set [OF len] expand_start_def)
  moreover have "stored_keys m' = stored_keys m"
    using expand_start_inv(3) [OF assms] stored_keys_elements [OF len] m'(7)
    by (simp add: stored_keys_def)
  ultimately show ?thesis using m' by (auto simp: expand_start_def)
qed

lemma hashmap_put_updates:
  assumes inv: "hm_inv m"
  shows "\<exists>m'. hashmap_put m k v = Some m' \<and> updates m k v m'"
proof (cases "hashmap_load_factor m > 70")
  case False
  then show ?thesis
    using put_element_updates [OF inv] load_factor_le [OF inv] by (auto simp: hashmap_put_unfold)
next
  case True
  obtain m1 where m1: "hashmap_expand m = Some m1" "hm_inv m1" "hm_hash m1 = hm_hash m"
    "hm_equals m1 = hm_equals m" "hm_capacity m1 = 2 * hm_capacity m" "hm_size m1 = hm_size m"
    "hm_lookup m1 = hm_lookup m" "stored_keys m1 = stored_keys m"
    using hashmap_expand_correct [OF inv] by blast
  have "card (used_set m1) = card (used_set m)"
    using m1(6) hm_invD(3) [OF m1(2)] hm_invD(3) [OF inv] by simp
  then have "100 * card (used_set m1) < 71 * hm_capacity m1"
    using hm_invD(5) [OF inv] hm_shapeD(2) [OF hm_invD(2) [OF inv]] m1(5) by simp
  then obtain m' where "put_element m1 k v = Some m'" "updates m1 k v m'"
    using put_element_updates [OF m1(2)] by blast
  then show ?thesis using True m1 by (auto simp: hashmap_put_unfold updates_def)
qed


section \<open>Allocation\<close>

lemma wrap64_double: "k \<le> 61 \<Longrightarrow> wrap64 (push_bit 1 (2 ^ k)) = 2 ^ Suc k"
proof -
  assume "k \<le> 61"
  then have "(2 :: int) ^ Suc k \<le> 2 ^ 62" by (intro power_increasing) simp_all
  then have "(2 :: int) ^ Suc k < 2 ^ 63" by (rule le_less_trans) simp
  moreover have "- (2 ^ 63) \<le> (2 :: int) ^ Suc k" by (rule order_trans [of _ 0]) simp_all
  ultimately have "wrap64 (2 ^ Suc k) = 2 ^ Suc k" by (intro wrap64_id)
  then show ?thesis by (simp add: push_bit_eq_mult mult.commute)
qed

lemma highest_bit_loop_returns:
  assumes "i \<le> 2 ^ 62" and "k \<le> 62"
  shows "\<exists>j. k \<le> j \<and> j \<le> 62 \<and> highest_bit_loop i (2 ^ k) = Some (2 ^ j) \<and> i \<le> 2 ^ j \<and>
    (j = k \<or> 2 ^ (j - 1) < i)"
  using assms(2)
proof (induction "62 - k" arbitrary: k)
  case 0
  then have "k = 62" by simp
  with assms(1) show ?case by (subst highest_bit_loop.simps) auto
next
  case (Suc n)
  show ?case
  proof (cases "2 ^ k < i")
    case False
    with Suc.prems show ?thesis by (subst highest_bit_loop.simps) (auto intro: exI [of _ k])
  next
    case True
    have "k \<le> 61" using Suc.hyps(2) by simp
    then have step: "highest_bit_loop i (2 ^ k) = highest_bit_loop i (2 ^ Suc k)"
      using True by (subst highest_bit_loop.simps) (simp only: wrap64_double if_True)
    have nx: "n = 62 - Suc k" "Suc k \<le> 62" using Suc.hyps(2) \<open>k \<le> 61\<close> by simp_all
    obtain j where "Suc k \<le> j" "j \<le> 62" "highest_bit_loop i (2 ^ Suc k) = Some (2 ^ j)"
      "i \<le> 2 ^ j" "j = Suc k \<or> 2 ^ (j - 1) < i"
      using Suc.hyps(1) [of "Suc k"] nx \<open>k \<le> 61\<close> by blast
    with True step show ?thesis by (intro exI [of _ j]) auto
  qed
qed

text \<open>Past \<open>2 ^ 62\<close> the doubling overflows to \<open>- 2 ^ 63\<close>, then to 0, and never reaches the goal.\<close>

definition doubling_orbit :: "int set" where
  "doubling_orbit = {- (2 ^ 63), 0} \<union> (\<lambda>k. 2 ^ k) ` {..62}"

lemma doubling_orbit_step: "r \<in> doubling_orbit \<Longrightarrow> wrap64 (push_bit 1 r) \<in> doubling_orbit"
proof -
  assume "r \<in> doubling_orbit"
  then have "r = - (2 ^ 63) \<or> r = 0 \<or> (\<exists>k \<le> 62. r = 2 ^ k)" by (auto simp: doubling_orbit_def)
  moreover have "k \<le> 62 \<Longrightarrow> k = 62 \<or> k \<le> 61" for k :: nat by linarith
  ultimately consider "r = - (2 ^ 63)" | "r = 0" | "r = 2 ^ 62" | k where "k \<le> 61" "r = 2 ^ k"
    by blast
  then show ?thesis
  proof cases
    case 4
    then have "wrap64 (push_bit 1 r) = 2 ^ Suc k" by (simp only: wrap64_double)
    moreover have "Suc k \<in> {..62}" using 4 by simp
    ultimately show ?thesis unfolding doubling_orbit_def by blast
  qed (auto simp: doubling_orbit_def wrap64_def)
qed

lemma doubling_orbit_le: "r \<in> doubling_orbit \<Longrightarrow> r \<le> 2 ^ 62"
  using power_increasing [of _ 62 "2 :: int"] by (auto simp: doubling_orbit_def)

lemma highest_bit_loop_diverges:
  assumes "2 ^ 62 < i"
  shows "highest_bit_loop i 1 = None"
proof (rule ccontr)
  assume "highest_bit_loop i 1 \<noteq> None"
  then obtain y where y: "highest_bit_loop i 1 = Some y" by blast
  have "2 ^ 62 < i \<longrightarrow> 1 \<notin> doubling_orbit"
  proof (rule highest_bit_loop.raw_induct
      [where P = "\<lambda>i r y. 2 ^ 62 < i \<longrightarrow> r \<notin> doubling_orbit", OF _ y], rule impI)
    fix f :: "int \<Rightarrow> int \<Rightarrow> int option" and i r y
    assume IH: "\<And>i r y. f i r = Some y \<Longrightarrow> 2 ^ 62 < i \<longrightarrow> r \<notin> doubling_orbit"
      and eq: "(if r < i then f i (wrap64 (push_bit 1 r)) else Some r) = Some y"
      and i: "2 ^ 62 < i"
    show "r \<notin> doubling_orbit"
    proof (cases "r < i")
      case True
      then show ?thesis using IH [of i "wrap64 (push_bit 1 r)" y] eq i doubling_orbit_step by auto
    next
      case False
      then show ?thesis using i doubling_orbit_le by fastforce
    qed
  qed
  moreover have "1 \<in> doubling_orbit" by (auto simp: doubling_orbit_def image_iff intro: bexI [of _ 0])
  ultimately show False using assms by blast
qed

lemma hashmap_alloc_correct:
  assumes "i \<le> 2 ^ 62" and "hash_key h e"
  shows "\<exists>m. hashmap_alloc i h e = Some m \<and> hm_inv m \<and> hm_hash m = h \<and> hm_equals m = e \<and>
    hm_size m = 0 \<and> hm_lookup m = (\<lambda>_. None) \<and> i \<le> int (hm_capacity m) \<and>
    (hm_capacity m = 16 \<or> int (hm_capacity m) < 2 * i)"
proof -
  obtain j where j: "j \<le> 62" "highest_bit_loop i 1 = Some (2 ^ j)" "i \<le> 2 ^ j" "j = 0 \<or> 2 ^ (j - 1) < i"
    using highest_bit_loop_returns [OF assms(1), of 0] by auto
  define t :: int where "t = (if j < 4 then 16 else 2 ^ j)"
  have shift: "wrap64 (push_bit 1 (2 ^ j sdiv 2)) = (if j = 0 then 0 else 2 ^ j)"
  proof (cases j)
    case 0
    then show ?thesis by (simp add: wrap64_def signed_divide_int_def)
  next
    case (Suc k)
    have "(2 :: int) ^ Suc k sdiv 2 = 2 ^ k" by (simp add: signed_divide_int_def)
    then show ?thesis using Suc j(1) wrap64_double [of k] by simp
  qed
  have small: "(if j = 0 then 0 else 2 ^ j) < (16 :: int) \<longleftrightarrow> j < 4"
    using power_strict_increasing_iff [of "2 :: int" j 4] by simp
  let ?m = "\<lparr>hm_array = replicate (nat t) zero_element, hm_capacity = nat t, hm_size = 0,
    hm_hash = h, hm_equals = e\<rparr>"
  have alloc: "hashmap_alloc i h e = Some ?m"
    unfolding hashmap_alloc_def highest_bit_def j(2) option.map Let_def shift small
    by (auto simp: t_def)
  have pow: "\<exists>n \<ge> 4. nat t = 2 ^ n"
    by (cases "j < 4") (auto simp: t_def nat_power_eq intro: exI [of _ 4] exI [of _ j])
  have "hm_shape ?m" using pow by (simp add: hm_shape_def)
  then have "hm_inv ?m" and "hm_lookup ?m = (\<lambda>_. None)"
    using assms(2) empty_map_inv [of ?m] by (auto simp: zero_element_def)
  moreover have "0 < t" by (simp add: t_def)
  moreover have "i \<le> t \<and> (t = 16 \<or> t < 2 * i)"
  proof (cases "j < 4")
    case True
    then have "(2 :: int) ^ j \<le> 2 ^ 4" by (intro power_increasing) simp_all
    with True j(3) show ?thesis by (simp add: t_def)
  next
    case False
    then obtain k where "j = Suc k" by (cases j) auto
    with False j(3,4) show ?thesis by (simp add: t_def)
  qed
  ultimately show ?thesis using alloc by (intro exI [of _ ?m]) auto
qed

section \<open>Clearing\<close>

lemma clear_loop_map:
  "i + n \<le> length arr \<Longrightarrow>
   clear_loop i n arr =
     take i arr @ map (\<lambda>el. el\<lparr>el_used := False\<rparr>) (take n (drop i arr)) @ drop (i + n) arr"
proof (induction n arbitrary: i arr)
  case (Suc n)
  then have "drop i arr = arr ! i # drop (Suc i) arr" by (simp add: Cons_nth_drop_Suc)
  with Suc show ?case by (simp add: take_Suc_conv_app_nth)
qed simp

lemma hashmap_clear_correct:
  assumes "hm_inv m"
  shows "hm_inv (hashmap_clear m)" and "hm_lookup (hashmap_clear m) k = None"
    and "hm_size (hashmap_clear m) = 0" and "hm_capacity (hashmap_clear m) = hm_capacity m"
proof -
  have len: "length (hm_array m) = hm_capacity m" by (rule hm_shapeD(1) [OF hm_invD(2) [OF assms]])
  then have arr: "hm_array (hashmap_clear m) = map (\<lambda>el. el\<lparr>el_used := False\<rparr>) (hm_array m)"
    by (simp add: hashmap_clear_def clear_loop_map)
  have "hm_shape (hashmap_clear m)"
    using hm_invD(2) [OF assms] arr by (simp add: hm_shape_def) (simp add: hashmap_clear_def)
  then show "hm_inv (hashmap_clear m)" and "hm_lookup (hashmap_clear m) k = None"
    using empty_map_inv [of "hashmap_clear m"] hm_invD(1) [OF assms] arr len
    by (simp_all add: hashmap_clear_def)
qed (simp_all add: hashmap_clear_def)

end
