(* ===== verification/Hashmap_Props.thy ===== *)
theory Hashmap_Props
  imports Hashmap_Correct
begin

text \<open>
  The hash map as its clients see it: the interface \<open>key_store\<close> and its interpretation on the
  operations of the code, sequences of stores, removal, the iterator, and the properties of
  \<^verbatim>\<open>collections/hashmap.c\<close>.
\<close>

section \<open>The interface a client relies on\<close>

text \<open>Storing a list of bindings, one call after the other.\<close>

fun put_all :: "('m \<Rightarrow> 'k \<Rightarrow> 'v \<Rightarrow> 'm option) \<Rightarrow> 'm \<Rightarrow> ('k \<times> 'v) list \<Rightarrow> 'm option" where
  "put_all put m [] = Some m"
| "put_all put m ((k, v) # kvs) = Option.bind (put m k v) (\<lambda>m'. put_all put m' kvs)"

locale key_store =
  fixes inv :: "'m \<Rightarrow> bool"
    and keyeq :: "'m \<Rightarrow> 'k \<Rightarrow> 'k \<Rightarrow> bool"
    and lookup :: "'m \<Rightarrow> 'k \<Rightarrow> 'v option"
    and contains :: "'m \<Rightarrow> 'k \<Rightarrow> bool option"
    and get_def :: "'m \<Rightarrow> 'k \<Rightarrow> 'v \<Rightarrow> 'v option"
    and put :: "'m \<Rightarrow> 'k \<Rightarrow> 'v \<Rightarrow> 'm option"
  assumes contains_law: "inv m \<Longrightarrow> contains m k = Some (lookup m k \<noteq> None)"
    and get_law: "inv m \<Longrightarrow> get_def m k d = Some (case lookup m k of None \<Rightarrow> d | Some v \<Rightarrow> v)"
    and put_returns: "inv m \<Longrightarrow> \<exists>m'. put m k v = Some m'"
    and put_inv: "inv m \<Longrightarrow> put m k v = Some m' \<Longrightarrow> inv m'"
    and put_keyeq: "inv m \<Longrightarrow> put m k v = Some m' \<Longrightarrow> keyeq m' = keyeq m"
    and put_lookup: "inv m \<Longrightarrow> put m k v = Some m' \<Longrightarrow>
      lookup m' l = (if keyeq m l k then Some v else lookup m l)"
    and keyeq_refl: "inv m \<Longrightarrow> keyeq m k k"
begin

lemma put_then_get: "inv m \<Longrightarrow> put m k v = Some m' \<Longrightarrow> get_def m' k d = Some v"
  by (simp add: get_law put_inv put_lookup keyeq_refl)

lemma put_frame:
  "inv m \<Longrightarrow> put m k v = Some m' \<Longrightarrow> \<not> keyeq m l k \<Longrightarrow> get_def m' l d = get_def m l d"
  by (simp add: get_law put_inv put_lookup)

lemma put_all_returns: "inv m \<Longrightarrow> \<exists>m'. put_all put m kvs = Some m'"
proof (induction kvs arbitrary: m)
  case (Cons kv kvs)
  obtain k v where "kv = (k, v)" by (cases kv)
  moreover obtain m1 where m1: "put m k v = Some m1" using put_returns [OF Cons.prems] by blast
  ultimately show ?case using Cons.IH [OF put_inv [OF Cons.prems m1]] by simp
qed simp

lemma put_all_lookup:
  "inv m \<Longrightarrow> put_all put m kvs = Some m' \<Longrightarrow>
   inv m' \<and> keyeq m' = keyeq m \<and>
   lookup m' l = (case find (\<lambda>kv. keyeq m l (fst kv)) (rev kvs) of
     Some kv \<Rightarrow> Some (snd kv) | None \<Rightarrow> lookup m l)"
proof (induction kvs arbitrary: m)
  case Nil
  then show ?case by simp
next
  case (Cons kv kvs)
  obtain k v where kv: "kv = (k, v)" by (cases kv)
  with Cons.prems(2) obtain m1 where m1: "put m k v = Some m1" "put_all put m1 kvs = Some m'"
    by (auto simp: bind_eq_Some_conv)
  have find_snoc: "find P (xs @ [x]) = (case find P xs of Some y \<Rightarrow> Some y |
      None \<Rightarrow> if P x then Some x else None)" for P :: "'k \<times> 'v \<Rightarrow> bool" and xs x
    by (induction xs) auto
  show ?case
    using Cons.IH [OF put_inv [OF Cons.prems(1) m1(1)] m1(2)] put_keyeq [OF Cons.prems(1) m1(1)]
      put_lookup [OF Cons.prems(1) m1(1), of l]
    by (simp add: kv find_snoc split: option.splits)
qed

end

interpretation hm: key_store hm_inv hm_equals hm_lookup hashmap_contains_key
  hashmap_get_or_default hashmap_put
proof unfold_locales
  fix m :: "('k::zero, 'v::zero) hashmap" and k v l m'
  assume inv: "hm_inv m"
  obtain m1 where m1: "hashmap_put m k v = Some m1" "updates m k v m1"
    using hashmap_put_updates [OF inv] by blast
  then show "\<exists>m'. hashmap_put m k v = Some m'" by blast
  assume "hashmap_put m k v = Some m'"
  with m1 have "updates m k v m'" by simp
  then show "hm_inv m'" "hm_equals m' = hm_equals m"
    "hm_lookup m' l = (if hm_equals m l k then Some v else hm_lookup m l)"
    by (simp_all add: updates_def)
qed (simp_all add: contains_key_lookup get_or_default_lookup hm_inv_equals(1))

section \<open>Removal\<close>

definition remove_slot :: "('k, 'v) hashmap \<Rightarrow> nat \<Rightarrow> ('k, 'v) hashmap" where
  "remove_slot m i =
     m\<lparr>hm_array := (hm_array m)[i := (hm_array m ! i)\<lparr>el_used := False\<rparr>], hm_size := hm_size m - 1\<rparr>"

lemma remove_slot_simps:
  assumes "i < length (hm_array m)"
  shows "used_at (remove_slot m i) j \<longleftrightarrow> j \<noteq> i \<and> used_at m j"
    and "key_at (remove_slot m i) j = key_at m j"
    and "hm_capacity (remove_slot m i) = hm_capacity m" and "hm_hash (remove_slot m i) = hm_hash m"
    and "hm_equals (remove_slot m i) = hm_equals m" and "hm_size (remove_slot m i) = hm_size m - 1"
    and "length (hm_array (remove_slot m i)) = length (hm_array m)"
    and "el_value (hm_array (remove_slot m i) ! j) = el_value (hm_array m ! j)"
  using assms by (auto simp: remove_slot_def nth_list_update)

lemma remove_present: "hm_inv m \<Longrightarrow> holds_at m k i \<Longrightarrow> hashmap_remove m k = Some (remove_slot m i)"
  by (simp add: hashmap_remove_def indexof_holds remove_slot_def Let_def)

lemma probe_remove_slot:
  "i < length (hm_array m) \<Longrightarrow> probe (remove_slot m i) = probe m"
  by (simp add: fun_eq_iff probe_def home_def remove_slot_simps)

lemma holds_at_path:
  assumes "hm_inv m" and "holds_at m k i"
  obtains d where "d < hm_capacity m" and "i = probe m k d"
    and "\<forall>e < d. used_at m (probe m k e) \<and> \<not> hm_equals m k (key_at m (probe m k e))"
proof -
  obtain i0 where "i0 < hm_capacity m" "\<not> used_at m i0"
    using free_slot [OF hm_invD(4) [OF assms(1)]] by blast
  then obtain d where "d < hm_capacity m" "hashmap_indexof m k = Some (probe m k d)"
    "\<forall>e < d. used_at m (probe m k e) \<and> \<not> hm_equals m k (key_at m (probe m k e))"
    using indexof_stops [OF hm_invD(2) [OF assms(1)]] by metis
  then show thesis using that indexof_holds [OF assms] by simp
qed

lemma removed_key_absent:
  assumes inv: "hm_inv m" and i: "holds_at m k i"
  shows "hashmap_contains_key (remove_slot m i) k = Some False"
proof -
  have len: "i < length (hm_array m)"
    using i hm_shapeD(1) [OF hm_invD(2) [OF inv]] by (simp add: holds_at_def)
  note simps = remove_slot_simps [OF len]
  obtain d where d: "d < hm_capacity m" "i = probe m k d"
    "\<forall>e < d. used_at m (probe m k e) \<and> \<not> hm_equals m k (key_at m (probe m k e))"
    using holds_at_path [OF inv i] by blast
  have "probe m k e \<noteq> i" if "e < d" for e
    using that d(1,2) probe_inj [of m k e d] by auto
  moreover have "hm_shape (remove_slot m i)"
    using hm_invD(2) [OF inv] by (simp add: hm_shape_def simps)
  ultimately have "hashmap_indexof (remove_slot m i) k = Some i"
    using hashmap_indexof_probe [of "remove_slot m i" d k] d(3)
    by (simp add: probe_remove_slot [OF len] simps d(2) [symmetric])
  then show ?thesis by (simp add: hashmap_contains_key_def simps)
qed

text \<open>Removing the last element of a cluster keeps the invariant.\<close>

text \<open>No other probe path runs through the last slot of a cluster.\<close>

lemma remove_slot_path:
  assumes inv: "hm_inv m" and len: "i < length (hm_array m)" and gap: "\<not> used_at m ((i + 1) mod hm_capacity m)"
    and j: "j \<in> used_set m" "j \<noteq> i"
  shows "path_used (remove_slot m i) (key_at m j) j"
proof -
  have "path_used m (key_at m j) j" using inv j(1) by (simp add: hm_inv_def)
  then obtain d where d: "d < hm_capacity m" "j = probe m (key_at m j) d"
    and p: "\<forall>e < d. used_at m (probe m (key_at m j) e)" by (auto simp: path_used_def)
  have "probe m (key_at m j) e \<noteq> i" if "e < d" for e
  proof
    assume eq: "probe m (key_at m j) e = i"
    have "probe m (key_at m j) (Suc e) = (i + 1) mod hm_capacity m"
      using eq by (auto simp: probe_def mod_Suc_eq)
    moreover have "used_at m (probe m (key_at m j) (Suc e))"
      using p that d(2) j(1) by (cases "Suc e = d") (auto simp: used_set_def)
    ultimately show False using gap by simp
  qed
  then show ?thesis
    using d p by (auto simp: path_used_def probe_remove_slot [OF len] remove_slot_simps [OF len])
qed

lemma remove_slot_inv:
  assumes inv: "hm_inv m" and i: "holds_at m k i" and gap: "\<not> used_at m ((i + 1) mod hm_capacity m)"
  shows "hm_inv (remove_slot m i)"
    and "hm_lookup (remove_slot m i) l = (if hm_equals m l k then None else hm_lookup m l)"
proof -
  have len: "i < length (hm_array m)"
    using i hm_shapeD(1) [OF hm_invD(2) [OF inv]] by (simp add: holds_at_def)
  note simps = remove_slot_simps [OF len] and path = remove_slot_path [OF inv len gap]
  have used: "used_set (remove_slot m i) = used_set m - {i}" by (auto simp: used_set_def simps)
  have iu: "i \<in> used_set m" using i by (simp add: used_set_def holds_at_def)
  show inv': "hm_inv (remove_slot m i)"
    unfolding hm_inv_def used simps(2-6)
  proof (intro conjI ballI impI)
    show "hm_shape (remove_slot m i)" using hm_invD(2) [OF inv] by (simp add: hm_shape_def simps)
    show "hm_size m - 1 = int (card (used_set m - {i}))"
      using hm_invD(3) [OF inv] iu card_Suc_Diff1 [OF used_set_finite iu] by simp
    show "100 * card (used_set m - {i}) < 71 * hm_capacity m + 100"
      using hm_invD(5) [OF inv] iu by simp
  qed (use hm_invD(1) [OF inv] inv path in \<open>auto simp: hm_inv_def\<close>)
  have holds: "holds_at (remove_slot m i) l j \<longleftrightarrow> j \<noteq> i \<and> holds_at m l j" for l j
    by (auto simp: holds_at_def simps)
  have same: "holds_at m l i \<longleftrightarrow> hm_equals m l k" for l
    using i hm_inv_equals(2,3) [OF inv] unfolding holds_at_def by blast
  show "hm_lookup (remove_slot m i) l = (if hm_equals m l k then None else hm_lookup m l)"
  proof (cases "hm_equals m l k")
    case True
    then have "\<not> holds_at (remove_slot m i) l j" for j
      using hm_inv_unique [OF inv] same holds by blast
    with True show ?thesis by (simp add: hm_lookup_None_iff)
  next
    case False
    then have "hm_lookup (remove_slot m i) l = hm_lookup m l"
      by (intro hm_lookup_eqI) (use same holds in \<open>auto simp: simps\<close>)
    with False show ?thesis by simp
  qed
qed

text \<open>Removing a key that is not stored only spoils the count.\<close>

lemma remove_absent:
  assumes "hm_inv m" and "hm_lookup m k = None"
  shows "hashmap_remove m k = Some (m\<lparr>hm_size := hm_size m - 1\<rparr>)"
proof -
  obtain d where d: "hashmap_indexof m k = Some (probe m k d)" "\<not> used_at m (probe m k d)"
    using indexof_absent [OF assms] by blast
  have "(hm_array m ! probe m k d)\<lparr>el_used := False\<rparr> = hm_array m ! probe m k d"
    using d(2) by (cases "hm_array m ! probe m k d") simp
  then show ?thesis using d(1) by (simp add: hashmap_remove_def Let_def)
qed

section \<open>A full array\<close>

lemma nat_and_le: "(x :: nat) AND y \<le> y"
  by (metis AND_upper2 of_nat_0_le_iff of_nat_and_eq of_nat_le_iff)

lemma indexof_loop_full:
  assumes full: "\<forall>i < hm_capacity m. used_at m i \<and> \<not> hm_equals m k (key_at m i)"
    and pos: "0 < hm_capacity m" and "i < hm_capacity m"
  shows "indexof_loop m k i = None"
proof (rule ccontr)
  assume "indexof_loop m k i \<noteq> None"
  then obtain y where y: "indexof_loop m k i = Some y" by blast
  have "m = m \<longrightarrow> k = k \<longrightarrow> \<not> i < hm_capacity m"
  proof (rule indexof_loop.raw_induct
      [where P = "\<lambda>m' k' i y. m' = m \<longrightarrow> k' = k \<longrightarrow> \<not> i < hm_capacity m", OF _ y], intro impI notI)
    fix f m' k' i y
    assume IH: "\<And>m' k' i y. f m' k' i = Some (y :: nat) \<Longrightarrow> m' = m \<longrightarrow> k' = k \<longrightarrow> \<not> i < hm_capacity m"
      and eq: "(if used_at m' i then if hm_equals m' k' (key_at m' i) then Some i
         else f m' k' ((i + 1) AND (hm_capacity m' - 1)) else Some i) = Some y"
      and m': "m' = m" "k' = k" and i: "i < hm_capacity m"
    have "f m k ((i + 1) AND (hm_capacity m - 1)) = Some y" using eq full i m' by simp
    then have "\<not> (i + 1) AND (hm_capacity m - 1) < hm_capacity m" using IH by blast
    moreover have "(i + 1) AND (hm_capacity m - 1) \<le> hm_capacity m - 1" by (rule nat_and_le)
    ultimately show False using pos by simp
  qed
  then show False using assms(3) by simp
qed


lemma indexof_full:
  assumes "\<forall>i < hm_capacity m. used_at m i \<and> \<not> hm_equals m k (key_at m i)"
    and "0 < hm_capacity m"
  shows "hashmap_indexof m k = None"
proof -
  have "unat (hm_hash m k) AND (hm_capacity m - 1) \<le> hm_capacity m - 1" by (rule nat_and_le)
  then have "unat (hm_hash m k) AND (hm_capacity m - 1) < hm_capacity m" using assms(2) by linarith
  then show ?thesis unfolding hashmap_indexof_def by (rule indexof_loop_full [OF assms])
qed

section \<open>Iteration\<close>

definition entry :: "('k, 'v) hashmap \<Rightarrow> nat \<Rightarrow> 'k \<times> 'v" where
  "entry m i = (key_at m i, el_value (hm_array m ! i))"

text \<open>The used slots from \<open>i\<close> on, in array order, and where an iterator stands.\<close>

definition used_from :: "('k, 'v) hashmap \<Rightarrow> nat \<Rightarrow> nat list" where
  "used_from m i = filter (used_at m) [i..<hm_capacity m]"

lemma used_entries:
  assumes "hm_inv m"
  shows "map (\<lambda>(k, v). \<lparr> el_used = True, el_key = k, el_value = v \<rparr>) (map (entry m) (used_from m 0)) =
    filter el_used (hm_array m)"
proof -
  have "hm_array m = map ((!) (hm_array m)) [0..<hm_capacity m]"
    using hm_shapeD(1) [OF hm_invD(2) [OF assms]] by (metis map_nth)
  then have "filter el_used (hm_array m) = map ((!) (hm_array m)) (used_from m 0)"
    by (metis (no_types, lifting) comp_apply filter_cong filter_map used_from_def)
  moreover have "\<lparr> el_used = True, el_key = fst (entry m i), el_value = snd (entry m i) \<rparr> = hm_array m ! i"
    if "i \<in> set (used_from m 0)" for i
    using that by (cases "hm_array m ! i") (simp add: used_from_def entry_def)
  ultimately show ?thesis by (simp add: case_prod_beta)
qed

definition it_pos :: "('k, 'v) hashmap_iterator \<Rightarrow> nat" where
  "it_pos it = (if it_consumed it then it_index it + 1 else it_index it)"

lemma used_from_Cons: "i < hm_capacity m \<Longrightarrow>
  used_from m i = (if used_at m i then i # used_from m (Suc i) else used_from m (Suc i))"
  by (simp add: used_from_def upt_rec [of i])

lemma used_from_end: "hm_capacity m \<le> i \<Longrightarrow> used_from m i = []"
  by (simp add: used_from_def)

lemma used_from_skip:
  "used_from m i = j # js \<Longrightarrow> j < hm_capacity m \<and> used_at m j \<and> used_from m (Suc j) = js"
proof (induction "hm_capacity m - i" arbitrary: i)
  case 0
  then show ?case by (simp add: used_from_end)
next
  case (Suc n)
  then have "i < hm_capacity m" by simp
  with Suc.prems Suc.hyps(1) [of "Suc i"] Suc.hyps(2) show ?case
    by (cases "used_at m i") (auto simp: used_from_Cons)
qed

text \<open>
  The scan stops at the first used slot; with none left it reads the element after the array, and
  ends at the capacity whatever that read gives.
\<close>

lemma it_scan_next:
  "i \<le> hm_capacity m \<Longrightarrow>
   it_scan oob m i = (case used_from m i of
     j # _ \<Rightarrow> Inr j
   | [] \<Rightarrow> (case oob of None \<Rightarrow> Inl (OutOfBounds (hm_capacity m)) | Some _ \<Rightarrow> Inr (hm_capacity m)))"
proof (induction "hm_capacity m - i" arbitrary: i)
  case 0
  then show ?case
    by (subst it_scan.simps) (simp add: it_used_def used_from_end split: option.split)
next
  case (Suc n)
  then have less: "i < hm_capacity m" by simp
  show ?case
  proof (cases "used_at m i")
    case True
    with less show ?thesis by (subst it_scan.simps) (simp add: it_used_def used_from_Cons)
  next
    case False
    have "it_scan oob m i = it_scan oob m (Suc i)"
      using False less by (subst it_scan.simps) (simp add: it_used_def)
    with Suc.hyps(1) [of "Suc i"] Suc.hyps(2) False less show ?thesis
      by (simp add: used_from_Cons)
  qed
qed

lemma it_next_some:
  assumes "it_map it = Some m" and "it_index it < hm_capacity m"
    and "used_from m (it_pos it) = j # js"
  shows "hashmap_it_next oob it = Inr (Some (entry m j), it\<lparr>it_index := j, it_consumed := True\<rparr>)"
    and "hashmap_it_has_next oob it = Inr (True, it\<lparr>it_index := j, it_consumed := False\<rparr>)"
proof -
  have "it_pos it \<le> hm_capacity m" using assms(2) by (simp add: it_pos_def)
  then have "it_scan oob m (it_pos it) = Inr j" using assms(3) by (simp add: it_scan_next)
  moreover have "j < hm_capacity m" "used_at m j" using used_from_skip [OF assms(3)] by simp_all
  ultimately show
    "hashmap_it_next oob it = Inr (Some (entry m j), it\<lparr>it_index := j, it_consumed := True\<rparr>)"
    "hashmap_it_has_next oob it = Inr (True, it\<lparr>it_index := j, it_consumed := False\<rparr>)"
    using assms(1,2)
    by (auto simp: hashmap_it_next_def hashmap_it_has_next_def it_pos_def entry_def Let_def)
qed

lemma it_next_none:
  assumes "it_map it = Some m" and "it_index it < hm_capacity m" and "used_from m (it_pos it) = []"
  shows "hashmap_it_next (Some b) it =
      Inr (None, it\<lparr>it_index := hm_capacity m, it_consumed := False\<rparr>)"
    and "hashmap_it_has_next (Some b) it =
      Inr (False, it\<lparr>it_index := hm_capacity m, it_consumed := False\<rparr>)"
    and "hashmap_it_next None it = Inl (OutOfBounds (hm_capacity m))"
    and "hashmap_it_has_next None it = Inl (OutOfBounds (hm_capacity m))"
  using assms it_scan_next [of "it_pos it" m]
  by (auto simp: hashmap_it_next_def hashmap_it_has_next_def it_pos_def Let_def split: if_splits)

lemma it_exhausted:
  "it_map it = Some m \<Longrightarrow> hm_capacity m \<le> it_index it \<Longrightarrow>
   hashmap_it_next oob it = Inr (None, it) \<and> hashmap_it_has_next oob it = Inr (False, it)"
  by (simp add: hashmap_it_next_def hashmap_it_has_next_def)


lemma skip_loop_counts:
  assumes "it_map it = Some m" and "it_index it < hm_capacity m"
  shows "\<exists>it'. skip_loop (Some b) it n = Inr (n \<le> length (used_from m (it_pos it)), it')"
  using assms
proof (induction n arbitrary: it)
  case (Suc n)
  show ?case
  proof (cases "used_from m (it_pos it)")
    case Nil
    then show ?thesis using it_next_none(2) [OF Suc.prems Nil] by simp
  next
    case (Cons j js)
    note j = used_from_skip [OF Cons]
    let ?it = "it\<lparr>it_index := j, it_consumed := False\<rparr>"
    have pos: "it_map ?it = Some m" "it_index ?it < hm_capacity m"
      "used_from m (it_pos ?it) = j # js"
      using Suc.prems j by (auto simp: it_pos_def used_from_Cons)
    let ?it2 = "?it\<lparr>it_index := j, it_consumed := True\<rparr>"
    have "\<exists>it'. skip_loop (Some b) ?it2 n = Inr (n \<le> length (used_from m (it_pos ?it2)), it')"
      by (rule Suc.IH) (use Suc.prems j in auto)
    then show ?thesis
      using it_next_some(2) [OF Suc.prems Cons] it_next_some(1) [OF pos] j Cons
      by (simp add: it_pos_def)
  qed
qed simp

lemma length_used_from: "hm_inv m \<Longrightarrow> int (length (used_from m 0)) = hm_size m"
proof -
  assume inv: "hm_inv m"
  have "used_set m = set (used_from m 0)" by (auto simp: used_set_def used_from_def)
  moreover have "distinct (used_from m 0)" by (simp add: used_from_def)
  ultimately show ?thesis using hm_invD(3) [OF inv] by (simp add: distinct_card)
qed


section \<open>Concrete maps\<close>

declare highest_bit_loop.simps [code] indexof_loop.simps [code] hm_run.simps [code]

text \<open>Keys that are their own hash, and two short histories of a map.\<close>

definition nat_hash :: "nat \<Rightarrow> u64" where
  "nat_hash n = of_nat n"

definition sample_map :: "(nat, nat) hashmap" where
  "sample_map = \<lparr>hm_array = replicate 16 zero_element, hm_capacity = 16, hm_size = 0,
     hm_hash = nat_hash, hm_equals = (=)\<rparr>"

fun remove_all :: "('k, 'v) hashmap \<Rightarrow> 'k list \<Rightarrow> ('k, 'v) hashmap option" where
  "remove_all m [] = Some m"
| "remove_all m (k # ks) = Option.bind (hashmap_remove m k) (\<lambda>m'. remove_all m' ks)"

definition chain_history :: "(nat, nat) hashmap option" where
  "chain_history = Option.bind (put_all hashmap_put sample_map [(1, 10), (17, 20)])
     (\<lambda>m. hashmap_remove m 1)"

definition full_history :: "(nat, nat) hashmap option" where
  "full_history = Option.bind (remove_all sample_map [1, 2, 3, 4, 5])
     (\<lambda>m. put_all hashmap_put m (map (\<lambda>i. (i, i)) [1..<17]))"

lemma nat_hash_key: "hash_key nat_hash (=)"
  by unfold_locales simp_all

lemma sample_alloc: "hashmap_alloc 16 nat_hash (=) = Some sample_map"
proof -
  have "highest_bit 16 = Some 8" by code_simp
  then show ?thesis by (simp add: hashmap_alloc_def sample_map_def wrap64_def)
qed

lemma sample_inv: "hm_inv sample_map" "hm_lookup sample_map k = None"
proof -
  obtain m :: "(nat, nat) hashmap" where "hashmap_alloc 16 nat_hash (=) = Some m" "hm_inv m"
    "hm_lookup m = (\<lambda>_. None)"
    using hashmap_alloc_correct [OF _ nat_hash_key, of 16] by auto
  then show "hm_inv sample_map" "hm_lookup sample_map k = None" using sample_alloc by simp_all
qed

section \<open>Properties\<close>

text \<open>
  C6. \<^verbatim>\<open>hashmap_put\<close> always returns on a valid map, growing the array first when the load is above
  70 percent, and refines the update of a partial map: the key (up to \<^verbatim>\<open>equals\<close>) is bound to the
  value, every other key keeps its value, and the size grows exactly when the key was new.
\<close>

theorem hashmap_put_refines_update:
  assumes "hm_inv m"
  shows "\<exists>m'. hashmap_put m k v = Some m' \<and> hm_inv m' \<and>
    hm_lookup m' = (\<lambda>l. if hm_equals m l k then Some v else hm_lookup m l) \<and>
    hashmap_size m' = (if hm_lookup m k = None then hashmap_size m + 1 else hashmap_size m)"
proof -
  obtain m' where "hashmap_put m k v = Some m'" and "updates m k v m'"
    using hashmap_put_updates [OF assms] by blast
  then show ?thesis
    by (intro exI [of _ m']) (simp add: updates_def hashmap_size_def fun_eq_iff)
qed

theorem hashmap_put_refines_update_witness:
  "hm_inv sample_map \<and> (\<exists>m'. hashmap_put sample_map 5 50 = Some m' \<and> hm_lookup m' 5 = Some 50)"
proof -
  have eq: "hm_equals sample_map 5 5" by (simp add: sample_map_def)
  obtain m' where "hashmap_put sample_map 5 50 = Some m'"
    "hm_lookup m' = (\<lambda>l. if hm_equals sample_map l 5 then Some 50 else hm_lookup sample_map l)"
    using hashmap_put_refines_update [OF sample_inv(1), of 5 50] by auto
  then show ?thesis using sample_inv(1) eq by auto
qed

text \<open>
  C13. Round trip: from a fresh map, any sequence of \<^verbatim>\<open>hashmap_put\<close> calls returns, however often the
  array grows on the way, and afterwards the lookups give each key its last value:
  \<^verbatim>\<open>hashmap_contains_key\<close>, \<^verbatim>\<open>hashmap_get_or_default\<close> and \<^verbatim>\<open>hashmap_lget_or_default\<close> all return
  and agree with the list of bindings read backwards.
\<close>

theorem hashmap_puts_then_lookups:
  fixes h :: "'k::zero \<Rightarrow> u64" and kvs :: "('k \<times> 'v::zero) list"
  assumes "i \<le> 2 ^ 62" and "hash_key h e"
  shows "\<exists>m m'. hashmap_alloc i h e = Some m \<and> put_all hashmap_put m kvs = Some m' \<and>
    (\<forall>l d. case find (\<lambda>kv. e l (fst kv)) (rev kvs) of
       Some kv \<Rightarrow> hashmap_contains_key m' l = Some True \<and>
                  hashmap_get_or_default m' l d = Some (snd kv) \<and>
                  hashmap_lget_or_default m' l (\<lambda>_. d) = Some (snd kv)
     | None \<Rightarrow> hashmap_contains_key m' l = Some False \<and>
               hashmap_get_or_default m' l d = Some d \<and>
               hashmap_lget_or_default m' l (\<lambda>_. d) = Some d)"
proof -
  obtain m :: "('k, 'v) hashmap" where m: "hashmap_alloc i h e = Some m" "hm_inv m" "hm_equals m = e"
    "hm_lookup m = (\<lambda>_. None)"
    using hashmap_alloc_correct [OF assms] by blast
  obtain m' where m': "put_all hashmap_put m kvs = Some m'"
    using hm.put_all_returns [OF m(2)] by blast
  note look = hm.put_all_lookup [OF m(2) m']
  then have inv: "hm_inv m'" by blast
  show ?thesis
    using m(1) m' look
    by (intro exI [of _ m] exI [of _ m'])
       (simp add: m(3,4) contains_key_lookup [OF inv] get_or_default_lookup [OF inv]
         lget_or_default_lookup [OF inv] split: option.splits)
qed

theorem hashmap_puts_then_lookups_witness:
  "\<exists>m m'. hashmap_alloc 16 nat_hash (=) = Some (m :: (nat, nat) hashmap) \<and>
     put_all hashmap_put m (map (\<lambda>i. (i, 2 * i)) [1..<41]) = Some m' \<and>
     hashmap_get_or_default m' 33 0 = Some 66"
proof -
  have "find (\<lambda>kv. (33 :: nat) = fst kv) (rev (map (\<lambda>i. (i, 2 * i)) [1..<41])) = Some (33, 66)"
    by code_simp
  then show ?thesis
    using hashmap_puts_then_lookups
      [OF _ nat_hash_key, of 16 "map (\<lambda>i. (i, 2 * i)) [1..<41]"]
    by (fastforce split: option.splits)
qed

text \<open>
  C27. \<^verbatim>\<open>hashmap_alloc\<close> of at most \<open>2 ^ 62\<close> elements returns an empty valid map whose capacity is a
  power of two, at least the request and at least 16, and less than twice the request when it is
  above 16.
\<close>

theorem hashmap_alloc_capacity:
  fixes h :: "'k::zero \<Rightarrow> u64"
  assumes "i \<le> 2 ^ 62" and "hash_key h e"
  shows "\<exists>(m :: ('k, 'v::zero) hashmap) n.
    hashmap_alloc i h e = Some m \<and> hm_inv m \<and> hashmap_size m = 0 \<and>
    hashmap_capacity m = 2 ^ n \<and> i \<le> int (hashmap_capacity m) \<and> 16 \<le> hashmap_capacity m \<and>
    (hashmap_capacity m = 16 \<or> int (hashmap_capacity m) < 2 * i)"
proof -
  obtain m :: "('k, 'v) hashmap" where m: "hashmap_alloc i h e = Some m" "hm_inv m" "hm_size m = 0"
    "i \<le> int (hm_capacity m)" "hm_capacity m = 16 \<or> int (hm_capacity m) < 2 * i"
    using hashmap_alloc_correct [OF assms] by blast
  obtain n where "hm_capacity m = 2 ^ n" using hm_invD(2) [OF m(2)] by (auto simp: hm_shape_def)
  with m hm_shapeD(2) [OF hm_invD(2) [OF m(2)]] show ?thesis
    by (intro exI [of _ m] exI [of _ n]) (simp add: hashmap_capacity_def hashmap_size_def)
qed

theorem hashmap_alloc_capacity_witness:
  "\<exists>m n. hashmap_alloc 33 nat_hash (=) = Some (m :: (nat, nat) hashmap) \<and>
     hashmap_capacity m = 2 ^ n \<and> 33 \<le> int (hashmap_capacity m)"
  using hashmap_alloc_capacity [OF _ nat_hash_key, of 33] by fastforce

text \<open>
  A request above \<open>2 ^ 62\<close> makes the loop of \<^verbatim>\<open>highest_bit\<close> overflow its \<^verbatim>\<open>long\<close> and run
  forever: \<^verbatim>\<open>hashmap_alloc\<close> does not return.
\<close>

lemma hashmap_alloc_overflow_diverges:
  assumes "2 ^ 62 < i"
  shows "hashmap_alloc i h e = None"
  using highest_bit_loop_diverges [OF assms] by (simp add: hashmap_alloc_def highest_bit_def)

text \<open>
  C28. Removing a stored key whose following slot is free (the end of its cluster) is the removal
  from the partial map: the key is gone, every other key keeps its value, the size drops by one and
  the map stays valid.
\<close>

theorem hashmap_remove_end_of_cluster:
  assumes "hm_inv m" and "holds_at m k i" and "\<not> used_at m ((i + 1) mod hm_capacity m)"
  shows "\<exists>m'. hashmap_remove m k = Some m' \<and> hm_inv m' \<and> hashmap_size m' = hashmap_size m - 1 \<and>
    hm_lookup m' = (\<lambda>l. if hm_equals m l k then None else hm_lookup m l)"
  using remove_present [OF assms(1,2)] remove_slot_inv [OF assms]
  by (auto simp: hashmap_size_def remove_slot_def)

theorem hashmap_remove_end_of_cluster_witness:
  "\<exists>m m'. put_all hashmap_put sample_map [(3, 30), (4, 40)] = Some m \<and> hashmap_remove m 4 = Some m' \<and>
     hm_lookup m' 4 = None"
proof -
  obtain m where m: "put_all hashmap_put sample_map [(3, 30), (4, 40)] = Some m"
    using hm.put_all_returns [OF sample_inv(1)] by blast
  have inv: "hm_inv m" and eq: "hm_equals m = (=)"
    using hm.put_all_lookup [OF sample_inv(1) m] by (simp_all add: sample_map_def)
  have "map_option (\<lambda>m. hm_capacity m = 16 \<and> el_used (hm_array m ! 4) \<and> el_key (hm_array m ! 4) = 4 \<and>
      \<not> el_used (hm_array m ! 5)) (put_all hashmap_put sample_map [(3, 30), (4, 40)]) = Some True"
    by code_simp
  then have "holds_at m 4 4" and "\<not> used_at m ((4 + 1) mod hm_capacity m)"
    using m eq by (simp_all add: holds_at_def)
  from hashmap_remove_end_of_cluster [OF inv this] m eq show ?thesis by auto
qed


text \<open>
  C40. \<^verbatim>\<open>hashmap_remove\<close> of a key that is not stored decrements the size all the same.  Five such calls
  on an empty map of capacity 16 hide five elements from the load check, so sixteen stores fill the
  array without growing it, and from then on a lookup or a store of any other key never returns.
\<close>

theorem hashmap_remove_absent_then_hang:
  "\<exists>m. full_history = Some m \<and> hashmap_size m = 11 \<and> hashmap_capacity m = 16 \<and>
     hashmap_get m 99 = None \<and> hashmap_put m 99 0 = None"
proof -
  have "map_option (\<lambda>m. (hashmap_size m, hm_capacity m, length (hm_array m), hashmap_load_factor m,
      list_all (\<lambda>el. el_used el \<and> \<not> hm_equals m 99 (el_key el)) (hm_array m))) full_history
      = Some (11, 16, 16, 68, True)"
    by code_simp
  then obtain m where m: "full_history = Some m" "hashmap_size m = 11" "hm_capacity m = 16"
    "length (hm_array m) = 16" "hashmap_load_factor m = 68"
    "list_all (\<lambda>el. el_used el \<and> \<not> hm_equals m 99 (el_key el)) (hm_array m)"
    by auto
  then have "hashmap_indexof m 99 = None"
    by (intro indexof_full) (auto simp: list_all_length)
  then show ?thesis
    using m by (intro exI [of _ m]) (simp add: hashmap_capacity_def hashmap_get_def
        hashmap_get_or_default_def hashmap_put_unfold put_element_def)
qed

text \<open>
  Iterating a valid map with \<^verbatim>\<open>hashmap_it_skip\<close> from the start succeeds for exactly the counts up
  to the size of the map, whatever the memory behind the array holds.
\<close>

lemma hashmap_it_skip_counts:
  assumes "hm_inv m"
  shows "\<exists>it'. hashmap_it_skip (Some b) (hashmap_it_set_map it m) n = Inr (0 \<le> n \<and> n \<le> hashmap_size m, it')"
proof (cases "n < 0")
  case True
  then show ?thesis by (simp add: hashmap_it_skip_def)
next
  case False
  let ?it = "hashmap_it_set_map it m"
  have it: "it_map ?it = Some m" "it_index ?it < hm_capacity m" "it_pos ?it = 0"
    using hm_shapeD(2) [OF hm_invD(2) [OF assms]]
    by (simp_all add: hashmap_it_set_map_def hashmap_it_reset_def it_pos_def)
  have "nat n \<le> length (used_from m 0) \<longleftrightarrow> 0 \<le> n \<and> n \<le> hashmap_size m"
    using False length_used_from [OF assms] by (simp add: hashmap_size_def nat_le_iff)
  then show ?thesis
    using skip_loop_counts [OF it(1,2), of b "nat n"] False it(3) by (simp add: hashmap_it_skip_def)
qed

lemma hashmap_it_skip_counts_witness:
  "\<exists>it'. hashmap_it_skip (Some True) (hashmap_it_set_map hashmap_it_alloc sample_map) 1 = Inr (False, it')"
  using hashmap_it_skip_counts [OF sample_inv(1), of True hashmap_it_alloc 1]
  by (simp add: hashmap_size_def sample_map_def)

text \<open>
  An iterator whose remaining slots are all free reads the \<^verbatim>\<open>used\<close> field of the element after the
  array before it answers: where that memory cannot be read, \<^verbatim>\<open>hashmap_it_has_next\<close> and
  \<^verbatim>\<open>hashmap_it_next\<close> fault instead of returning 0.
\<close>

lemma hashmap_it_reads_past_array:
  assumes "it_map it = Some m" and "it_index it < hm_capacity m" and "used_from m (it_pos it) = []"
  shows "hashmap_it_has_next None it = Inl (OutOfBounds (hashmap_capacity m)) \<and>
    hashmap_it_next None it = Inl (OutOfBounds (hashmap_capacity m)) \<and>
    (\<exists>it'. hashmap_it_has_next (Some b) it = Inr (False, it'))"
  using it_next_none [OF assms] by (auto simp: hashmap_capacity_def)

end
