(* ===== verification/Arp.thy ===== *)
theory Arp
  imports Net_Interface Hashmap_Props
begin

text \<open>
  The address resolution protocol of \<^verbatim>\<open>protocols/arp.c\<close> and \<^verbatim>\<open>protocols/arp.h\<close>: the packet, the cache
  (a hash map from keys to allocated hardware addresses), resolution and reception.
\<close>

section \<open>The packet\<close>

abbreviation ARP_ETHERNET :: u16 where "ARP_ETHERNET \<equiv> 1"
abbreviation ARP_IPV4 :: u16 where "ARP_IPV4 \<equiv> 0x0800"
abbreviation ARP_REQUEST :: u16 where "ARP_REQUEST \<equiv> 1"
abbreviation ARP_REPLY :: u16 where "ARP_REPLY \<equiv> 2"

record arp_header =
  hw_type :: u16
  pro_type :: u16
  hw_size :: u8
  pro_size :: u8
  opcode :: u16

record arp_ipv4 =
  arp_src_mac :: mac
  arp_src_ip :: u32
  arp_dst_mac :: mac
  arp_dst_ip :: u32

abbreviation arp_header_size :: nat where "arp_header_size \<equiv> 8"
abbreviation arp_ipv4_size :: nat where "arp_ipv4_size \<equiv> 20"

definition arp_header_bytes :: "arp_header \<Rightarrow> bytes" where
  "arp_header_bytes h = u16_bytes (hw_type h) @ u16_bytes (pro_type h) @
     [hw_size h] @ [pro_size h] @ u16_bytes (opcode h)"

definition arp_header_of :: "bytes \<Rightarrow> arp_header" where
  "arp_header_of bs = \<lparr> hw_type = u16_of (bs ! 0) (bs ! 1), pro_type = u16_of (bs ! 2) (bs ! 3),
     hw_size = bs ! 4, pro_size = bs ! 5, opcode = u16_of (bs ! 6) (bs ! 7) \<rparr>"

definition arp_ipv4_bytes :: "arp_ipv4 \<Rightarrow> bytes" where
  "arp_ipv4_bytes c = mac_bytes (arp_src_mac c) @ u32_bytes (arp_src_ip c) @
     mac_bytes (arp_dst_mac c) @ u32_bytes (arp_dst_ip c)"

definition arp_ipv4_of :: "bytes \<Rightarrow> arp_ipv4" where
  "arp_ipv4_of bs = \<lparr> arp_src_mac = mac_of bs,
     arp_src_ip = u32_of (bs ! 6) (bs ! 7) (bs ! 8) (bs ! 9),
     arp_dst_mac = mac_of (drop 10 bs),
     arp_dst_ip = u32_of (bs ! 16) (bs ! 17) (bs ! 18) (bs ! 19) \<rparr>"

interpretation arph: packed_struct arp_header_bytes arp_header_of arp_header_size
proof unfold_locales
  fix h :: arp_header and rest
  show "arp_header_of (arp_header_bytes h @ rest) = h"
    by (cases h) (simp add: arp_header_of_def arp_header_bytes_def u16_bytes_def byte_simps)
next
  fix bs :: bytes
  assume len: "length bs = arp_header_size"
  have "arp_header_bytes (arp_header_of bs) =
      slice bs 0 2 @ slice bs 2 2 @ slice bs 4 1 @ slice bs 5 1 @ slice bs 6 2"
    using len u16_slice [of 0 bs] u16_slice [of 2 bs] u16_slice [of 6 bs] u8_slice [of 4 bs] u8_slice [of 5 bs]
    by (simp add: arp_header_bytes_def arp_header_of_def)
  also have "\<dots> = slice bs 0 arp_header_size" by (simp add: slice_join)
  finally show "arp_header_bytes (arp_header_of bs) = bs" using len by (simp add: slice_def)
qed (simp add: arp_header_bytes_def)

interpretation arpc: packed_struct arp_ipv4_bytes arp_ipv4_of arp_ipv4_size
proof unfold_locales
  fix c :: arp_ipv4 and rest
  obtain a i b j where c: "c = \<lparr> arp_src_mac = a, arp_src_ip = i, arp_dst_mac = b, arp_dst_ip = j \<rparr>"
    by (cases c)
  show "arp_ipv4_of (arp_ipv4_bytes c @ rest) = c"
    unfolding c
    by (cases a; cases b) (simp add: arp_ipv4_of_def arp_ipv4_bytes_def mac_of_def u32_bytes_def byte_simps)
next
  fix bs :: bytes
  assume len: "length bs = arp_ipv4_size"
  have "arp_ipv4_bytes (arp_ipv4_of bs) = slice bs 0 6 @ slice bs 6 4 @ slice bs 10 6 @ slice bs 16 4"
    using len mac_slice [of 0 bs] mac_slice [of 10 bs] u32_slice [of 6 bs] u32_slice [of 16 bs]
    by (simp add: arp_ipv4_bytes_def arp_ipv4_of_def)
  also have "\<dots> = slice bs 0 arp_ipv4_size" by (simp add: slice_join)
  finally show "arp_ipv4_bytes (arp_ipv4_of bs) = bs" using len by (simp add: slice_def)
qed (simp add: arp_ipv4_bytes_def)

definition arp_header_fprint :: "arp_header \<Rightarrow> string" where
  "arp_header_fprint h =
     ''ARP header [hw='' @ show_dec (unat (hw_type h)) @ '', hw_size='' @ show_dec (unat (hw_size h)) @
     '', protocol='' @ show_dec (unat (pro_type h)) @ '', protocol_size='' @ show_dec (unat (pro_size h)) @
     '', opcode='' @ show_dec (unat (opcode h)) @ '']''"

definition arp_header_hton :: "arp_header \<Rightarrow> arp_header" where
  "arp_header_hton h =
     h\<lparr> opcode := htons (opcode h), hw_type := htons (hw_type h), pro_type := htons (pro_type h) \<rparr>"

definition arp_header_ntoh :: "arp_header \<Rightarrow> arp_header" where
  "arp_header_ntoh h =
     h\<lparr> opcode := ntohs (opcode h), hw_type := ntohs (hw_type h), pro_type := ntohs (pro_type h) \<rparr>"

section \<open>The cache\<close>

text \<open>
  A key is a pointer to a 64-bit word: the address of a local variable in the lookups, an allocated
  word in the entries.  The pointee of the null pointer is never read.
\<close>

datatype arp_key = NullKey | StackKey u64 | HeapKey u64

instantiation arp_key :: zero
begin

definition zero_arp_key :: arp_key where
  "zero_arp_key = NullKey"

instance ..

end

fun key_word :: "arp_key \<Rightarrow> u64" where
  "key_word NullKey = 0"
| "key_word (StackKey x) = x"
| "key_word (HeapKey x) = x"

definition arp_hash :: "arp_key \<Rightarrow> u64" where
  "arp_hash ptr = key_word ptr"

definition arp_equals :: "arp_key \<Rightarrow> arp_key \<Rightarrow> bool" where
  "arp_equals a b \<longleftrightarrow> key_word a = key_word b"

definition to_key :: "u16 \<Rightarrow> u32 \<Rightarrow> u64" where
  "to_key pro src_ip = push_bit 32 (ucast pro) + ucast src_ip"

text \<open>
  \<open>arp_cells\<close> are the hardware addresses allocated so far; the pointer to the \<open>n\<close>-th of them is
  \<open>n + 1\<close>, and 0 is \<^verbatim>\<open>NULL\<close>.
\<close>

record arp_state = net_state +
  arp_cache :: "(arp_key, nat) hashmap option"
  arp_cells :: "mac list"

abbreviation ARP_CACHE_INITIAL_SIZE :: int where "ARP_CACHE_INITIAL_SIZE \<equiv> 16"

definition is_in_arp_cache :: "'a arp_state_scheme \<Rightarrow> u16 \<Rightarrow> u32 \<Rightarrow> ('a arp_state_scheme, bool) run" where
  "is_in_arp_cache w pro src_ip =
     (case arp_cache w of
        None \<Rightarrow> Inl (AssertFail w)
      | Some m \<Rightarrow> returning w (hashmap_contains_key m (StackKey (to_key pro src_ip))))"

definition set_in_arp_cache ::
  "'a arp_state_scheme \<Rightarrow> u16 \<Rightarrow> u32 \<Rightarrow> mac \<Rightarrow> ('a arp_state_scheme, 'a arp_state_scheme) run" where
  "set_in_arp_cache w pro src_ip src_mac =
     (case arp_cache w of
        None \<Rightarrow> Inl (AssertFail w)
      | Some m \<Rightarrow>
          let key = StackKey (to_key pro src_ip) in
          bind_run (returning w (hashmap_get m key)) (\<lambda>dst_mac.
          if dst_mac = 0 then Inl (AssertFail w)
          else if length (arp_cells w) < dst_mac then Inl (OutOfBounds w)
          else let w = w\<lparr> arp_cells := (arp_cells w)[dst_mac - 1 := src_mac] \<rparr> in
               bind_run (returning w (hashmap_put m key dst_mac)) (\<lambda>m.
               Inr (w\<lparr> arp_cache := Some m \<rparr>))))"

definition add_to_arp_cache ::
  "'a arp_state_scheme \<Rightarrow> u16 \<Rightarrow> u32 \<Rightarrow> mac \<Rightarrow> ('a arp_state_scheme, 'a arp_state_scheme) run" where
  "add_to_arp_cache w pro src_ip src_mac =
     (let dst_key = HeapKey (to_key pro src_ip);
          w = w\<lparr> arp_cells := arp_cells w @ [src_mac] \<rparr>;
          dst_mac = length (arp_cells w)
      in case arp_cache w of
           None \<Rightarrow> Inl (AssertFail w)
         | Some m \<Rightarrow> bind_run (returning w (hashmap_put m dst_key dst_mac)) (\<lambda>m.
                     Inr (w\<lparr> arp_cache := Some m \<rparr>)))"

section \<open>Lifecycle\<close>

definition arp_init :: "'a arp_state_scheme \<Rightarrow> ('a arp_state_scheme, 'a arp_state_scheme) run" where
  "arp_init w = bind_run (returning w (hashmap_alloc ARP_CACHE_INITIAL_SIZE arp_hash arp_equals)) (\<lambda>m.
     Inr (w\<lparr> arp_cache := Some m \<rparr>))"

text \<open>The lines printed for an entry.\<close>

definition cache_line :: "u64 \<Rightarrow> mac \<Rightarrow> io_event list" where
  "cache_line ip_and_pro m =
     LOG_DEBUG ''[ARP] [CACHE] IP='' @ [Stdout (ipv4_fprint (ucast ip_and_pro)), Stdout '' MAC='',
       Stdout (mac_fprint m), Stdout newline]"

text \<open>
  The loop of \<^verbatim>\<open>arp_destroy\<close>: what it prints and the pairs of blocks that it frees, for at most \<open>n\<close>
  rounds.  A call of \<^verbatim>\<open>hashmap_it_next\<close> that stored nothing would leave the pointers of the previous
  round.
\<close>

fun dump_loop ::
  "nat \<Rightarrow> bool option \<Rightarrow> mac list \<Rightarrow> (arp_key, nat) hashmap_iterator
    \<Rightarrow> (nat, io_event list \<times> (arp_key \<times> nat) list) run" where
  "dump_loop 0 oob cells it = Inl (Diverges (it_index it))"
| "dump_loop (Suc n) oob cells it =
     bind_run (hashmap_it_has_next oob it) (\<lambda>(more, it).
     if \<not> more then Inr ([], [])
     else bind_run (hashmap_it_next oob it) (\<lambda>(kv, it).
          case kv of
            None \<Rightarrow> Inl (OutOfBounds (it_index it))
          | Some (key, cell) \<Rightarrow>
              if cell = 0 \<or> length cells < cell then Inl (OutOfBounds (it_index it))
              else bind_run (dump_loop n oob cells it) (\<lambda>(out, freed).
                   Inr (cache_line (key_word key) (cells ! (cell - 1)) @ out, (key, cell) # freed))))"

text \<open>
  The array of the map has \<^verbatim>\<open>capacity\<close> elements, so one round more than that is enough.  The result is the
  pairs and the array that are freed; the pointer \<^verbatim>\<open>arp_cache\<close> keeps its value.
\<close>

definition arp_destroy ::
  "bool option \<Rightarrow> 'a arp_state_scheme
    \<Rightarrow> ('a arp_state_scheme, (arp_key \<times> nat) list \<times> (arp_key, nat) hashmap_element list \<times> 'a arp_state_scheme) run" where
  "arp_destroy oob w =
     (case arp_cache w of
        None \<Rightarrow> Inl (AssertFail w)
      | Some m \<Rightarrow>
          let w = emit (LOG_DEBUG (''[ARP] Dumping cache '' @ show_int (hashmap_size m) @ '' :'' @ newline)) w in
          case dump_loop (hashmap_capacity m + 1) oob (arp_cells w) (hashmap_it_set_map hashmap_it_alloc m) of
            Inl (Diverges i) \<Rightarrow> Inl (Diverges w)
          | Inl e \<Rightarrow> Inl (OutOfBounds w)
          | Inr (out, freed) \<Rightarrow>
              (case free_hashmap (Some m) of
                 None \<Rightarrow> Inl (AssertFail (emit out w))
               | Some array \<Rightarrow> Inr (freed, array, emit out w)))"

section \<open>Reply and reception\<close>

text \<open>
  The receive buffer holds the Ethernet header, the ARP header at offset 14 and the addresses at
  offset 22; the reply is built in place.
\<close>

abbreviation arp_off :: nat where "arp_off \<equiv> 14"
abbreviation arp_data_off :: nat where "arp_data_off \<equiv> 22"
abbreviation arp_end :: nat where "arp_end \<equiv> 42"

definition arp_debug :: "string \<Rightarrow> arp_header \<Rightarrow> io_event list" where
  "arp_debug what h = [Stdout (''[DEBUG] [ARP] '' @ what @ '' ''), Stdout (arp_header_fprint h), Stdout newline]"

definition arp_reply ::
  "'a arp_state_scheme \<Rightarrow> bytes \<Rightarrow> ('a arp_state_scheme, 'a arp_state_scheme \<times> bytes) run" where
  "arp_reply w buf =
     (let content = get_at arp_ipv4_of buf arp_data_off;
          content = content\<lparr> arp_dst_ip := arp_src_ip content \<rparr>;
          content = content\<lparr> arp_dst_mac := arp_src_mac content \<rparr>;
          content = content\<lparr> arp_src_ip := net_interface_get_ip w \<rparr>;
          content = content\<lparr> arp_src_mac := net_interface_get_mac w \<rparr>;
          buf = put_at arp_ipv4_bytes buf arp_data_off content;
          header = (get_at arp_header_of buf arp_off)\<lparr> opcode := ARP_REPLY \<rparr>;
          w = emit (arp_debug ''Replied'' header) w;
          buf = put_at arp_header_bytes buf arp_off (arp_header_hton header)
      in bind_run (net_interface_send w (drop arp_off buf)
                     (of_nat (arp_header_size + arp_ipv4_size)) (Some (arp_dst_mac content)) ETH_P_ARP) (\<lambda>w.
         Inr (w, buf)))"

definition learn_debug :: "u32 \<Rightarrow> mac \<Rightarrow> io_event list" where
  "learn_debug ip m = LOG_DEBUG ''[ARP] [CACHE] Added '' @
     [Stdout (ipv4_fprint ip), Stdout '' matching MAC '', Stdout (mac_fprint m), Stdout (''.'' @ newline)]"

definition arp_receive ::
  "'a arp_state_scheme \<Rightarrow> bytes \<Rightarrow> ('a arp_state_scheme, 'a arp_state_scheme \<times> bytes) run" where
  "arp_receive w buf =
     (if length buf < arp_data_off then Inl (OutOfBounds w)
      else
        let header = arp_header_ntoh (get_at arp_header_of buf arp_off);
            buf = put_at arp_header_bytes buf arp_off header;
            w = emit (arp_debug ''Received'' header) w
        in
        if hw_type header = ARP_ETHERNET \<and> hw_size header = 6 then
          if pro_type header = ARP_IPV4 \<and> pro_size header = 4 then
            if length buf < arp_end then Inl (OutOfBounds w)
            else let content = get_at arp_ipv4_of buf arp_data_off in
            bind_run (is_in_arp_cache w (pro_type header) (arp_src_ip content)) (\<lambda>merge_flag.
            bind_run (if merge_flag
                      then set_in_arp_cache w (pro_type header) (arp_src_ip content) (arp_src_mac content)
                      else Inr w) (\<lambda>w.
            if arp_dst_ip content = net_interface_get_ip w then
              bind_run (if \<not> merge_flag
                        then add_to_arp_cache (emit (learn_debug (arp_src_ip content) (arp_src_mac content)) w)
                               (pro_type header) (arp_src_ip content) (arp_src_mac content)
                        else Inr w) (\<lambda>w.
              if opcode header = ARP_REQUEST then arp_reply w buf
              else if opcode header = ARP_REPLY then Inr (w, buf)
              else Inr (emit (ERROR (''ARP: Unsupported opcode '' @ show_dec (unat (opcode header)) @ newline)) w, buf))
            else Inr (w, buf)))
          else Inr (emit (ERROR (''ARP: Unsupported protocol type '' @ show_dec (unat (pro_type header)) @
                      '' of size '' @ show_dec (unat (pro_size header)) @ newline)) w, buf)
        else Inr (emit (ERROR (''ARP: Unsupported hardware type '' @ show_dec (unat (hw_type header)) @
                    '' of size '' @ show_dec (unat (hw_size header)) @ newline)) w, buf))"

section \<open>Resolution\<close>

text \<open>The request that is broadcast for an unknown address.\<close>

definition arp_request_packet :: "'a arp_state_scheme \<Rightarrow> u32 \<Rightarrow> bytes" where
  "arp_request_packet w ipv4 =
     (let block = replicate (arp_header_size + arp_ipv4_size) 0;
          header = (get_at arp_header_of block 0)
            \<lparr> hw_type := ARP_ETHERNET, hw_size := 6, pro_type := ARP_IPV4, pro_size := 4, opcode := ARP_REQUEST \<rparr>;
          block = put_at arp_header_bytes block 0 (arp_header_hton header);
          content = (get_at arp_ipv4_of block arp_header_size)
            \<lparr> arp_dst_ip := ipv4, arp_dst_mac := BROADCAST,
              arp_src_ip := net_interface_get_ip w, arp_src_mac := net_interface_get_mac w \<rparr>
      in put_at arp_ipv4_bytes block arp_header_size content)"

text \<open>The pointer returned (0 for \<^verbatim>\<open>NULL\<close>) and the state.\<close>

definition arp_resolve_ipv4 ::
  "'a arp_state_scheme \<Rightarrow> u32 \<Rightarrow> ('a arp_state_scheme, nat \<times> 'a arp_state_scheme) run" where
  "arp_resolve_ipv4 w ipv4 =
     bind_run (is_in_arp_cache w ARP_IPV4 ipv4) (\<lambda>known.
     if known then
       (case arp_cache w of
          None \<Rightarrow> Inl (AssertFail w)
        | Some m \<Rightarrow> bind_run (returning w (hashmap_get m (StackKey (to_key ARP_IPV4 ipv4)))) (\<lambda>p. Inr (p, w)))
     else
       let w = emit (LOG_DEBUG ''[ARP] '' @ [Stdout (ipv4_fprint ipv4),
                 Stdout ('' could not be resolved directly... Sending packet.'' @ newline)]) w
       in bind_run (net_interface_broadcast w (arp_request_packet w ipv4)
                      (of_nat (arp_header_size + arp_ipv4_size)) ETH_P_ARP) (\<lambda>w. Inr (0, w)))"

end
