(* ===== verification/Checksum.thy ===== *)
theory Checksum
  imports Net_Prelude
begin

text \<open>
  The Internet checksum of \<^verbatim>\<open>utils/protocols.c\<close> and \<^verbatim>\<open>utils/protocols.h\<close>.  A memory region
  \<^verbatim>\<open>(addr, count)\<close> is the list of its bytes; the 16-bit loads are those of a little-endian host.
  The reference is RFC 1071: the ones' complement sum of the big-endian 16-bit words of the region,
  padded with a zero byte.
\<close>

section \<open>The code\<close>

text \<open>The accumulation loop and the left-over byte; the \<^verbatim>\<open>uint32_t\<close> sum wraps.\<close>

fun sum16_loop :: "bytes \<Rightarrow> u32 \<Rightarrow> u32" where
  "sum16_loop (b0 # b1 # bs) s = sum16_loop bs (s + ucast (u16_of b0 b1))"
| "sum16_loop [b] s = s + ucast b"
| "sum16_loop [] s = s"

lemma unat_fold16_step:
  "unat ((s AND 0xffff) + drop_bit 16 s :: u32) = unat s mod 65536 + unat s div 65536"
proof -
  have "s AND 0xffff = take_bit 16 s"
    by (simp add: take_bit_eq_mask mask_eq_exp_minus_1)
  then have lo: "unat (s AND 0xffff) = unat s mod 65536"
    by (simp only: unsigned_take_bit_eq) (simp add: take_bit_eq_mod)
  have hi: "unat (drop_bit 16 s) = unat s div 65536"
    by (simp only: unat_drop_bit_eq) (simp add: drop_bit_eq_div)
  have "unat s < 4294967296" using unsigned_less [of s, where 'a = nat] by simp
  then have "unat s mod 65536 + unat s div 65536 < 2 ^ 32" by simp
  with lo hi show ?thesis by (simp add: unat_word_ariths)
qed

lemma drop_bit_16_eq_0_iff: "drop_bit 16 (s :: u32) = 0 \<longleftrightarrow> unat s < 65536"
proof -
  have "drop_bit 16 s = 0 \<longleftrightarrow> unat (drop_bit 16 s) = 0"
    by (rule unat_eq_zero [symmetric])
  also have "\<dots> \<longleftrightarrow> unat s div 65536 = 0"
    by (simp only: unat_drop_bit_eq) (simp add: drop_bit_eq_div)
  finally show ?thesis by auto
qed

text \<open>The loop that folds the 32-bit sum to 16 bits; each round makes the sum smaller.\<close>

function fold16 :: "u32 \<Rightarrow> u32" where
  "fold16 s = (if drop_bit 16 s \<noteq> 0 then fold16 ((s AND 0xffff) + drop_bit 16 s) else s)"
  by pat_completeness auto
termination
proof (relation "measure unat", simp)
  fix s :: u32
  assume "drop_bit 16 s \<noteq> 0"
  then have "65536 \<le> unat s" by (simp add: drop_bit_16_eq_0_iff)
  then have "1 \<le> unat s div 65536" by (simp add: div_greater_zero_iff Suc_le_eq)
  then have "unat s mod 65536 + unat s div 65536 < unat s"
    using div_mult_mod_eq [of "unat s" 65536] by linarith
  then show "((s AND 0xffff) + drop_bit 16 s, s) \<in> measure unat"
    by (simp only: in_measure unat_fold16_step)
qed

declare fold16.simps [simp del]

definition sum16 :: "bytes \<Rightarrow> u16" where
  "sum16 bs = ucast (fold16 (sum16_loop bs 0))"

definition internet_checksum :: "bytes \<Rightarrow> u16" where
  "internet_checksum bs = NOT (sum16 bs)"

section \<open>The reference: RFC 1071\<close>

text \<open>Ones' complement addition of 16-bit words: addition with an end-around carry.\<close>

definition oc_add :: "u16 \<Rightarrow> u16 \<Rightarrow> u16" where
  "oc_add a b = (if a + b < a then a + b + 1 else a + b)"

fun net_words :: "bytes \<Rightarrow> u16 list" where
  "net_words (b0 # b1 # bs) = u16_of b1 b0 # net_words bs"
| "net_words [b] = [u16_of 0 b]"
| "net_words [] = []"

definition rfc1071_sum :: "bytes \<Rightarrow> u16" where
  "rfc1071_sum bs = foldr oc_add (net_words bs) 0"

text \<open>The plain sum of the little-endian words, which both sides are compared through.\<close>

fun word_sum :: "bytes \<Rightarrow> nat" where
  "word_sum (b0 # b1 # bs) = unat b0 + 256 * unat b1 + word_sum bs"
| "word_sum [b] = unat b"
| "word_sum [] = 0"

section \<open>Normal forms modulo 65535\<close>

text \<open>\<open>oc_rep r n\<close>: \<open>r\<close> is the 16-bit ones' complement representative of the sum \<open>n\<close>;
  zero only represents zero.\<close>

definition oc_rep :: "nat \<Rightarrow> nat \<Rightarrow> bool" where
  "oc_rep r n \<longleftrightarrow> r \<le> 65535 \<and> (\<exists>k. n = r + 65535 * k) \<and> (r = 0 \<longleftrightarrow> n = 0)"

lemma oc_repI: "r \<le> 65535 \<Longrightarrow> n = r + 65535 * k \<Longrightarrow> (r = 0 \<longleftrightarrow> n = 0) \<Longrightarrow> oc_rep r n"
  unfolding oc_rep_def by blast

lemma oc_repE:
  assumes "oc_rep r n"
  obtains k where "n = r + 65535 * k" and "r \<le> 65535" and "r = 0 \<longleftrightarrow> n = 0"
  using assms unfolding oc_rep_def by blast

lemma oc_rep_unique_aux:
  assumes "r + 65535 * k = r' + 65535 * k'" and "r \<le> 65535" and "r = 0 \<longleftrightarrow> r' = (0 :: nat)"
    and "k < k'"
  shows False
proof -
  obtain d where "k' = k + Suc d" using assms(4) less_iff_Suc_add by auto
  with assms(1) have "r = r' + 65535 * Suc d" by (simp add: algebra_simps)
  with assms(2,3) show False by simp
qed

lemma oc_rep_unique: "oc_rep r n \<Longrightarrow> oc_rep r' n \<Longrightarrow> r = r'"
proof -
  assume a: "oc_rep r n" and b: "oc_rep r' n"
  from a obtain k where k: "n = r + 65535 * k" "r \<le> 65535" "r = 0 \<longleftrightarrow> n = 0" by (rule oc_repE)
  from b obtain l where l: "n = r' + 65535 * l" "r' \<le> 65535" "r' = 0 \<longleftrightarrow> n = 0" by (rule oc_repE)
  have "k = l"
    using oc_rep_unique_aux [of r k r' l] oc_rep_unique_aux [of r' l r k] k l
    by (metis linorder_neqE_nat)
  with k l show ?thesis by simp
qed

lemma oc_rep_max: "oc_rep 65535 n \<longleftrightarrow> (\<exists>k. n = 65535 * Suc k)"
  by (auto simp: oc_rep_def algebra_simps)

lemma oc_rep_add: "oc_rep r n \<Longrightarrow> oc_rep r' (a + r) \<Longrightarrow> oc_rep r' (a + n)"
proof -
  assume A: "oc_rep r n" and B: "oc_rep r' (a + r)"
  from A obtain k where k: "n = r + 65535 * k" "r = 0 \<longleftrightarrow> n = 0" by (rule oc_repE)
  from B obtain l where l: "a + r = r' + 65535 * l" "r' \<le> 65535" "r' = 0 \<longleftrightarrow> a + r = 0"
    by (rule oc_repE)
  show ?thesis
  proof (rule oc_repI [OF l(2)])
    show "a + n = r' + 65535 * (k + l)" using k l by simp
    show "r' = 0 \<longleftrightarrow> a + n = 0" using k l by auto
  qed
qed

text \<open>One round of the fold loop keeps the represented sum.\<close>

lemma oc_rep_fold_step: "oc_rep r (n mod 65536 + n div 65536) \<Longrightarrow> oc_rep r n"
proof -
  assume "oc_rep r (n mod 65536 + n div 65536)"
  then obtain k where k: "n mod 65536 + n div 65536 = r + 65535 * k" "r \<le> 65535"
    "r = 0 \<longleftrightarrow> n mod 65536 + n div 65536 = 0" by (rule oc_repE)
  have n: "n div 65536 * 65536 + n mod 65536 = n" by (rule div_mult_mod_eq)
  show ?thesis
  proof (rule oc_repI [OF k(2)])
    show "n = r + 65535 * (k + n div 65536)" using k(1) n by (simp only: distrib_left)
    have "n mod 65536 + n div 65536 = 0 \<longleftrightarrow> n = 0"
      using n by (metis add_is_0 mult_is_0 div_0 mod_0)
    then show "r = 0 \<longleftrightarrow> n = 0" by (simp only: k(3))
  qed
qed

lemma unat_ucast_u8 [simp]: "unat (ucast (b :: u8) :: u32) = unat b"
  using unsigned_less [of b, where 'a = nat] by (simp add: unsigned_ucast_eq take_bit_eq_mod)

lemma unat_ucast_u16 [simp]: "unat (ucast (w :: u16) :: u32) = unat w"
  using unsigned_less [of w, where 'a = nat] by (simp add: unsigned_ucast_eq take_bit_eq_mod)

lemma unat_u8_bound: "unat (b :: u8) \<le> 255"
  using unsigned_less [of b, where 'a = nat] by simp

lemma unat_u16_bound: "unat (w :: u16) \<le> 65535"
  using unsigned_less [of w, where 'a = nat] by simp

lemma oc_rep_fold16: "oc_rep (unat (fold16 s)) (unat s)"
proof (induction s rule: fold16.induct)
  case (1 s)
  show ?case
  proof (cases "drop_bit 16 s \<noteq> 0")
    case True
    let ?t = "(s AND 0xffff) + drop_bit 16 s"
    have "oc_rep (unat (fold16 ?t)) (unat s mod 65536 + unat s div 65536)"
      using "1.IH" True by (simp only: unat_fold16_step [symmetric]) blast
    then have "oc_rep (unat (fold16 ?t)) (unat s)" by (rule oc_rep_fold_step)
    with True show ?thesis by (simp only: fold16.simps [of s]) simp
  next
    case False
    then show ?thesis
      by (simp add: oc_rep_def fold16.simps [of s] drop_bit_16_eq_0_iff)
  qed
qed

lemma word_sum_bound: "word_sum bs \<le> 65535 * ((length bs + 1) div 2)"
proof (induction bs rule: word_sum.induct)
  case (1 b0 b1 bs)
  then show ?case using unat_u8_bound [of b0] unat_u8_bound [of b1] by simp
next
  case (2 b)
  show ?case using unat_u8_bound [of b] by simp
qed simp

lemma unat_sum16_loop:
  "unat s + word_sum bs < 2 ^ 32 \<Longrightarrow> unat (sum16_loop bs s) = unat s + word_sum bs"
proof (induction bs s rule: sum16_loop.induct)
  case (1 b0 b1 bs s)
  have "unat (s + ucast (u16_of b0 b1)) = unat s + (unat b0 + 256 * unat b1)"
    using "1.prems" by (simp add: unat_word_ariths unat_u16_of)
  with 1 show ?case by simp
next
  case (2 b s)
  then show ?case by (simp add: unat_word_ariths)
qed simp

text \<open>131074 bytes are 65537 words of at most 65535 each, which still sum below \<open>2 ^ 32\<close>.\<close>

lemma oc_rep_sum16:
  assumes "length bs \<le> 131074"
  shows "oc_rep (unat (sum16 bs)) (word_sum bs)"
proof -
  have "word_sum bs \<le> 65535 * 65537"
    using word_sum_bound [of bs] assms by (auto intro: order_trans)
  then have "unat (sum16_loop bs 0) = word_sum bs"
    by (simp add: unat_sum16_loop)
  then have rep: "oc_rep (unat (fold16 (sum16_loop bs 0))) (word_sum bs)"
    using oc_rep_fold16 [of "sum16_loop bs 0"] by simp
  then have "unat (fold16 (sum16_loop bs 0)) \<le> 65535" by (simp add: oc_rep_def)
  then have "unat (sum16 bs) = unat (fold16 (sum16_loop bs 0))"
    by (simp add: sum16_def unsigned_ucast_eq take_bit_eq_mod)
  with rep show ?thesis by simp
qed

section \<open>Agreement with the reference\<close>

lemma oc_rep_oc_add: "oc_rep (unat (oc_add a b)) (unat a + unat b)"
proof (cases "unat a + unat b < 65536")
  case True
  then have "unat (a + b) = unat a + unat b" by (simp add: unat_word_ariths)
  moreover from this have "\<not> a + b < a" by (simp add: word_less_nat_alt)
  ultimately show ?thesis using True by (simp add: oc_add_def oc_rep_def del: unat_eq_zero)
next
  case False
  obtain d where d: "unat a + unat b = d + 65536"
    using False by (metis add.commute le_Suc_ex not_less)
  have le: "d \<le> 65534" "d < unat a"
    using d unat_u16_bound [of a] unat_u16_bound [of b] by linarith+
  have "unat (a + b) = d" and "unat (a + b + 1) = Suc d"
    using d le by (simp_all add: unat_word_ariths)
  then show ?thesis using d le by (auto simp: oc_add_def oc_rep_def word_less_nat_alt)
qed

lemma oc_rep_foldr: "oc_rep (unat (foldr oc_add ws 0)) (sum_list (map unat ws))"
proof (induction ws)
  case Nil
  then show ?case by (simp add: oc_rep_def)
next
  case (Cons w ws)
  then show ?case using oc_rep_add [OF Cons oc_rep_oc_add] by simp
qed

text \<open>Swapping the bytes of every word multiplies the sum by 256 modulo 65535.\<close>

lemma net_words_sum:
  "\<exists>k. 256 * word_sum bs = sum_list (map unat (net_words bs)) + 65535 * k"
proof (induction bs rule: net_words.induct)
  case (1 b0 b1 bs)
  then obtain k where k: "256 * word_sum bs = sum_list (map unat (net_words bs)) + 65535 * k" ..
  show ?case
    by (rule exI [of _ "k + unat b1"]) (use k in \<open>simp add: unat_u16_of algebra_simps\<close>)
qed (simp_all add: unat_u16_of)

lemma net_words_sum_0: "sum_list (map unat (net_words bs)) = 0 \<longleftrightarrow> word_sum bs = 0"
  by (induction bs rule: net_words.induct) (auto simp: unat_u16_of)

lemma unat_htons: "\<exists>k. 256 * unat w = unat (htons w) + 65535 * k"
proof -
  obtain b0 b1 where w: "w = u16_of b0 b1" by (metis u16_of_bytes)
  show ?thesis
    by (rule exI [of _ "unat b1"]) (simp add: w byte_simps unat_u16_of algebra_simps)
qed

lemma unat_htons_0: "unat (htons w) = 0 \<longleftrightarrow> unat w = 0"
proof -
  obtain b0 b1 where w: "w = u16_of b0 b1" by (metis u16_of_bytes)
  show ?thesis by (auto simp: w byte_simps unat_u16_of simp del: unat_eq_zero)
qed

lemma oc_rep_weaken:
  assumes "r \<le> 65535" and "r + 65535 * k = n + 65535 * l" and "r = 0 \<longleftrightarrow> n = 0"
  shows "oc_rep r n"
proof (cases "k \<le> l")
  case True
  then obtain d where "l = k + d" using le_Suc_ex by blast
  with assms(2) have "r = n + 65535 * d" by (simp add: algebra_simps)
  with assms(1,3) show ?thesis by (cases d) (auto simp: oc_rep_def)
next
  case False
  then obtain d where "k = l + d" using le_Suc_ex nat_le_linear by blast
  with assms(2) have "n = r + 65535 * d" by (simp add: algebra_simps)
  with assms(1,3) show ?thesis by (auto simp: oc_rep_def)
qed

lemma oc_rep_htons:
  assumes "oc_rep (unat (sum16 bs)) (word_sum bs)"
  shows "oc_rep (unat (htons (sum16 bs))) (sum_list (map unat (net_words bs)))"
proof -
  obtain k where "word_sum bs = unat (sum16 bs) + 65535 * k" using assms by (auto simp: oc_rep_def)
  moreover obtain l where "256 * word_sum bs = sum_list (map unat (net_words bs)) + 65535 * l"
    using net_words_sum by blast
  moreover obtain m where "256 * unat (sum16 bs) = unat (htons (sum16 bs)) + 65535 * m"
    using unat_htons by blast
  ultimately have "unat (htons (sum16 bs)) + 65535 * (m + 256 * k)
      = sum_list (map unat (net_words bs)) + 65535 * l"
    by (simp add: algebra_simps)
  moreover have "unat (htons (sum16 bs)) = 0 \<longleftrightarrow> sum_list (map unat (net_words bs)) = 0"
    using assms by (simp only: unat_htons_0 net_words_sum_0) (simp add: oc_rep_def)
  ultimately show ?thesis by (rule oc_rep_weaken [OF unat_u16_bound])
qed

lemma sum16_rfc1071: "length bs \<le> 131074 \<Longrightarrow> htons (sum16 bs) = rfc1071_sum bs"
proof -
  assume len: "length bs \<le> 131074"
  let ?m = "sum_list (map unat (net_words bs))"
  have "oc_rep (unat (htons (sum16 bs))) ?m"
    by (rule oc_rep_htons [OF oc_rep_sum16 [OF len]])
  moreover have "oc_rep (unat (rfc1071_sum bs)) ?m"
    unfolding rfc1071_sum_def by (rule oc_rep_foldr)
  ultimately show ?thesis by (metis oc_rep_unique word_unat_eq_iff)
qed

section \<open>Filling in and verifying a checksum\<close>

lemma word_sum_append:
  "even (length xs) \<Longrightarrow> word_sum (xs @ ys) = word_sum xs + word_sum ys"
  by (induction xs rule: word_sum.induct) auto

lemma word_sum_u16_bytes [simp]: "word_sum (u16_bytes w) = unat w"
  by (metis add.right_neutral byte_simps(1) u16_bytes_def unat_u16_of word_sum.simps(1,3))

lemma unat_not_u16: "unat (NOT w :: u16) = 65535 - unat w"
proof -
  have "NOT w = (- 1) - w" by (simp add: not_eq_complement)
  moreover have "w \<le> (- 1)" by simp
  ultimately have "unat (NOT w) = unat (- 1 :: u16) - unat w"
    by (simp only: unat_sub)
  moreover have "unat (- 1 :: u16) = 65535" by (simp add: unsigned_minus_1_eq_mask mask_eq_exp_minus_1)
  ultimately show ?thesis by (simp only:)
qed

lemma checksum_zero_iff:
  assumes "length bs \<le> 131074"
  shows "internet_checksum bs = 0 \<longleftrightarrow> (\<exists>k. word_sum bs = 65535 * Suc k)"
proof -
  have rep: "oc_rep (unat (sum16 bs)) (word_sum bs)" using assms by (rule oc_rep_sum16)
  have "internet_checksum bs = 0 \<longleftrightarrow> unat (NOT (sum16 bs)) = 0"
    by (simp only: internet_checksum_def unat_eq_zero)
  also have "\<dots> \<longleftrightarrow> unat (sum16 bs) = 65535"
    using unat_u16_bound [of "sum16 bs"] by (simp only: unat_not_u16) linarith
  also have "\<dots> \<longleftrightarrow> oc_rep 65535 (word_sum bs)"
    using rep by (metis oc_rep_unique)
  finally show ?thesis by (simp only: oc_rep_max)
qed

text \<open>
  The region \<open>xs @ [c0, c1] @ ys\<close> with its 16-bit checksum field at an even offset: computed over
  the zeroed field and stored in it, the checksum verifies.
\<close>

lemma checksum_fill_verifies:
  assumes "even (length xs)" and "length xs + length ys \<le> 131072"
  shows "internet_checksum
           (xs @ u16_bytes (internet_checksum (xs @ u16_bytes 0 @ ys)) @ ys) = 0"
proof -
  let ?z = "xs @ u16_bytes 0 @ ys"
  let ?S = "word_sum xs + word_sum ys"
  have S: "word_sum (xs @ u16_bytes c @ ys) = ?S + unat c" for c
    using assms(1) by (simp add: word_sum_append)
  have "oc_rep (unat (sum16 ?z)) ?S"
    using oc_rep_sum16 [of ?z] assms(2) S [of 0] by simp
  then obtain k where k: "?S = unat (sum16 ?z) + 65535 * k" by (auto simp: oc_rep_def)
  have "unat (internet_checksum ?z) = 65535 - unat (sum16 ?z)"
    by (simp only: internet_checksum_def unat_not_u16)
  then have "?S + unat (internet_checksum ?z) = 65535 * Suc k"
    using k unat_u16_bound [of "sum16 ?z"] by simp
  then show ?thesis
    using assms(2) by (subst checksum_zero_iff) (auto simp: S)
qed

text \<open>A region that verifies no longer does once a single byte of it is changed.\<close>

lemma word_sum_update:
  assumes "i < length bs"
  shows "int (word_sum (bs[i := b])) =
    int (word_sum bs) + (if even i then 1 else 256) * (int (unat b) - int (unat (bs ! i)))"
  using assms
proof (induction bs arbitrary: i rule: word_sum.induct)
  case (1 b0 b1 bs)
  consider "i = 0" | "i = 1" | j where "i = Suc (Suc j)" "j < length bs"
    using "1.prems" by (metis One_nat_def Suc_less_eq length_Cons not0_implies_Suc)
  then show ?case
    using "1.IH" by cases auto
qed auto

lemma small_multiple:
  fixes d m :: int
  assumes "- 255 \<le> d" and "d \<le> 255" and "d = 65535 * m \<or> 256 * d = 65535 * m"
  shows "d = 0"
proof -
  have "- 65280 \<le> 65535 * m" and "65535 * m \<le> 65280" using assms by linarith+
  then have "- 1 < m" and "m < 1" by linarith+
  then have "m = 0" by linarith
  with assms(3) show ?thesis by simp
qed

lemma checksum_detects_byte:
  assumes len: "length bs \<le> 131074" and i: "i < length bs" and b: "b \<noteq> bs ! i"
    and ok: "internet_checksum bs = 0"
  shows "internet_checksum (bs[i := b]) \<noteq> 0"
proof
  assume "internet_checksum (bs[i := b]) = 0"
  then obtain k l where "word_sum (bs[i := b]) = 65535 * Suc k" and "word_sum bs = 65535 * Suc l"
    using len ok by (auto simp: checksum_zero_iff)
  then have kl: "int (word_sum (bs[i := b])) - int (word_sum bs) = 65535 * (int k - int l)"
    by simp
  define d where "d = int (unat b) - int (unat (bs ! i))"
  have "unat b \<noteq> unat (bs ! i)" using b by (metis word_unat_eq_iff)
  then have d: "d \<noteq> 0" "- 255 \<le> d" "d \<le> 255"
    using unat_u8_bound [of b] unat_u8_bound [of "bs ! i"] unfolding d_def by linarith+
  have "(if even i then 1 else 256) * d = 65535 * (int k - int l)"
    using kl word_sum_update [OF i, of b] by (simp only: d_def)
  then have "d = 65535 * (int k - int l) \<or> 256 * d = 65535 * (int k - int l)"
    by (cases "even i") (simp_all only: if_True if_False mult_1 simp_thms)
  then show False
    using d(1) small_multiple [OF d(2,3), of "int k - int l"] by blast
qed


section \<open>Properties\<close>

text \<open>
  C14. \<^verbatim>\<open>sum16\<close> computes the RFC 1071 ones' complement sum: for a region of at most 131074 bytes, of
  even or odd length, its result read in network byte order is the end-around-carry sum of the
  big-endian words of the region, although the code adds host-order words into 32 bits and folds
  the carries once at the end.
\<close>

theorem sum16_is_rfc1071:
  assumes "length bs \<le> 131074"
  shows "ntohs (sum16 bs) = rfc1071_sum bs"
  using sum16_rfc1071 [OF assms] by simp

theorem sum16_is_rfc1071_witness:
  "ntohs (sum16 [0x00, 0x01, 0xf2, 0x03, 0xf4, 0xf5, 0xf6, 0xf7]) = 0xddf2"
proof -
  have "rfc1071_sum [0x00, 0x01, 0xf2, 0x03, 0xf4, 0xf5, 0xf6, 0xf7] = 0xddf2" by code_simp
  then show ?thesis
    using sum16_is_rfc1071 [of "[0x00, 0x01, 0xf2, 0x03, 0xf4, 0xf5, 0xf6, 0xf7]"] by simp
qed

text \<open>
  C15. A checksum stored over its zeroed field verifies: with the 16-bit field at an even offset of
  the region, \<^verbatim>\<open>internet_checksum\<close> of the region with the field filled in is 0.
\<close>

theorem internet_checksum_verifies:
  assumes "even (length xs)" and "length xs + length ys \<le> 131072"
  shows "internet_checksum
    (xs @ u16_bytes (internet_checksum (xs @ u16_bytes 0 @ ys)) @ ys) = 0"
  by (rule checksum_fill_verifies [OF assms])

theorem internet_checksum_verifies_witness:
  "internet_checksum ([8, 0] @ u16_bytes (internet_checksum ([8, 0] @ u16_bytes 0 @ [1, 2, 3]))
     @ [1, 2, 3]) = 0"
  by (rule internet_checksum_verifies) simp_all

text \<open>
  C16. Every change of a single byte is detected: a region of at most 131074 bytes that verifies does
  not verify after one of its bytes is replaced by a different one.
\<close>

theorem internet_checksum_detects_byte_error:
  assumes "length bs \<le> 131074" and "i < length bs" and "b \<noteq> bs ! i"
    and "internet_checksum bs = 0"
  shows "internet_checksum (bs[i := b]) \<noteq> 0"
  by (rule checksum_detects_byte [OF assms])

theorem internet_checksum_detects_byte_error_witness:
  "internet_checksum [0x12, 0x34, 0xed, 0xcb] = 0 \<and>
   internet_checksum ([0x12, 0x34, 0xed, 0xcb][1 := 0x35]) \<noteq> 0"
proof -
  have "internet_checksum [0x12, 0x34, 0xed, 0xcb] = 0" by code_simp
  then show ?thesis
    using internet_checksum_detects_byte_error [of "[0x12, 0x34, 0xed, 0xcb]" 1 "0x35"] by simp
qed

end
