(* ===== verification/Ip.thy ===== *)
theory Ip
  imports Arp Checksum
begin

text \<open>
  The IPv4 header of \<^verbatim>\<open>protocols/ip.h\<close> and the sending side of \<^verbatim>\<open>protocols/ip.c\<close>.  Reception is in
  \<open>Ip_Receive\<close>, after the protocols it hands packets to.
\<close>

section \<open>The header\<close>

abbreviation PROTOCOL_ICMP :: u8 where "PROTOCOL_ICMP \<equiv> 1"
abbreviation PROTOCOL_TCP :: u8 where "PROTOCOL_TCP \<equiv> 6"
abbreviation PROTOCOL_UDP :: u8 where "PROTOCOL_UDP \<equiv> 16"

record ip_header =
  version_and_header_len :: u8
  service_type :: u8
  ip_len :: u16
  ip_index :: u16
  flags_and_fragment_offset :: u16
  ttl :: u8
  protocol :: u8
  ip_checksum :: u16
  src_addr :: u32
  dst_addr :: u32

abbreviation ip_size :: nat where "ip_size \<equiv> 20"

text \<open>The image, with the checksum field singled out.\<close>

definition ip_bytes_before :: "ip_header \<Rightarrow> bytes" where
  "ip_bytes_before h = [version_and_header_len h] @ [service_type h] @ u16_bytes (ip_len h) @
     u16_bytes (ip_index h) @ u16_bytes (flags_and_fragment_offset h) @ [ttl h] @ [protocol h]"

definition ip_bytes_after :: "ip_header \<Rightarrow> bytes" where
  "ip_bytes_after h = u32_bytes (src_addr h) @ u32_bytes (dst_addr h)"

definition ip_bytes :: "ip_header \<Rightarrow> bytes" where
  "ip_bytes h = ip_bytes_before h @ u16_bytes (ip_checksum h) @ ip_bytes_after h"

definition ip_of :: "bytes \<Rightarrow> ip_header" where
  "ip_of bs = \<lparr> version_and_header_len = bs ! 0, service_type = bs ! 1,
     ip_len = u16_of (bs ! 2) (bs ! 3), ip_index = u16_of (bs ! 4) (bs ! 5),
     flags_and_fragment_offset = u16_of (bs ! 6) (bs ! 7), ttl = bs ! 8, protocol = bs ! 9,
     ip_checksum = u16_of (bs ! 10) (bs ! 11),
     src_addr = u32_of (bs ! 12) (bs ! 13) (bs ! 14) (bs ! 15),
     dst_addr = u32_of (bs ! 16) (bs ! 17) (bs ! 18) (bs ! 19) \<rparr>"

lemma length_ip_bytes_parts [simp]:
  "length (ip_bytes_before h) = 10" "length (ip_bytes_after h) = 8"
  by (simp_all add: ip_bytes_before_def ip_bytes_after_def)

interpretation iph: packed_struct ip_bytes ip_of ip_size
proof unfold_locales
  fix h :: ip_header and rest
  show "ip_of (ip_bytes h @ rest) = h"
    by (cases h) (simp add: ip_of_def ip_bytes_def ip_bytes_before_def ip_bytes_after_def
        u16_bytes_def u32_bytes_def byte_simps)
next
  fix bs :: bytes
  assume len: "length bs = ip_size"
  have "ip_bytes (ip_of bs) = slice bs 0 1 @ slice bs 1 1 @ slice bs 2 2 @ slice bs 4 2 @ slice bs 6 2 @
      slice bs 8 1 @ slice bs 9 1 @ slice bs 10 2 @ slice bs 12 4 @ slice bs 16 4"
    using len u8_slice [of 0 bs] u8_slice [of 1 bs] u16_slice [of 2 bs] u16_slice [of 4 bs] u16_slice [of 6 bs]
      u8_slice [of 8 bs] u8_slice [of 9 bs] u16_slice [of 10 bs] u32_slice [of 12 bs] u32_slice [of 16 bs]
    by (simp add: ip_bytes_def ip_bytes_before_def ip_bytes_after_def ip_of_def)
  also have "\<dots> = slice bs 0 ip_size" by (simp add: slice_join)
  finally show "ip_bytes (ip_of bs) = bs" using len by (simp add: slice_def)
qed (simp add: ip_bytes_def)

text \<open>The getter and setter macros.  The payload length is computed at the width of \<^verbatim>\<open>size_t\<close>.\<close>

definition ip_header_get_version :: "ip_header \<Rightarrow> u8" where
  "ip_header_get_version h = drop_bit 4 (version_and_header_len h) AND 0xf"

definition ip_header_get_header_length :: "ip_header \<Rightarrow> u8" where
  "ip_header_get_header_length h = version_and_header_len h AND 0xf"

definition ip_header_get_payload_length :: "ip_header \<Rightarrow> u64" where
  "ip_header_get_payload_length h = ucast (ip_len h) - of_nat ip_size"

definition ip_header_set_version :: "u8 \<Rightarrow> ip_header \<Rightarrow> ip_header" where
  "ip_header_set_version version h =
     h\<lparr> version_and_header_len := push_bit 4 version + ip_header_get_header_length h \<rparr>"

definition ip_header_set_header_length :: "u8 \<Rightarrow> ip_header \<Rightarrow> ip_header" where
  "ip_header_set_header_length ihl h =
     h\<lparr> version_and_header_len := push_bit 4 (ip_header_get_version h) + ihl \<rparr>"

section \<open>Checksum, allocation, conversion, printing\<close>

definition ip_header_update_checksum :: "ip_header \<Rightarrow> ip_header" where
  "ip_header_update_checksum h =
     (let h = h\<lparr> ip_checksum := 0 \<rparr> in h\<lparr> ip_checksum := internet_checksum (ip_bytes h) \<rparr>)"

definition ip_header_check :: "ip_header \<Rightarrow> bool" where
  "ip_header_check h \<longleftrightarrow> 0 = internet_checksum (ip_bytes h)"

text \<open>The allocated block: the header and \<open>len\<close> zero bytes.\<close>

definition ip_header_alloc :: "u16 \<Rightarrow> bytes" where
  "ip_header_alloc len =
     (let block = replicate (ip_size + unat len) 0;
          h = (get_at ip_of block 0)\<lparr> version_and_header_len := push_bit 4 4 + 5, service_type := 0,
                ip_len := of_nat ip_size + len, ip_index := 7, flags_and_fragment_offset := 0, ttl := 64,
                protocol := 0, ip_checksum := 0, src_addr := 0, dst_addr := 0 \<rparr>;
          h = h\<lparr> ip_checksum := internet_checksum (ip_bytes h) \<rparr>
      in put_at ip_bytes block 0 h)"

definition ip_header_fprint :: "ip_header \<Rightarrow> string" where
  "ip_header_fprint h =
     ''IP header [version='' @ show_dec (unat (ip_header_get_version h)) @
     '', header_length='' @ show_dec (unat (ip_header_get_header_length h)) @
     '', tos='' @ show_dec (unat (service_type h)) @
     '', length='' @ show_dec (unat (ip_header_get_payload_length h)) @ ''('' @ show_dec (unat (ip_len h)) @
     ''), index='' @ show_dec (unat (ip_index h)) @
     '', flags='' @ show_dec (unat (drop_bit 12 (flags_and_fragment_offset h) AND 0xf)) @
     '', fragment_offset='' @ show_dec (unat (flags_and_fragment_offset h AND 0xfff)) @
     '', ttl='' @ show_dec (unat (ttl h)) @ '', protocol='' @ show_dec (unat (protocol h)) @
     '', checksum='' @ show_dec (unat (ip_checksum h)) @ '', src='' @ ipv4_fprint (src_addr h) @
     '', dst='' @ ipv4_fprint (dst_addr h) @ '']''"

definition ip_header_ntoh :: "ip_header \<Rightarrow> ip_header" where
  "ip_header_ntoh h =
     h\<lparr> src_addr := ntohl (src_addr h), dst_addr := ntohl (dst_addr h), ip_len := ntohs (ip_len h) \<rparr>"

definition ip_header_hton :: "ip_header \<Rightarrow> ip_header" where
  "ip_header_hton h =
     h\<lparr> src_addr := htonl (src_addr h), dst_addr := htonl (dst_addr h), ip_len := htons (ip_len h) \<rparr>"

section \<open>Sending\<close>

text \<open>The hardware address a pointer returned by \<^verbatim>\<open>arp_resolve_ipv4\<close> points to.\<close>

definition deref_mac :: "'a arp_state_scheme \<Rightarrow> nat \<Rightarrow> mac option" where
  "deref_mac w p = (if 0 < p \<and> p \<le> length (arp_cells w) then Some (arp_cells w ! (p - 1)) else None)"

text \<open>
  The header is at offset \<open>off\<close> of a block; it is converted and completed in place and sent with
  what follows it.
\<close>

definition ip_send_packet ::
  "'a arp_state_scheme \<Rightarrow> bytes \<Rightarrow> nat \<Rightarrow> ('a arp_state_scheme, 'a arp_state_scheme \<times> bytes) run" where
  "ip_send_packet w buf off =
     (if length buf < off + ip_size then Inl (OutOfBounds w)
      else
        let header = get_at ip_of buf off;
            net_dst_addr = htonl (dst_addr header);
            real_len = ucast (ip_len header) :: u32
        in bind_run (arp_resolve_ipv4 w net_dst_addr) (\<lambda>(dst_mac, w).
           if dst_mac = 0 then
             Inl (Exit 1 (emit (ERROR ''IPv4: Could not resolve MAC address for '' @
               [Stderr (ipv4_fprint (dst_addr header)), Stdout newline]) w))
           else
             let header = ip_header_hton header;
                 header = ip_header_update_checksum header;
                 buf = put_at ip_bytes buf off header
             in case deref_mac w dst_mac of
                  None \<Rightarrow> Inl (OutOfBounds w)
                | Some mac \<Rightarrow> bind_run (net_interface_send w (drop off buf) real_len (Some mac) ETH_P_IP) (\<lambda>w.
                             Inr (w, buf))))"

text \<open>
  \<open>payload\<close> is the memory from the pointer argument on, \<open>None\<close> for \<^verbatim>\<open>NULL\<close>.  The length is cut to 16
  bits for the allocation and used in full for the copy.
\<close>

definition ip_send ::
  "'a arp_state_scheme \<Rightarrow> u32 \<Rightarrow> bytes option \<Rightarrow> u32 \<Rightarrow> u32 \<Rightarrow> ('a arp_state_scheme, 'a arp_state_scheme) run" where
  "ip_send w dst payload len proto =
     (case payload of
        None \<Rightarrow> Inl (AssertFail w)
      | Some payload \<Rightarrow>
          let block = ip_header_alloc (ucast len);
              h = (get_at ip_of block 0)\<lparr> protocol := ucast proto, src_addr := ntohl (net_interface_get_ip w),
                    dst_addr := dst \<rparr>;
              block = put_at ip_bytes block 0 h
          in if length block < ip_size + unat len \<or> length payload < unat len then Inl (OutOfBounds w)
             else bind_run (ip_send_packet w (patch block ip_size (take (unat len) payload)) 0) (\<lambda>(w, block).
                  Inr w))"

end
