(* ===== verification/Icmp.thy ===== *)
theory Icmp
  imports Ip
begin

text \<open>
  \<^verbatim>\<open>protocols/icmp.c\<close>: the ICMP header, its check, and the answer to echo requests.  \<^verbatim>\<open>DEBUG\<close> is 0 in
  that file, so only the error messages are printed.
\<close>

abbreviation ICMP_ECHO_REPLY :: u8 where "ICMP_ECHO_REPLY \<equiv> 0"
abbreviation ICMP_ECHO_REQUEST :: u8 where "ICMP_ECHO_REQUEST \<equiv> 8"
abbreviation ICMP_DESTINATION_UNREACHABLE :: u8 where "ICMP_DESTINATION_UNREACHABLE \<equiv> 3"

record icmp_v4 =
  icmp_type :: u8
  icmp_code :: u8
  icmp_checksum :: u16

abbreviation icmp_size :: nat where "icmp_size \<equiv> 4"

definition icmp_bytes :: "icmp_v4 \<Rightarrow> bytes" where
  "icmp_bytes h = [icmp_type h] @ [icmp_code h] @ u16_bytes (icmp_checksum h)"

definition icmp_of :: "bytes \<Rightarrow> icmp_v4" where
  "icmp_of bs = \<lparr> icmp_type = bs ! 0, icmp_code = bs ! 1, icmp_checksum = u16_of (bs ! 2) (bs ! 3) \<rparr>"

interpretation icmph: packed_struct icmp_bytes icmp_of icmp_size
proof unfold_locales
  fix h :: icmp_v4 and rest
  show "icmp_of (icmp_bytes h @ rest) = h"
    by (cases h) (simp add: icmp_of_def icmp_bytes_def u16_bytes_def byte_simps)
next
  fix bs :: bytes
  assume len: "length bs = icmp_size"
  have "icmp_bytes (icmp_of bs) = slice bs 0 1 @ slice bs 1 1 @ slice bs 2 2"
    using len u8_slice [of 0 bs] u8_slice [of 1 bs] u16_slice [of 2 bs]
    by (simp add: icmp_bytes_def icmp_of_def)
  also have "\<dots> = slice bs 0 icmp_size" by (simp add: slice_join numeral_eq_Suc)
  finally show "icmp_bytes (icmp_of bs) = bs" using len by (simp add: slice_def)
qed (simp add: icmp_bytes_def)

text \<open>The structs of the messages with further fields.\<close>

record icmp_v4_echo =
  echo_id :: u16
  echo_seq :: u16

record icmp_v4_dst_unreachable =
  du_unused :: u8
  du_len :: u8
  du_var :: u16

definition icmp_fprint :: "icmp_v4 \<Rightarrow> u32 \<Rightarrow> string" where
  "icmp_fprint h len =
     ''ICMPv4 header [type='' @ show_dec (unat (icmp_type h)) @ '', code='' @ show_dec (unat (icmp_code h)) @
     '', checksum='' @ show_dec (unat (icmp_checksum h)) @
     '', length='' @ show_dec (unat (ucast len - of_nat icmp_size :: u64)) @ ''('' @ show_dec (unat len) @ '')]''"

text \<open>The header is at offset 14 of the receive buffer, in host byte order; the message is at 34.\<close>

abbreviation ip_off :: nat where "ip_off \<equiv> 14"
abbreviation ip_data_off :: nat where "ip_data_off \<equiv> 34"

text \<open>The checksum of a message of \<open>len\<close> bytes, \<open>None\<close> when it is read past the buffer.\<close>

definition icmp_check :: "bytes \<Rightarrow> u32 \<Rightarrow> bool option" where
  "icmp_check buf len =
     (if length buf < ip_data_off + unat len then None
      else Some (0 = internet_checksum (slice buf ip_data_off (unat len))))"

definition receive_echo_request ::
  "'a arp_state_scheme \<Rightarrow> bytes \<Rightarrow> ('a arp_state_scheme, 'a arp_state_scheme \<times> bytes) run" where
  "receive_echo_request w buf =
     (if length buf < ip_data_off + icmp_size then Inl (OutOfBounds w)
      else
      let ip_header = get_at ip_of buf ip_off;
          len = ucast (ip_header_get_payload_length ip_header) :: u32;
          header = (get_at icmp_of buf ip_data_off)\<lparr> icmp_type := ICMP_ECHO_REPLY, icmp_checksum := 0 \<rparr>;
          buf = put_at icmp_bytes buf ip_data_off header
      in if length buf < ip_data_off + unat len then Inl (OutOfBounds w)
         else let header = header\<lparr> icmp_checksum := internet_checksum (slice buf ip_data_off (unat len)) \<rparr>;
                  buf = put_at icmp_bytes buf ip_data_off header;
                  ip_header = ip_header\<lparr> dst_addr := src_addr ip_header,
                                src_addr := ntohl (net_interface_get_ip w) \<rparr>;
                  buf = put_at ip_bytes buf ip_off ip_header
              in ip_send_packet w buf ip_off)"

definition icmp_receive ::
  "'a arp_state_scheme \<Rightarrow> bytes \<Rightarrow> ('a arp_state_scheme, 'a arp_state_scheme \<times> bytes) run" where
  "icmp_receive w buf =
     (if length buf < ip_data_off then Inl (OutOfBounds w)
      else case icmp_check buf (ucast (ip_header_get_payload_length (get_at ip_of buf ip_off))) of
        None \<Rightarrow> Inl (OutOfBounds w)
      | Some ok \<Rightarrow>
          if \<not> ok then Inr (emit (ERROR (''ICMPv4: Invalid packet checksum'' @ newline)) w, buf)
          else if length buf \<le> ip_data_off then Inl (OutOfBounds w)
          else let t = icmp_type (get_at icmp_of buf ip_data_off) in
               if t = ICMP_ECHO_REPLY
               then Inr (emit (ERROR (''ICMPv4: Unsupported message type: ECHO reply'' @ newline)) w, buf)
               else if t = ICMP_ECHO_REQUEST then receive_echo_request w buf
               else if t = ICMP_DESTINATION_UNREACHABLE
               then Inr (emit (ERROR (''ICMPv4: Unsupported message type: destination unreachable'' @ newline)) w, buf)
               else Inr (emit (ERROR (''ICMPv4: Unsupported message type '' @ show_dec (unat t) @ newline)) w, buf))"

end
