(* ===== verification/Tcp.thy ===== *)
theory Tcp
  imports Icmp
begin

text \<open>\<^verbatim>\<open>protocols/tcp.c\<close> and \<^verbatim>\<open>protocols/tcp.h\<close>: the header, the check with the pseudo header, and the
  reception, which only prints.\<close>

abbreviation TCP_CONTROL_FIN :: u16 where "TCP_CONTROL_FIN \<equiv> 1"
abbreviation TCP_CONTROL_SYN :: u16 where "TCP_CONTROL_SYN \<equiv> 32"
abbreviation TCP_CONTROL_RST :: u16 where "TCP_CONTROL_RST \<equiv> 4"
abbreviation TCP_CONTROL_PSH :: u16 where "TCP_CONTROL_PSH \<equiv> 8"
abbreviation TCP_CONTROL_ACK :: u16 where "TCP_CONTROL_ACK \<equiv> 16"
abbreviation TCP_CONTROL_URG :: u16 where "TCP_CONTROL_URG \<equiv> 2"

record tcp_header =
  tcp_src_port :: u16
  tcp_dst_port :: u16
  seq_num :: u32
  ack_num :: u32
  reserved :: u16
  window :: u16
  tcp_checksum :: u16
  urgent_ptr :: u16
  options_and_padding :: u32

abbreviation tcp_size :: nat where "tcp_size \<equiv> 24"

definition tcp_bytes :: "tcp_header \<Rightarrow> bytes" where
  "tcp_bytes h = u16_bytes (tcp_src_port h) @ u16_bytes (tcp_dst_port h) @ u32_bytes (seq_num h) @
     u32_bytes (ack_num h) @ u16_bytes (reserved h) @ u16_bytes (window h) @ u16_bytes (tcp_checksum h) @
     u16_bytes (urgent_ptr h) @ u32_bytes (options_and_padding h)"

definition tcp_of :: "bytes \<Rightarrow> tcp_header" where
  "tcp_of bs = \<lparr> tcp_src_port = u16_of (bs ! 0) (bs ! 1), tcp_dst_port = u16_of (bs ! 2) (bs ! 3),
     seq_num = u32_of (bs ! 4) (bs ! 5) (bs ! 6) (bs ! 7), ack_num = u32_of (bs ! 8) (bs ! 9) (bs ! 10) (bs ! 11),
     reserved = u16_of (bs ! 12) (bs ! 13), window = u16_of (bs ! 14) (bs ! 15),
     tcp_checksum = u16_of (bs ! 16) (bs ! 17), urgent_ptr = u16_of (bs ! 18) (bs ! 19),
     options_and_padding = u32_of (bs ! 20) (bs ! 21) (bs ! 22) (bs ! 23) \<rparr>"

interpretation tcph: packed_struct tcp_bytes tcp_of tcp_size
proof unfold_locales
  fix h :: tcp_header and rest
  show "tcp_of (tcp_bytes h @ rest) = h"
    by (cases h) (simp add: tcp_of_def tcp_bytes_def u16_bytes_def u32_bytes_def byte_simps)
next
  fix bs :: bytes
  assume len: "length bs = tcp_size"
  have "tcp_bytes (tcp_of bs) = slice bs 0 2 @ slice bs 2 2 @ slice bs 4 4 @ slice bs 8 4 @ slice bs 12 2 @
      slice bs 14 2 @ slice bs 16 2 @ slice bs 18 2 @ slice bs 20 4"
    using len u16_slice [of 0 bs] u16_slice [of 2 bs] u32_slice [of 4 bs] u32_slice [of 8 bs] u16_slice [of 12 bs]
      u16_slice [of 14 bs] u16_slice [of 16 bs] u16_slice [of 18 bs] u32_slice [of 20 bs]
    by (simp add: tcp_bytes_def tcp_of_def)
  also have "\<dots> = slice bs 0 tcp_size" by (simp add: slice_join)
  finally show "tcp_bytes (tcp_of bs) = bs" using len by (simp add: slice_def)
qed (simp add: tcp_bytes_def)

definition tcp_header_get_data_offset :: "tcp_header \<Rightarrow> u16" where
  "tcp_header_get_data_offset h = drop_bit 12 (reserved h) AND 0xf"

definition tcp_header_get_control_bits :: "tcp_header \<Rightarrow> u16" where
  "tcp_header_get_control_bits h = reserved h AND 63"

definition tcp_header_fprint :: "tcp_header \<Rightarrow> string" where
  "tcp_header_fprint h =
     ''TCP header [src_port='' @ show_dec (unat (tcp_src_port h)) @ '', dst_port='' @ show_dec (unat (tcp_dst_port h)) @
     '', seq_num='' @ show_dec (unat (seq_num h)) @ '', ack_num='' @ show_dec (unat (ack_num h)) @
     '', data_offset='' @ show_dec (unat (drop_bit 12 (reserved h) AND 0xf)) @
     '', reserved='' @ show_dec (unat (drop_bit 6 (reserved h) AND 63)) @
     '', control_bits='' @ show_dec (unat (reserved h AND 63)) @ '', window='' @ show_dec (unat (window h)) @
     '', checksum='' @ show_dec (unat (tcp_checksum h)) @ '', urgent_ptr='' @ show_dec (unat (urgent_ptr h)) @
     '', options='' @ show_dec (unat (drop_bit 8 (options_and_padding h))) @ '']''"

text \<open>
  The sum of the segment and the pseudo header in 32 bits; \<open>seg\<close> is the segment, of the payload
  length of the datagram.
\<close>

definition tcp_sum :: "ip_header \<Rightarrow> bytes \<Rightarrow> u32" where
  "tcp_sum iph seg =
     (let len = ucast (ip_header_get_payload_length iph) :: u32 in
      ucast (sum16 seg) + ucast (htons (ucast len)) + ucast (htons (ucast PROTOCOL_TCP)) +
      htonl (src_addr iph) + htonl (dst_addr iph))"

text \<open>\<open>None\<close> when the segment is read past the buffer.\<close>

definition tcp_header_check :: "bytes \<Rightarrow> bool option" where
  "tcp_header_check buf =
     (let iph = get_at ip_of buf ip_off;
          len = ucast (ip_header_get_payload_length iph) :: u32
      in if length buf < ip_data_off + unat len then None
         else Some (internet_checksum (u32_bytes (tcp_sum iph (slice buf ip_data_off (unat len)))) = 0))"

text \<open>\<^verbatim>\<open>ntohs\<close> on a 32-bit field keeps its low 16 bits only.\<close>

definition tcp_header_ntoh :: "tcp_header \<Rightarrow> tcp_header" where
  "tcp_header_ntoh h =
     h\<lparr> seq_num := ucast (ntohs (ucast (seq_num h))), ack_num := ucast (ntohs (ucast (ack_num h))),
       tcp_dst_port := ntohs (tcp_dst_port h), tcp_src_port := ntohs (tcp_src_port h) \<rparr>"

definition tcp_header_hton :: "tcp_header \<Rightarrow> tcp_header" where
  "tcp_header_hton h =
     h\<lparr> seq_num := ucast (htons (ucast (seq_num h))), ack_num := ucast (htons (ucast (ack_num h))),
       tcp_dst_port := htons (tcp_dst_port h), tcp_src_port := htons (tcp_src_port h) \<rparr>"

definition tcp_receive ::
  "'a arp_state_scheme \<Rightarrow> bytes \<Rightarrow> ('a arp_state_scheme, 'a arp_state_scheme \<times> bytes) run" where
  "tcp_receive w buf =
     (if length buf < ip_data_off then Inl (OutOfBounds w)
      else case tcp_header_check buf of
        None \<Rightarrow> Inl (OutOfBounds w)
      | Some ok \<Rightarrow>
          if length buf < ip_data_off + tcp_size then Inl (OutOfBounds w)
          else let header = get_at tcp_of buf ip_data_off in
               if \<not> ok
               then Inr (emit (ERROR ''TCP: Invalid checksum for packet : '' @
                           [Stderr (tcp_header_fprint header), Stderr newline]) w, buf)
               else let header = tcp_header_ntoh header;
                        buf = put_at tcp_bytes buf ip_data_off header;
                        w = emit (LOG_DEBUG ''[TCP] Received '' @ [Stdout (tcp_header_fprint header), Stdout newline]) w
                    in if tcp_header_get_control_bits header = TCP_CONTROL_SYN
                       then Inr (emit (LOG_DEBUG (''[TCP] SYN attempt recorded.'' @ newline)) w, buf)
                       else Inr (w, buf))"

end
