(* ===== verification/Ip_Receive.thy ===== *)
theory Ip_Receive
  imports Tcp
begin

text \<open>\<^verbatim>\<open>protocols/udp.c\<close>, the reception of \<^verbatim>\<open>protocols/ip.c\<close> and its dispatch.\<close>

record udp_header =
  udp_src_port :: u16
  udp_dst_port :: u16
  udp_len :: u16
  udp_checksum :: u16

abbreviation udp_size :: nat where "udp_size \<equiv> 8"

definition udp_bytes :: "udp_header \<Rightarrow> bytes" where
  "udp_bytes h = u16_bytes (udp_src_port h) @ u16_bytes (udp_dst_port h) @ u16_bytes (udp_len h) @
     u16_bytes (udp_checksum h)"

definition udp_of :: "bytes \<Rightarrow> udp_header" where
  "udp_of bs = \<lparr> udp_src_port = u16_of (bs ! 0) (bs ! 1), udp_dst_port = u16_of (bs ! 2) (bs ! 3),
     udp_len = u16_of (bs ! 4) (bs ! 5), udp_checksum = u16_of (bs ! 6) (bs ! 7) \<rparr>"

interpretation udph: packed_struct udp_bytes udp_of udp_size
proof unfold_locales
  fix h :: udp_header and rest
  show "udp_of (udp_bytes h @ rest) = h"
    by (cases h) (simp add: udp_of_def udp_bytes_def u16_bytes_def byte_simps)
next
  fix bs :: bytes
  assume len: "length bs = udp_size"
  have "udp_bytes (udp_of bs) = slice bs 0 2 @ slice bs 2 2 @ slice bs 4 2 @ slice bs 6 2"
    using len u16_slice [of 0 bs] u16_slice [of 2 bs] u16_slice [of 4 bs] u16_slice [of 6 bs]
    by (simp add: udp_bytes_def udp_of_def)
  also have "\<dots> = slice bs 0 udp_size" by (simp add: slice_join)
  finally show "udp_bytes (udp_of bs) = bs" using len by (simp add: slice_def)
qed (simp add: udp_bytes_def)

definition udp_header_fprint :: "udp_header \<Rightarrow> string" where
  "udp_header_fprint h =
     ''UDP header [src_port='' @ show_dec (unat (udp_src_port h)) @ '', dst_port='' @ show_dec (unat (udp_dst_port h)) @
     '', len='' @ show_dec (unat (ucast (udp_len h) - of_nat udp_size :: u64)) @ ''('' @ show_dec (unat (udp_len h)) @
     ''), checksum='' @ show_dec (unat (udp_checksum h)) @ '']''"

definition udp_receive ::
  "'a arp_state_scheme \<Rightarrow> bytes \<Rightarrow> ('a arp_state_scheme, 'a arp_state_scheme \<times> bytes) run" where
  "udp_receive w buf =
     (if length buf < ip_data_off + udp_size then Inl (OutOfBounds w)
      else Inr (emit (LOG_DEBUG ''[UDP] Received '' @
             [Stdout (udp_header_fprint (get_at udp_of buf ip_data_off)), Stdout newline]) w, buf))"

text \<open>\<^verbatim>\<open>DEBUG\<close> is 0 in \<^verbatim>\<open>ip.c\<close>: the \<^verbatim>\<open>LOG_DEBUG\<close> lines are empty.\<close>

definition ip_receive ::
  "'a arp_state_scheme \<Rightarrow> bytes \<Rightarrow> ('a arp_state_scheme, 'a arp_state_scheme \<times> bytes) run" where
  "ip_receive w buf =
     (if length buf < ip_data_off then Inl (OutOfBounds w)
      else let header = get_at ip_of buf ip_off in
        if \<not> ip_header_check header
        then Inr (emit (ERROR (''IPv4: invalid checksum: '' @ show_dec (unat (ip_checksum header)) @ '' '' @
               show_dec (unat (internet_checksum (ip_bytes header))) @ newline)) w, buf)
        else let header = ip_header_ntoh header;
                 buf = put_at ip_bytes buf ip_off header
             in if protocol header = PROTOCOL_TCP then tcp_receive w buf
                else if protocol header = PROTOCOL_UDP then udp_receive w buf
                else if protocol header = PROTOCOL_ICMP then icmp_receive w buf
                else Inr (emit (ERROR (''IPv4: Unsupported protocol : '' @
                       show_dec (unat (protocol header)) @ newline)) w, buf))"

end
