(* ===== verification/Main_Loop.thy ===== *)
theory Main_Loop
  imports Ip_Receive
begin

text \<open>\<^verbatim>\<open>main.c\<close>: initialisation, the dispatch of frames, the loop of a thread, and \<^verbatim>\<open>destroy\<close>.\<close>

abbreviation BUFLEN :: nat where "BUFLEN \<equiv> 100"

text \<open>The header of the frame is in host byte order; \<^verbatim>\<open>DEBUG\<close> is 0.\<close>

definition handle_frame ::
  "'a arp_state_scheme \<Rightarrow> bytes \<Rightarrow> ('a arp_state_scheme, bool \<times> 'a arp_state_scheme \<times> bytes) run" where
  "handle_frame w buf =
     (if length buf < eth_size then Inl (OutOfBounds w)
      else let t = ether_type (get_at eth_of buf 0) in
        if t = ETH_P_ARP then bind_run (arp_receive w buf) (\<lambda>(w, buf). Inr (True, w, buf))
        else if t = ETH_P_IP then bind_run (ip_receive w buf) (\<lambda>(w, buf). Inr (False, w, buf))
        else Inr (False, w, buf))"

text \<open>
  One round of \<^verbatim>\<open>process_io\<close>, given the kernel's answer to the read and the text of
  \<^verbatim>\<open>strerror(errno)\<close>.  After a failed read the round goes on with the buffer as it is.
\<close>

definition process_io_round ::
  "(int \<Rightarrow> int \<Rightarrow> bytes option) \<times> string \<Rightarrow> 'a arp_state_scheme \<Rightarrow> bytes
    \<Rightarrow> ('a arp_state_scheme, 'a arp_state_scheme \<times> bytes) run" where
  "process_io_round io w buffer = (case io of (rd, err) \<Rightarrow>
     bind_run (net_interface_read rd w buffer (of_nat BUFLEN)) (\<lambda>(n, buffer, w).
     let w = (if n < 0 then emit (ERROR (''Read from tun_fd: '' @ err @ newline)) w else w);
         buffer = put_at eth_bytes buffer 0 (eth_header_ntoh (get_at eth_of buffer 0))
     in bind_run (handle_frame w buffer) (\<lambda>(_, w, buffer). Inr (w, buffer))))"

text \<open>The loop, for a list of answers.\<close>

fun process_io ::
  "((int \<Rightarrow> int \<Rightarrow> bytes option) \<times> string) list \<Rightarrow> 'a arp_state_scheme \<Rightarrow> bytes
    \<Rightarrow> ('a arp_state_scheme, 'a arp_state_scheme \<times> bytes) run" where
  "process_io [] w buffer = Inr (w, buffer)"
| "process_io (io # ios) w buffer =
     bind_run (process_io_round io w buffer) (\<lambda>(w, buffer). process_io ios w buffer)"

text \<open>The blocks freed by the two parts.\<close>

definition destroy ::
  "bool option \<Rightarrow> 'a arp_state_scheme \<Rightarrow> ('a arp_state_scheme, (arp_key \<times> nat) list \<times> bytes list \<times> 'a arp_state_scheme) run" where
  "destroy oob w = bind_run (arp_destroy oob w) (\<lambda>(freed, array, w). Inr (freed, net_interface_destroy w, w))"

text \<open>\<^verbatim>\<open>main\<close> up to the creation of the threads, each with a zeroed buffer.\<close>

abbreviation THREADS :: nat where "THREADS \<equiv> 10"

definition main_init ::
  "kernel \<Rightarrow> 'a arp_state_scheme \<Rightarrow> ('a arp_state_scheme, 'a arp_state_scheme \<times> bytes list) run" where
  "main_init k w =
     bind_run (tun_init k w (Some 10)) (\<lambda>(dev, w).
     let w = emit (INFO (''Created TUN interface : '' @ dev @ newline)) w in
     bind_run (net_interface_init w ''10.0.0.4'' ''00:0c:29:6d:50:25'') (\<lambda>w.
     bind_run (arp_init w) (\<lambda>w.
     Inr (emit (INFO (''Init successful'' @ newline)) w, replicate THREADS (replicate BUFLEN 0)))))"

text \<open>
  The threads that \<^verbatim>\<open>main\<close> creates, interleaved by rounds: each element of the schedule is the number of a
  thread and the kernel's answer to its read.  Thread \<open>t\<close> works on \<^verbatim>\<open>buffers[t]\<close>.
\<close>

fun run_threads ::
  "(nat \<times> (int \<Rightarrow> int \<Rightarrow> bytes option) \<times> string) list \<Rightarrow> 'a arp_state_scheme \<Rightarrow> bytes list
    \<Rightarrow> ('a arp_state_scheme, 'a arp_state_scheme \<times> bytes list) run" where
  "run_threads [] w buffers = Inr (w, buffers)"
| "run_threads ((t, io) # sched) w buffers =
     (if t < length buffers
      then bind_run (process_io_round io w (buffers ! t)) (\<lambda>(w, b). run_threads sched w (buffers[t := b]))
      else Inl (OutOfBounds w))"

text \<open>\<^verbatim>\<open>exit\<close> runs the function registered with \<^verbatim>\<open>atexit\<close>; \<^verbatim>\<open>abort\<close> and a failed assertion do not.\<close>

definition at_exit ::
  "bool option \<Rightarrow> ('a arp_state_scheme, 'b) run \<Rightarrow> ('a arp_state_scheme, 'b) run" where
  "at_exit oob r = (case r of
     Inl (Exit c w) \<Rightarrow> bind_run (destroy oob w) (\<lambda>(_, _, w). Inl (Exit c w))
   | _ \<Rightarrow> r)"

definition main_run ::
  "kernel \<Rightarrow> bool option \<Rightarrow> (nat \<times> (int \<Rightarrow> int \<Rightarrow> bytes option) \<times> string) list \<Rightarrow> 'a arp_state_scheme
    \<Rightarrow> ('a arp_state_scheme, 'a arp_state_scheme \<times> bytes list) run" where
  "main_run k oob sched w =
     at_exit oob (bind_run (main_init k w) (\<lambda>(w, buffers). run_threads sched w buffers))"

end
