(* ===== verification/Arp_Correct.thy ===== *)
theory Arp_Correct
  imports Arp
begin

text \<open>
  Correctness of the address resolution protocol.  The cache is a table from addresses to hardware
  addresses; receiving a packet and resolving an address are proved against the reception
  algorithm of RFC 826 on that table.
\<close>

section \<open>Keys\<close>

interpretation arpkey: hash_key arp_hash arp_equals
  by unfold_locales (simp_all add: arp_equals_def arp_hash_def)

lemma to_key_bits: "to_key p i = push_bit 32 (ucast p) OR ucast i"
  unfolding to_key_def by (rule disjunctive_add) (auto simp: bit_simps dest: bit_imp_le_length)

lemma to_key_ip: "ucast (to_key p i) = i"
  unfolding to_key_bits by (rule bit_word_eqI) (auto simp: bit_simps)

lemma to_key_pro: "ucast (drop_bit 32 (to_key p i)) = p"
  unfolding to_key_bits by (rule bit_word_eqI) (auto simp: bit_simps dest: bit_imp_le_length)

lemma to_key_inject [simp]: "to_key p i = to_key q j \<longleftrightarrow> p = q \<and> i = j"
  by (metis to_key_ip to_key_pro)

section \<open>The cache as a table\<close>

text \<open>
  The invariant: the map is valid and uses the functions of \<^verbatim>\<open>arp.c\<close>, its keys are allocated words
  (never the address of a local variable), and the entries point to distinct allocated cells.
\<close>

definition cache_ok :: "(arp_key, nat) hashmap \<Rightarrow> mac list \<Rightarrow> bool" where
  "cache_ok m cells \<longleftrightarrow>
     hm_inv m \<and> hm_hash m = arp_hash \<and> hm_equals m = arp_equals \<and>
     stored_keys m \<subseteq> range HeapKey \<and>
     (\<forall>k a. hm_lookup m k = Some a \<longrightarrow> 0 < a \<and> a \<le> length cells) \<and>
     (\<forall>k l a. hm_lookup m k = Some a \<longrightarrow> hm_lookup m l = Some a \<longrightarrow> key_word k = key_word l)"

definition arp_ok :: "'a arp_state_scheme \<Rightarrow> bool" where
  "arp_ok w \<longleftrightarrow> net_ok w \<and> (\<exists>m. arp_cache w = Some m \<and> cache_ok m (arp_cells w))"

definition cell_mac :: "mac list \<Rightarrow> nat \<Rightarrow> mac" where
  "cell_mac cells a = cells ! (a - 1)"

definition arp_table :: "'a arp_state_scheme \<Rightarrow> u16 \<times> u32 \<Rightarrow> mac option" where
  "arp_table w = (\<lambda>(pro, ip). case arp_cache w of
     None \<Rightarrow> None
   | Some m \<Rightarrow> map_option (cell_mac (arp_cells w)) (hm_lookup m (StackKey (to_key pro ip))))"

lemma table_eqI: "(\<And>q j. f (q, j) = g (q, j)) \<Longrightarrow> f = g"
  by (simp add: fun_eq_iff)

lemma arp_okE:
  assumes "arp_ok w"
  obtains m where "arp_cache w = Some m" and "cache_ok m (arp_cells w)" and "net_ok w"
  using assms by (auto simp: arp_ok_def)

lemma cache_okD:
  assumes "cache_ok m cells"
  shows "hm_inv m" and "hm_equals m = arp_equals" "hm_hash m = arp_hash" and "stored_keys m \<subseteq> range HeapKey"
    and "hm_lookup m k = Some a \<Longrightarrow> 0 < a \<and> a \<le> length cells"
    and "hm_lookup m k = Some a \<Longrightarrow> hm_lookup m l = Some a \<Longrightarrow> key_word k = key_word l"
  using assms unfolding cache_ok_def by blast+

lemma cache_okI:
  assumes "hm_inv m" and "hm_hash m = arp_hash" and "hm_equals m = arp_equals"
    and "stored_keys m \<subseteq> range HeapKey"
    and "\<And>k a. hm_lookup m k = Some a \<Longrightarrow> 0 < a \<and> a \<le> length cells"
    and "\<And>k l a. hm_lookup m k = Some a \<Longrightarrow> hm_lookup m l = Some a \<Longrightarrow> key_word k = key_word l"
  shows "cache_ok m cells"
  using assms unfolding cache_ok_def by blast

lemma is_in_arp_cache_table:
  assumes "arp_ok w"
  shows "is_in_arp_cache w pro ip = Inr (arp_table w (pro, ip) \<noteq> None)"
  using assms by (elim arp_okE)
    (simp add: is_in_arp_cache_def arp_table_def hm.contains_law [OF cache_okD(1)])

text \<open>Only the cache, the cells and the trace change.\<close>

definition only_cache :: "'a arp_state_scheme \<Rightarrow> 'a arp_state_scheme \<Rightarrow> bool" where
  "only_cache w w' \<longleftrightarrow> w' = w\<lparr> arp_cache := arp_cache w', arp_cells := arp_cells w' \<rparr>"

lemma only_cacheD:
  assumes "only_cache w w'"
  shows "tun_fds w' = tun_fds w" "busy_status w' = busy_status w" "ni_ip w' = ni_ip w"
    "ni_mac w' = ni_mac w" "trace w' = trace w" "net_ok w' = net_ok w" "some_free w' = some_free w"
    "first_free w' = first_free w"
proof -
  obtain m cs where w': "w' = w\<lparr> arp_cache := m, arp_cells := cs \<rparr>"
    using assms unfolding only_cache_def by blast
  show "tun_fds w' = tun_fds w" "busy_status w' = busy_status w" "ni_ip w' = ni_ip w"
    "ni_mac w' = ni_mac w" "trace w' = trace w" "net_ok w' = net_ok w" "some_free w' = some_free w"
    "first_free w' = first_free w"
    unfolding w' by (simp_all add: net_ok_def tun_ok_def some_free_def first_free_def)
qed

lemma refresh_lookup:
  assumes "cache_ok m cells" and "hm_lookup m k = Some a" and "updates m k a m'"
  shows "hm_lookup m' = hm_lookup m"
proof
  fix l
  show "hm_lookup m' l = hm_lookup m l"
    using assms(2,3) hm_lookup_cong [OF cache_okD(1) [OF assms(1)], of l k] by (simp add: updates_def)
qed

lemma refresh_cache_ok:
  assumes c: "cache_ok m cells" and a: "hm_lookup m k = Some a" and u: "updates m k a m'" and len: "length cells' = length cells"
  shows "cache_ok m' cells'"
proof (rule cache_okI)
  show "hm_inv m'" "hm_hash m' = arp_hash" "hm_equals m' = arp_equals" "stored_keys m' \<subseteq> range HeapKey"
    using u a cache_okD(2-4) [OF c] by (simp_all add: updates_def)
next
  fix l b
  assume "hm_lookup m' l = Some b"
  then show "0 < b \<and> b \<le> length cells'" unfolding refresh_lookup [OF c a u] len by (rule cache_okD(5) [OF c])
next
  fix l l' b
  assume "hm_lookup m' l = Some b" "hm_lookup m' l' = Some b"
  then show "key_word l = key_word l'" unfolding refresh_lookup [OF c a u] by (rule cache_okD(6) [OF c])
qed

text \<open>Another key has another cell.\<close>

lemma other_cell:
  assumes "cache_ok m cells" and "hm_lookup m k = Some a" and "hm_lookup m l = Some b" and "key_word l \<noteq> key_word k"
  shows "b - 1 \<noteq> a - 1"
proof -
  have "b \<noteq> a" using cache_okD(6) [OF assms(1,3), of k] assms(2,4) by auto
  moreover have "0 < a" "0 < b" using cache_okD(5) [OF assms(1,2)] cache_okD(5) [OF assms(1,3)] by simp_all
  ultimately show ?thesis by linarith
qed

lemma refresh_table:
  assumes m: "arp_cache w = Some m" and c: "cache_ok m (arp_cells w)"
    and a: "hm_lookup m (StackKey (to_key pro ip)) = Some a" and m': "hm_lookup m' = hm_lookup m"
  shows "arp_table (w\<lparr> arp_cells := (arp_cells w)[a - 1 := x], arp_cache := Some m' \<rparr>) (q, j) =
    ((arp_table w)((pro, ip) \<mapsto> x)) (q, j)"
proof (cases "(q, j) = (pro, ip)")
  case True
  have "0 < a" "a \<le> length (arp_cells w)" using cache_okD(5) [OF c a] by simp_all
  then show ?thesis using True a by (simp add: arp_table_def m' cell_mac_def)
next
  case False
  show ?thesis
  proof (cases "hm_lookup m (StackKey (to_key q j))")
    case None
    then show ?thesis using False m by (auto simp: arp_table_def m')
  next
    case (Some b)
    then have "b - 1 \<noteq> a - 1" using other_cell [OF c a Some] False by auto
    then show ?thesis using False Some m by (auto simp: arp_table_def m' cell_mac_def)
  qed
qed

lemma set_in_arp_cache_updates:
  assumes ok: "arp_ok w" and known: "arp_table w (pro, ip) \<noteq> None"
  shows "\<exists>w'. set_in_arp_cache w pro ip x = Inr w' \<and> arp_ok w' \<and> only_cache w w' \<and>
    arp_table w' = (arp_table w)((pro, ip) \<mapsto> x)"
proof -
  from ok obtain m where m: "arp_cache w = Some m" and c: "cache_ok m (arp_cells w)" and n: "net_ok w"
    by (rule arp_okE)
  let ?k = "StackKey (to_key pro ip)"
  from known m obtain a where a: "hm_lookup m ?k = Some a" by (auto simp: arp_table_def)
  obtain m' where m': "hashmap_put m ?k a = Some m'" and u: "updates m ?k a m'"
    using hashmap_put_updates [OF cache_okD(1) [OF c]] by blast
  have get: "hashmap_get m ?k = Some a"
    using hm.get_law [OF cache_okD(1) [OF c], of ?k 0] a by (simp add: hashmap_get_def)
  let ?w' = "w\<lparr> arp_cells := (arp_cells w)[a - 1 := x], arp_cache := Some m' \<rparr>"
  have "cache_ok m' ((arp_cells w)[a - 1 := x])" using refresh_cache_ok [OF c a u] by simp
  then have ok': "arp_ok ?w'" using n by (simp add: arp_ok_def net_ok_def tun_ok_def)
  have "arp_table ?w' = (arp_table w)((pro, ip) \<mapsto> x)"
    by (rule table_eqI) (rule refresh_table [OF m c a refresh_lookup [OF c a u]])
  moreover have "set_in_arp_cache w pro ip x = Inr ?w'"
    using m get cache_okD(5) [OF c a] m' by (simp add: set_in_arp_cache_def Let_def)
  moreover have "only_cache w ?w'" by (cases w) (simp add: only_cache_def)
  ultimately show ?thesis using ok' by blast
qed

lemma learn_lookup:
  assumes "cache_ok m cells" and "updates m (HeapKey kw) a m'"
  shows "hm_lookup m' l = (if key_word l = kw then Some a else hm_lookup m l)"
  using assms(2) by (simp add: updates_def cache_okD(2) [OF assms(1)] arp_equals_def)

lemma learn_cache_ok:
  assumes c: "cache_ok m cells" and u: "updates m (HeapKey kw) (Suc (length cells)) m'" and none: "hm_lookup m (HeapKey kw) = None"
  shows "cache_ok m' (cells @ [x])"
proof (rule cache_okI)
  show "hm_inv m'" "hm_hash m' = arp_hash" "hm_equals m' = arp_equals" "stored_keys m' \<subseteq> range HeapKey"
    using u none cache_okD(2-4) [OF c] by (simp_all add: updates_def)
next
  fix k b
  assume "hm_lookup m' k = Some b"
  then show "0 < b \<and> b \<le> length (cells @ [x])"
    using cache_okD(5) [OF c, of k b] by (auto simp: learn_lookup [OF c u] split: if_splits)
next
  fix k l b
  assume "hm_lookup m' k = Some b" "hm_lookup m' l = Some b"
  then have "(if key_word k = kw then Some (Suc (length cells)) else hm_lookup m k) = Some b"
    "(if key_word l = kw then Some (Suc (length cells)) else hm_lookup m l) = Some b"
    by (simp_all add: learn_lookup [OF c u])
  moreover have "b < Suc (length cells)" if "hm_lookup m l = Some b" for l b
    using cache_okD(5) [OF c that] by simp
  ultimately show "key_word k = key_word l"
    using cache_okD(6) [OF c, of k b l] by (auto split: if_splits)
qed

lemma add_to_arp_cache_updates:
  assumes ok: "arp_ok w" and unknown: "arp_table w (pro, ip) = None"
  shows "\<exists>w'. add_to_arp_cache w pro ip x = Inr w' \<and> arp_ok w' \<and> only_cache w w' \<and>
    arp_table w' = (arp_table w)((pro, ip) \<mapsto> x)"
proof -
  from ok obtain m where m: "arp_cache w = Some m" and c: "cache_ok m (arp_cells w)" and n: "net_ok w"
    by (rule arp_okE)
  let ?k = "HeapKey (to_key pro ip)" and ?cells = "arp_cells w @ [x]" and ?a = "Suc (length (arp_cells w))"
  obtain m' where m': "hashmap_put m ?k ?a = Some m'" and u: "updates m ?k ?a m'"
    using hashmap_put_updates [OF cache_okD(1) [OF c]] by blast
  have none: "hm_lookup m ?k = None"
    using unknown m hm_lookup_cong [OF cache_okD(1) [OF c], of ?k "StackKey (to_key pro ip)"]
    by (simp add: arp_table_def cache_okD(2) [OF c] arp_equals_def)
  note lookup = learn_lookup [OF c u]
  let ?w' = "w\<lparr> arp_cells := ?cells, arp_cache := Some m' \<rparr>"
  have ok': "arp_ok ?w'" using n learn_cache_ok [OF c u none] by (simp add: arp_ok_def net_ok_def tun_ok_def)
  have cells: "cell_mac ?cells b = cell_mac (arp_cells w) b" if "hm_lookup m l = Some b" for l b
    using cache_okD(5) [OF c that] by (auto simp: cell_mac_def nth_append)
  have "arp_table ?w' (q, j) = ((arp_table w)((pro, ip) \<mapsto> x)) (q, j)" for q j
  proof (cases "(q, j) = (pro, ip)")
    case True
    then show ?thesis by (simp add: arp_table_def lookup) (simp add: cell_mac_def)
  next
    case False
    then show ?thesis
      using m cells by (cases "hm_lookup m (StackKey (to_key q j))") (auto simp: arp_table_def lookup)
  qed
  then have "arp_table ?w' = (arp_table w)((pro, ip) \<mapsto> x)" by (rule table_eqI)
  moreover have "add_to_arp_cache w pro ip x = Inr ?w'"
    using m m' by (simp add: add_to_arp_cache_def Let_def)
  moreover have "only_cache w ?w'" by (cases w) (simp add: only_cache_def)
  ultimately show ?thesis using ok' by blast
qed

section \<open>Sending keeps the table\<close>

lemma sends_arp:
  assumes "sends w d t c w'" and "arp_ok w"
  shows "arp_ok w'" and "arp_table w' = arp_table w"
proof -
  have w': "arp_cache w' = arp_cache w" "arp_cells w' = arp_cells w"
    using sends_effects(9) [OF assms(1)] by (metis (no_types) arp_state.select_convs(1,2) arp_state.surjective net_state.select_convs(6))+
  with assms(2) sends_effects(5) [OF assms(1)] show "arp_ok w'" by (simp add: arp_ok_def)
  show "arp_table w' = arp_table w" unfolding arp_table_def w' ..
qed

lemma emit_arp [simp]:
  "arp_cache (emit es w) = arp_cache w" "arp_cells (emit es w) = arp_cells w"
  "arp_ok (emit es w) = arp_ok w" "arp_table (emit es w) = arp_table w"
  "some_free (emit es w) = some_free w" "first_free (emit es w) = first_free w"
proof -
  show c: "arp_cache (emit es w) = arp_cache w" "arp_cells (emit es w) = arp_cells w"
    by (simp_all add: emit_def)
  show "arp_ok (emit es w) = arp_ok w" by (simp add: arp_ok_def c)
  show "arp_table (emit es w) = arp_table w" unfolding arp_table_def c ..
  show "some_free (emit es w) = some_free w" "first_free (emit es w) = first_free w"
    by (simp_all add: some_free_def first_free_def)
qed

section \<open>RFC 826\<close>

text \<open>The packets on the wire.\<close>

definition arp_packet :: "u16 \<Rightarrow> mac \<Rightarrow> u32 \<Rightarrow> mac \<Rightarrow> u32 \<Rightarrow> bytes" where
  "arp_packet op smac sip dmac dip =
     [0, 1, 8, 0, 6, 4] @ rev (u16_bytes op) @
     mac_bytes smac @ u32_bytes sip @ mac_bytes dmac @ u32_bytes dip"

text \<open>The header is one the program handles: Ethernet and IPv4.\<close>

definition arp_supported :: "arp_header \<Rightarrow> bool" where
  "arp_supported h \<longleftrightarrow> hw_type h = ARP_ETHERNET \<and> hw_size h = 6 \<and> pro_type h = ARP_IPV4 \<and> pro_size h = 4"

text \<open>
  The reception algorithm: an entry that is there is refreshed, a missing one is added when the
  packet is for this host, and a request for this host is answered to its sender.
\<close>

definition rfc826_table ::
  "u32 \<Rightarrow> (u16 \<times> u32 \<Rightarrow> mac option) \<Rightarrow> arp_header \<Rightarrow> arp_ipv4 \<Rightarrow> (u16 \<times> u32 \<Rightarrow> mac option)" where
  "rfc826_table own tbl h c =
     (if arp_supported h \<and> (tbl (ARP_IPV4, arp_src_ip c) \<noteq> None \<or> arp_dst_ip c = own)
      then tbl((ARP_IPV4, arp_src_ip c) \<mapsto> arp_src_mac c) else tbl)"

definition rfc826_frames :: "u32 \<Rightarrow> mac \<Rightarrow> arp_header \<Rightarrow> arp_ipv4 \<Rightarrow> bytes list" where
  "rfc826_frames own own_mac h c =
     (if arp_supported h \<and> arp_dst_ip c = own \<and> opcode h = ARP_REQUEST
      then [eth_frame (arp_src_mac c) own_mac ETH_P_ARP
              (arp_packet ARP_REPLY own_mac own (arp_src_mac c) (arp_src_ip c))]
      else [])"

lemma arp_header_hton_bytes:
  "hw_type h = ARP_ETHERNET \<Longrightarrow> hw_size h = 6 \<Longrightarrow> pro_type h = ARP_IPV4 \<Longrightarrow> pro_size h = 4 \<Longrightarrow>
   arp_header_bytes (arp_header_hton h) = [0, 1, 8, 0, 6, 4] @ rev (u16_bytes (opcode h))"
proof -
  assume h: "hw_type h = ARP_ETHERNET" "hw_size h = 6" "pro_type h = ARP_IPV4" "pro_size h = 4"
  have "u16_bytes (htons 1) = [0, 1]" "u16_bytes (htons 0x0800) = [8, 0]" by code_simp+
  then show ?thesis
    by (simp add: arp_header_bytes_def arp_header_hton_def h u16_bytes_htons)
qed

lemma arp_request_packet_bytes:
  "arp_request_packet w ip = arp_packet ARP_REQUEST (ni_mac w) (ni_ip w) BROADCAST ip"
proof -
  let ?h = "\<lparr> hw_type = ARP_ETHERNET, pro_type = ARP_IPV4, hw_size = 6, pro_size = 4, opcode = ARP_REQUEST \<rparr>"
  have z: "(get_at arp_header_of (replicate 28 0) 0)
      \<lparr> hw_type := ARP_ETHERNET, hw_size := 6, pro_type := ARP_IPV4, pro_size := 4, opcode := ARP_REQUEST \<rparr> = ?h"
    by simp
  have len: "length (arp_header_bytes (arp_header_hton ?h)) = 8" by (simp add: arph.enc_length)
  have "put_at arp_header_bytes (replicate 28 0) 0 (arp_header_hton ?h) =
      arp_header_bytes (arp_header_hton ?h) @ replicate 20 0"
    by (simp add: put_at_def patch_def len)
  then show ?thesis
    using len
    by (simp add: arp_request_packet_def Let_def z put_at_def patch_def arpc.enc_length
        arp_header_hton_bytes arp_packet_def arp_ipv4_bytes_def net_interface_get_ip_def net_interface_get_mac_def)
qed

section \<open>Reply\<close>

text \<open>The two structs laid over the buffer do not overlap.\<close>

lemma arp_buffer:
  assumes "arp_end \<le> length buf"
  shows "get_at arp_header_of (put_at arp_ipv4_bytes buf arp_data_off c) arp_off = get_at arp_header_of buf arp_off"
    and "get_at arp_ipv4_of (put_at arp_header_bytes buf arp_off h) arp_data_off = get_at arp_ipv4_of buf arp_data_off"
    and "get_at arp_header_of (put_at arp_header_bytes buf arp_off h) arp_off = h"
    and "length (put_at arp_header_bytes buf arp_off h) = length buf"
    and "length (put_at arp_ipv4_bytes buf arp_data_off c) = length buf"
    and "take (arp_header_size + arp_ipv4_size)
           (drop arp_off (put_at arp_header_bytes (put_at arp_ipv4_bytes buf arp_data_off c) arp_off h)) =
         arp_header_bytes h @ arp_ipv4_bytes c"
proof -
  show lc: "length (put_at arp_ipv4_bytes buf arp_data_off c) = length buf"
    using assms by (simp add: arpc.length_put)
  show "length (put_at arp_header_bytes buf arp_off h) = length buf"
    using assms by (simp add: arph.length_put)
  have "arp_header_bytes (get_at arp_header_of (put_at arp_ipv4_bytes buf arp_data_off c) arp_off) =
      arp_header_bytes (get_at arp_header_of buf arp_off)"
    using assms lc by (simp add: arph.enc_get arpc.slice_put_before)
  then show "get_at arp_header_of (put_at arp_ipv4_bytes buf arp_data_off c) arp_off = get_at arp_header_of buf arp_off"
    by (simp only: arph.enc_inject)
  show "get_at arp_ipv4_of (put_at arp_header_bytes buf arp_off h) arp_data_off = get_at arp_ipv4_of buf arp_data_off"
    using assms by (simp add: get_at_def arph.drop_put_after)
  show "get_at arp_header_of (put_at arp_header_bytes buf arp_off h) arp_off = h"
    using assms by (simp add: arph.get_put)
  let ?b = "put_at arp_header_bytes (put_at arp_ipv4_bytes buf arp_data_off c) arp_off h"
  have "take (arp_header_size + arp_ipv4_size) (drop arp_off ?b) =
      slice ?b arp_off arp_header_size @ slice ?b (arp_off + arp_header_size) arp_ipv4_size"
    by (simp only: slice_append_split [symmetric]) (simp add: slice_def)
  also have "slice ?b arp_off arp_header_size = arp_header_bytes h"
    using assms lc by (simp add: arph.slice_put_same)
  also have "slice ?b (arp_off + arp_header_size) arp_ipv4_size = arp_ipv4_bytes c"
    using assms lc by (simp add: arph.slice_put_after arpc.slice_put_same)
  finally show "take (arp_header_size + arp_ipv4_size) (drop arp_off ?b) = arp_header_bytes h @ arp_ipv4_bytes c" .
qed

text \<open>
  What every handler promises its caller: the invariant and a free queue again, the own addresses
  unchanged, a given table, and exactly the given frames sent.
\<close>

definition handled ::
  "'a arp_state_scheme \<Rightarrow> (u16 \<times> u32 \<Rightarrow> mac option) \<Rightarrow> bytes list \<Rightarrow> 'a arp_state_scheme \<Rightarrow> bool" where
  "handled w tbl frames w' \<longleftrightarrow>
     arp_ok w' \<and> some_free w' \<and> ni_ip w' = ni_ip w \<and> ni_mac w' = ni_mac w \<and>
     arp_table w' = tbl \<and> frames_of (trace w') = frames_of (trace w) @ frames"

lemma handled_trans:
  "handled w t1 f1 w1 \<Longrightarrow> handled w1 t2 f2 w2 \<Longrightarrow> handled w t2 (f1 @ f2) w2"
  by (simp add: handled_def)

lemma handled_refl: "arp_ok w \<Longrightarrow> some_free w \<Longrightarrow> handled w (arp_table w) [] w"
  by (simp add: handled_def)

lemma handled_emit:
  "frames_of es = [] \<Longrightarrow> handled w t f (emit es w') = handled w t f w'"
  "frames_of es = [] \<Longrightarrow> handled (emit es w) t f w' = handled w t f w'"
  by (simp_all add: handled_def)

lemma only_cache_handled:
  "only_cache w w' \<Longrightarrow> arp_ok w' \<Longrightarrow> some_free w \<Longrightarrow> handled w (arp_table w') [] w'"
  by (simp add: handled_def only_cacheD)

lemma send_handled:
  assumes "arp_ok w" and "some_free w" and "unat len = n" and "n \<le> length c" and "eth_size + n < 2 ^ 31"
  shows "\<exists>w'. net_interface_send w c len (Some d) t = Inr w' \<and>
    handled w (arp_table w) [eth_frame d (ni_mac w) t (take n c)] w'"
proof -
  have "net_ok w" using assms(1) by (simp add: arp_ok_def)
  then obtain w' where "net_interface_send w (take n c) len (Some d) t = Inr w'" and s: "sends w d t (take n c) w'"
    using net_interface_send_ok [of w len "take n c" d t] assms by auto
  moreover have "handled w (arp_table w) [eth_frame d (ni_mac w) t (take n c)] w'"
    using sends_effects [OF s] sends_arp [OF s assms(1)] assms(2) by (simp add: handled_def)
  ultimately show ?thesis using net_interface_send_take [of len c w "Some d" t] assms(3,4) by auto
qed

lemma arp_reply_handled:
  assumes ok: "arp_ok w" "some_free w" and len: "arp_end \<le> length buf"
    and h: "arp_supported (get_at arp_header_of buf arp_off)"
  defines "c \<equiv> get_at arp_ipv4_of buf arp_data_off"
  shows "\<exists>w' buf'. arp_reply w buf = Inr (w', buf') \<and> length buf' = length buf \<and>
    handled w (arp_table w) [eth_frame (arp_src_mac c) (ni_mac w) ETH_P_ARP
      (arp_packet ARP_REPLY (ni_mac w) (ni_ip w) (arp_src_mac c) (arp_src_ip c))] w'"
proof -
  let ?c = "\<lparr> arp_src_mac = ni_mac w, arp_src_ip = ni_ip w, arp_dst_mac = arp_src_mac c, arp_dst_ip = arp_src_ip c \<rparr>"
  let ?h = "(get_at arp_header_of buf arp_off)\<lparr> opcode := ARP_REPLY \<rparr>"
  let ?buf = "put_at arp_header_bytes (put_at arp_ipv4_bytes buf arp_data_off ?c) arp_off (arp_header_hton ?h)"
  let ?w = "emit (arp_debug ''Replied'' ?h) w"
  have lb: "length ?buf = length buf" using len by (simp add: arp_buffer)
  have packet: "take 28 (drop arp_off ?buf) =
      arp_packet ARP_REPLY (ni_mac w) (ni_ip w) (arp_src_mac c) (arp_src_ip c)"
    using arp_buffer(6) [OF len, of ?c "arp_header_hton ?h"] h
    by (simp add: arp_packet_def arp_header_hton_bytes arp_supported_def arp_ipv4_bytes_def)
  have cont: "c\<lparr> arp_dst_ip := arp_src_ip c, arp_dst_mac := arp_src_mac c,
      arp_src_ip := ni_ip w, arp_src_mac := ni_mac w \<rparr> = ?c"
    by (cases c) simp
  have dbg: "frames_of (arp_debug ''Replied'' ?h) = []" by (simp add: arp_debug_def)
  have room: "28 \<le> length (drop arp_off ?buf)" using len lb by simp
  obtain w' where w': "net_interface_send ?w (drop arp_off ?buf) 28 (Some (arp_src_mac c)) ETH_P_ARP = Inr w'"
    "handled ?w (arp_table ?w) [eth_frame (arp_src_mac c) (ni_mac ?w) ETH_P_ARP (take 28 (drop arp_off ?buf))] w'"
    using send_handled [OF _ _ _ room, of ?w 28 "arp_src_mac c" ETH_P_ARP] ok by auto
  have "arp_reply w buf = Inr (w', ?buf)"
    using w'(1) len
    by (simp add: arp_reply_def Let_def c_def [symmetric] cont arp_buffer(1) net_interface_get_ip_def net_interface_get_mac_def)
  then show ?thesis using w'(2) lb dbg by (simp add: handled_emit packet)
qed

end
