(* ===== verification/Arp_Props.thy ===== *)
theory Arp_Props
  imports Arp_Correct
begin

text \<open>
  Reception, resolution and the lifecycle of the cache, and the properties of \<^verbatim>\<open>protocols/arp.c\<close>.
\<close>

section \<open>Reception\<close>

text \<open>The last part of \<^verbatim>\<open>arp_receive\<close>, once the cache is up to date.\<close>

abbreviation arp_last :: "arp_header \<Rightarrow> bytes \<Rightarrow> 'a arp_state_scheme \<Rightarrow> ('a arp_state_scheme, 'a arp_state_scheme \<times> bytes) run" where
  "arp_last h buf w \<equiv>
    (if opcode h = ARP_REQUEST then arp_reply w buf
     else if opcode h = ARP_REPLY then Inr (w, buf)
     else Inr (emit (ERROR (''ARP: Unsupported opcode '' @ show_dec (unat (opcode h)) @ newline)) w, buf))"

lemma arp_opcode_handled:
  assumes ok: "arp_ok w" "some_free w" and len: "arp_end \<le> length buf" and sup: "arp_supported h"
    and h: "get_at arp_header_of buf arp_off = h" and c: "get_at arp_ipv4_of buf arp_data_off = c"
  shows "\<exists>w' buf'. arp_last h buf w = Inr (w', buf') \<and> length buf' = length buf \<and>
    handled w (arp_table w) (if opcode h = ARP_REQUEST
      then [eth_frame (arp_src_mac c) (ni_mac w) ETH_P_ARP
             (arp_packet ARP_REPLY (ni_mac w) (ni_ip w) (arp_src_mac c) (arp_src_ip c))] else []) w'"
proof (cases "opcode h = ARP_REQUEST")
  case True
  then show ?thesis using arp_reply_handled [OF ok len] sup by (simp add: h c)
next
  case False
  then show ?thesis using handled_refl [OF ok] by (auto simp: handled_emit)
qed

text \<open>The same, from the state before the cache was brought up to date.\<close>

lemma arp_last_handled:
  assumes w2: "handled w (arp_table w2) [] w2" and len: "arp_end \<le> length buf" and sup: "arp_supported h"
    and h: "get_at arp_header_of buf arp_off = h" and c: "get_at arp_ipv4_of buf arp_data_off = c"
    and us: "arp_dst_ip c = ni_ip w"
  shows "\<exists>w' buf'. arp_last h buf w2 = Inr (w', buf') \<and> length buf' = length buf \<and>
    handled w (arp_table w2) (rfc826_frames (ni_ip w) (ni_mac w) h c) w'"
proof -
  have ok: "arp_ok w2" "some_free w2" "ni_mac w2 = ni_mac w" "ni_ip w2 = ni_ip w"
    using w2 by (simp_all add: handled_def)
  then show ?thesis
    using arp_opcode_handled [OF ok(1,2) len sup h c] handled_trans [OF w2] us sup
    by (simp only: rfc826_frames_def append_Nil simp_thms) blast
qed

text \<open>The two updates of the cache, after output \<open>es\<close> that sends nothing.\<close>

lemma refresh_handled:
  assumes ok: "arp_ok w" "some_free w" and known: "arp_table w (pro, ip) \<noteq> None" and es: "frames_of es = []"
  shows "\<exists>w'. set_in_arp_cache (emit es w) pro ip x = Inr w' \<and> handled w ((arp_table w)((pro, ip) \<mapsto> x)) [] w'"
proof -
  obtain w' where w': "set_in_arp_cache (emit es w) pro ip x = Inr w'" "arp_ok w'" "only_cache (emit es w) w'"
    "arp_table w' = (arp_table w)((pro, ip) \<mapsto> x)"
    using set_in_arp_cache_updates [of "emit es w" pro ip x] ok known by auto
  have "handled w (arp_table w') [] w'" using only_cache_handled [OF w'(3,2)] ok es by (simp add: handled_emit)
  then show ?thesis using w'(1,4) by auto
qed

lemma learn_handled:
  assumes ok: "arp_ok w" "some_free w" and unknown: "arp_table w (pro, ip) = None" and es: "frames_of es = []"
  shows "\<exists>w'. add_to_arp_cache (emit es w) pro ip x = Inr w' \<and> handled w ((arp_table w)((pro, ip) \<mapsto> x)) [] w'"
proof -
  obtain w' where w': "add_to_arp_cache (emit es w) pro ip x = Inr w'" "arp_ok w'" "only_cache (emit es w) w'"
    "arp_table w' = (arp_table w)((pro, ip) \<mapsto> x)"
    using add_to_arp_cache_updates [of "emit es w" pro ip x] ok unknown by auto
  have "handled w (arp_table w') [] w'" using only_cache_handled [OF w'(3,2)] ok es by (simp add: handled_emit)
  then show ?thesis using w'(1,4) by auto
qed

lemma arp_receive_unfold:
  assumes ok: "arp_ok w" and len: "arp_end \<le> length buf"
    and h: "h = arp_header_ntoh (get_at arp_header_of buf arp_off)" and sup: "arp_supported h"
    and c: "c = get_at arp_ipv4_of buf arp_data_off"
    and w1: "w1 = emit (arp_debug ''Received'' h) w" and buf': "buf' = put_at arp_header_bytes buf arp_off h"
    and known: "known \<longleftrightarrow> arp_table w (ARP_IPV4, arp_src_ip c) \<noteq> None"
  shows "arp_receive w buf =
      bind_run (if known then set_in_arp_cache w1 ARP_IPV4 (arp_src_ip c) (arp_src_mac c) else Inr w1) (\<lambda>w2.
      if arp_dst_ip c = ni_ip w2 then
        bind_run (if \<not> known
                  then add_to_arp_cache (emit (learn_debug (arp_src_ip c) (arp_src_mac c)) w2)
                         ARP_IPV4 (arp_src_ip c) (arp_src_mac c) else Inr w2) (arp_last h buf')
      else Inr (w2, buf'))"
proof -
  have "is_in_arp_cache w1 ARP_IPV4 (arp_src_ip c) = Inr known"
    using is_in_arp_cache_table [of w1 ARP_IPV4 "arp_src_ip c"] ok by (simp add: w1 known)
  moreover have "get_at arp_ipv4_of buf' arp_data_off = c" "length buf' = length buf"
    using len c by (simp_all add: buf' arp_buffer arph.length_put)
  ultimately show ?thesis
    using len sup
    by (simp add: arp_receive_def Let_def h [symmetric] w1 [symmetric] buf' [symmetric] arp_supported_def
        net_interface_get_ip_def cong: if_cong)
qed

lemma arp_receive_known:
  assumes ok: "arp_ok w" "some_free w" and len: "arp_end \<le> length buf"
    and h: "h = arp_header_ntoh (get_at arp_header_of buf arp_off)" and sup: "arp_supported h"
    and c: "c = get_at arp_ipv4_of buf arp_data_off" and known: "arp_table w (ARP_IPV4, arp_src_ip c) = Some x"
  shows "\<exists>w' buf'. arp_receive w buf = Inr (w', buf') \<and> length buf' = length buf \<and>
    handled w (rfc826_table (ni_ip w) (arp_table w) h c) (rfc826_frames (ni_ip w) (ni_mac w) h c) w'"
proof -
  let ?buf = "put_at arp_header_bytes buf arp_off h" and ?es = "arp_debug ''Received'' h"
  have buf: "arp_end \<le> length ?buf" "get_at arp_header_of ?buf arp_off = h" "get_at arp_ipv4_of ?buf arp_data_off = c"
    "length ?buf = length buf" using len c by (simp_all add: arp_buffer)
  note recv = arp_receive_unfold [OF ok(1) len h sup c refl refl refl]
  have es: "frames_of ?es = []" by (simp add: arp_debug_def)
  from known obtain w2 where w2: "set_in_arp_cache (emit ?es w) ARP_IPV4 (arp_src_ip c) (arp_src_mac c) = Inr w2"
    "handled w ((arp_table w)((ARP_IPV4, arp_src_ip c) \<mapsto> arp_src_mac c)) [] w2"
    using refresh_handled [OF ok _ es, of ARP_IPV4 "arp_src_ip c" "arp_src_mac c"] by auto
  have hd: "handled w (arp_table w2) [] w2" "ni_ip w2 = ni_ip w"
    "rfc826_table (ni_ip w) (arp_table w) h c = arp_table w2"
    using w2(2) known sup by (simp_all add: rfc826_table_def handled_def)
  show ?thesis
  proof (cases "arp_dst_ip c = ni_ip w")
    case True
    have "arp_receive w buf = arp_last h ?buf w2" using recv known w2(1) hd(2) True by simp
    then show ?thesis using arp_last_handled [OF hd(1) buf(1) sup buf(2,3) True] hd(3) buf(4) by simp
  next
    case False
    have "arp_receive w buf = Inr (w2, ?buf)" using recv known w2(1) hd(2) False by simp
    then show ?thesis using hd(1,3) False buf(4) by (simp add: rfc826_frames_def)
  qed
qed

lemma arp_receive_unknown:
  assumes ok: "arp_ok w" "some_free w" and len: "arp_end \<le> length buf"
    and h: "h = arp_header_ntoh (get_at arp_header_of buf arp_off)" and sup: "arp_supported h"
    and c: "c = get_at arp_ipv4_of buf arp_data_off" and unknown: "arp_table w (ARP_IPV4, arp_src_ip c) = None"
  shows "\<exists>w' buf'. arp_receive w buf = Inr (w', buf') \<and> length buf' = length buf \<and>
    handled w (rfc826_table (ni_ip w) (arp_table w) h c) (rfc826_frames (ni_ip w) (ni_mac w) h c) w'"
proof -
  let ?buf = "put_at arp_header_bytes buf arp_off h" and ?es = "arp_debug ''Received'' h"
  let ?learn = "learn_debug (arp_src_ip c) (arp_src_mac c)"
  have buf: "arp_end \<le> length ?buf" "get_at arp_header_of ?buf arp_off = h" "get_at arp_ipv4_of ?buf arp_data_off = c"
    "length ?buf = length buf" using len c by (simp_all add: arp_buffer)
  have es: "frames_of ?es = []" "frames_of (?es @ ?learn) = []" by (simp_all add: arp_debug_def learn_debug_def)
  note recv = arp_receive_unfold [OF ok(1) len h sup c refl refl refl]
  show ?thesis
  proof (cases "arp_dst_ip c = ni_ip w")
    case True
    obtain w2 where w2: "add_to_arp_cache (emit (?es @ ?learn) w) ARP_IPV4 (arp_src_ip c) (arp_src_mac c) = Inr w2"
      "handled w ((arp_table w)((ARP_IPV4, arp_src_ip c) \<mapsto> arp_src_mac c)) [] w2"
      using learn_handled [OF ok unknown es(2), of "arp_src_mac c"] by auto
    have hd: "handled w (arp_table w2) [] w2" "rfc826_table (ni_ip w) (arp_table w) h c = arp_table w2"
      using w2(2) True sup by (simp_all add: rfc826_table_def handled_def)
    have "arp_receive w buf = arp_last h ?buf w2" using recv unknown w2(1) True by simp
    then show ?thesis using arp_last_handled [OF hd(1) buf(1) sup buf(2,3) True] hd(2) buf(4) by simp
  next
    case False
    then have "arp_receive w buf = Inr (emit ?es w, ?buf)" using recv unknown by simp
    then show ?thesis
      using handled_refl [OF ok] unknown False buf(4) es(1)
      by (simp add: rfc826_frames_def rfc826_table_def handled_emit)
  qed
qed

lemma arp_receive_supported:
  assumes ok: "arp_ok w" "some_free w" and len: "arp_end \<le> length buf"
    and h: "h = arp_header_ntoh (get_at arp_header_of buf arp_off)" and sup: "arp_supported h"
    and c: "c = get_at arp_ipv4_of buf arp_data_off"
  shows "\<exists>w' buf'. arp_receive w buf = Inr (w', buf') \<and> length buf' = length buf \<and>
    handled w (rfc826_table (ni_ip w) (arp_table w) h c) (rfc826_frames (ni_ip w) (ni_mac w) h c) w'"
  using arp_receive_known [OF assms] arp_receive_unknown [OF assms]
  by (cases "arp_table w (ARP_IPV4, arp_src_ip c)") blast+

lemma arp_receive_handled:
  assumes ok: "arp_ok w" "some_free w" and len: "arp_end \<le> length buf"
    and h: "h = arp_header_ntoh (get_at arp_header_of buf arp_off)"
    and c: "c = get_at arp_ipv4_of buf arp_data_off"
  shows "\<exists>w' buf'. arp_receive w buf = Inr (w', buf') \<and> length buf' = length buf \<and>
    handled w (rfc826_table (ni_ip w) (arp_table w) h c) (rfc826_frames (ni_ip w) (ni_mac w) h c) w'"
proof (cases "arp_supported h")
  case True
  then show ?thesis using arp_receive_supported [OF ok len h _ c] by blast
next
  case False
  then have "rfc826_table (ni_ip w) (arp_table w) h c = arp_table w"
    "rfc826_frames (ni_ip w) (ni_mac w) h c = []"
    by (simp_all add: rfc826_table_def rfc826_frames_def)
  moreover have "\<exists>es. arp_receive w buf = Inr (emit es w, put_at arp_header_bytes buf arp_off h) \<and> frames_of es = []"
  proof -
    consider "hw_type h \<noteq> ARP_ETHERNET" | "hw_size h \<noteq> 6" | "hw_type h = ARP_ETHERNET" "hw_size h = 6" "pro_type h \<noteq> ARP_IPV4"
      | "hw_type h = ARP_ETHERNET" "hw_size h = 6" "pro_size h \<noteq> 4"
      using False by (auto simp: arp_supported_def)
    then show ?thesis
      using len by cases (simp add: arp_receive_def Let_def h [symmetric] del: append.simps,
          rule exI, rule conjI, rule refl, simp add: arp_debug_def)+
  qed
  ultimately show ?thesis using handled_refl [OF ok] len by (auto simp: handled_emit arp_buffer)
qed

section \<open>Resolution\<close>

lemma arp_resolve_known:
  assumes "arp_ok w" and "arp_table w (ARP_IPV4, ip) = Some x"
  obtains p where "arp_resolve_ipv4 w ip = Inr (p, w)" and "0 < p" and "p \<le> length (arp_cells w)"
    and "arp_cells w ! (p - 1) = x"
proof -
  from assms(1) obtain m where m: "arp_cache w = Some m" and c: "cache_ok m (arp_cells w)"
    by (rule arp_okE)
  from assms(2) m obtain p where p: "hm_lookup m (StackKey (to_key ARP_IPV4 ip)) = Some p"
    and x: "arp_cells w ! (p - 1) = x"
    by (auto simp: arp_table_def cell_mac_def)
  have "hashmap_get m (StackKey (to_key ARP_IPV4 ip)) = Some p"
    using hm.get_law [OF cache_okD(1) [OF c]] p by (simp add: hashmap_get_def)
  then have "arp_resolve_ipv4 w ip = Inr (p, w)"
    using is_in_arp_cache_table [OF assms(1)] assms(2) m by (simp add: arp_resolve_ipv4_def)
  then show thesis using that x cache_okD(5) [OF c p] by blast
qed

lemma length_arp_packet [simp]: "length (arp_packet op a i b j) = 28"
  by (simp add: arp_packet_def)

lemma arp_resolve_unknown:
  assumes "arp_ok w" and "some_free w" and "arp_table w (ARP_IPV4, ip) = None"
  shows "\<exists>w'. arp_resolve_ipv4 w ip = Inr (0, w') \<and>
    handled w (arp_table w) [eth_frame BROADCAST (ni_mac w) ETH_P_ARP
      (arp_packet ARP_REQUEST (ni_mac w) (ni_ip w) BROADCAST ip)] w'"
proof -
  let ?es = "LOG_DEBUG ''[ARP] '' @ [Stdout (ipv4_fprint ip),
      Stdout ('' could not be resolved directly... Sending packet.'' @ newline)]"
  have es: "frames_of ?es = []" by simp
  have packet: "arp_request_packet (emit es w) ip = arp_packet ARP_REQUEST (ni_mac w) (ni_ip w) BROADCAST ip" for es
    by (simp add: arp_request_packet_bytes)
  obtain w' where w': "net_interface_send (emit ?es w) (arp_packet ARP_REQUEST (ni_mac w) (ni_ip w) BROADCAST ip) 28
        (Some BROADCAST) ETH_P_ARP = Inr w'"
    and hd: "handled (emit ?es w) (arp_table w) [eth_frame BROADCAST (ni_mac w) ETH_P_ARP
      (arp_packet ARP_REQUEST (ni_mac w) (ni_ip w) BROADCAST ip)] w'"
    using send_handled [of "emit ?es w" 28 28 "arp_packet ARP_REQUEST (ni_mac w) (ni_ip w) BROADCAST ip" BROADCAST ETH_P_ARP]
      assms(1,2) by auto
  have "arp_resolve_ipv4 w ip = Inr (0, w')"
    using is_in_arp_cache_table [OF assms(1)] assms(3) w'
    by (simp add: arp_resolve_ipv4_def Let_def net_interface_broadcast_def packet del: append.simps)
  then show ?thesis using hd handled_emit(2) [OF es] by blast
qed

section \<open>Lifecycle\<close>

lemma arp_init_ok:
  assumes "net_ok w"
  shows "\<exists>w'. arp_init w = Inr w' \<and> arp_ok w' \<and> w' = w\<lparr> arp_cache := arp_cache w' \<rparr> \<and> arp_table w' = Map.empty"
proof -
  obtain m where m: "hashmap_alloc ARP_CACHE_INITIAL_SIZE arp_hash arp_equals = Some (m :: (arp_key, nat) hashmap)"
    "hm_inv m" "hm_hash m = arp_hash" "hm_equals m = arp_equals" "hm_size m = 0" "hm_lookup m = (\<lambda>_. None)"
    using hashmap_alloc_correct [of ARP_CACHE_INITIAL_SIZE arp_hash arp_equals, where 'b = nat]
      arpkey.hash_key_axioms by auto
  have "stored_keys m = {}" using hm_invD(3) [OF m(2)] m(5) by (simp add: stored_keys_def)
  then have "cache_ok m cells" for cells using m by (simp add: cache_ok_def)
  then have "arp_ok (w\<lparr> arp_cache := Some m \<rparr>)" using assms by (simp add: arp_ok_def net_ok_def tun_ok_def)
  moreover have "arp_table (w\<lparr> arp_cache := Some m \<rparr>) = Map.empty"
    by (rule table_eqI) (simp add: arp_table_def m(6))
  moreover have "arp_init w = Inr (w\<lparr> arp_cache := Some m \<rparr>)" using m(1) by (simp add: arp_init_def)
  ultimately show ?thesis by (intro exI [of _ "w\<lparr> arp_cache := Some m \<rparr>"]) simp
qed

text \<open>The rounds of the dump follow the used slots of the array.\<close>

lemma dump_loop_entries:
  assumes "it_map it = Some m" and "it_index it < hm_capacity m"
    and "length (used_from m (it_pos it)) < n"
    and "\<forall>j \<in> set (used_from m (it_pos it)). 0 < snd (entry m j) \<and> snd (entry m j) \<le> length cells"
  shows "dump_loop n (Some b) cells it =
    Inr (concat (map (\<lambda>(k, a). cache_line (key_word k) (cell_mac cells a)) (map (entry m) (used_from m (it_pos it)))),
         map (entry m) (used_from m (it_pos it)))"
  using assms
proof (induction n arbitrary: it)
  case (Suc n)
  show ?case
  proof (cases "used_from m (it_pos it)")
    case Nil
    then show ?thesis using it_next_none(2) [OF Suc.prems(1,2) Nil] by simp
  next
    case (Cons j js)
    note j = used_from_skip [OF Cons]
    let ?it = "it\<lparr>it_index := j, it_consumed := False\<rparr>"
    have pos: "it_map ?it = Some m" "it_index ?it < hm_capacity m"
      "used_from m (it_pos ?it) = j # js"
      using Suc.prems j by (auto simp: it_pos_def used_from_Cons)
    let ?it2 = "?it\<lparr>it_index := j, it_consumed := True\<rparr>"
    have pos2: "used_from m (it_pos ?it2) = js" using j by (simp add: it_pos_def)
    have rest: "dump_loop n (Some b) cells ?it2 =
        Inr (concat (map (\<lambda>(k, a). cache_line (key_word k) (cell_mac cells a)) (map (entry m) js)), map (entry m) js)"
      using Suc.IH [of ?it2] Suc.prems j pos2 Cons by simp
    have cell: "0 < snd (entry m j)" "snd (entry m j) \<le> length cells" using Suc.prems(4) Cons by simp_all
    obtain k a where "entry m j = (k, a)" by (cases "entry m j")
    then show ?thesis
      using it_next_some(2) [OF Suc.prems(1,2) Cons] it_next_some(1) [OF pos] rest cell Cons
      by (simp add: cell_mac_def)
  qed
qed simp

lemma entry_lookup:
  assumes "hm_inv m" and "j \<in> set (used_from m 0)"
  shows "hm_lookup m (fst (entry m j)) = Some (snd (entry m j))" and "fst (entry m j) \<in> stored_keys m"
proof -
  have "holds_at m (key_at m j) j"
    using assms hm_inv_equals(1) [OF assms(1)] by (simp add: holds_at_def used_from_def)
  then show "hm_lookup m (fst (entry m j)) = Some (snd (entry m j))"
    using hm_lookup_holds [OF assms(1)] by (simp add: entry_def)
  show "fst (entry m j) \<in> stored_keys m"
    using assms(2) by (auto simp: stored_keys_def used_set_def used_from_def entry_def)
qed

lemma lookup_entry:
  assumes "hm_inv m" and "hm_lookup m k = Some a"
  shows "\<exists>j \<in> set (used_from m 0). hm_equals m k (fst (entry m j)) \<and> snd (entry m j) = a"
  using hm_lookup_SomeE [OF assms] by (auto simp: holds_at_def used_from_def entry_def)

text \<open>The entries of a valid cache, as the dump meets them, are its table.\<close>

lemma cache_entries:
  assumes c: "cache_ok m cells"
  defines "freed \<equiv> map (entry m) (used_from m 0)"
  shows "fst ` set freed \<subseteq> range HeapKey" and "distinct (map (key_word \<circ> fst) freed)" and "distinct (map snd freed)"
    and "hm_lookup m (StackKey k) = Some a \<longleftrightarrow> (HeapKey k, a) \<in> set freed"
proof -
  note inv = cache_okD(1) [OF c]
  let ?us = "used_from m 0"
  show heap: "fst ` set freed \<subseteq> range HeapKey"
    using cache_okD(4) [OF c] entry_lookup(2) [OF inv] by (auto simp: freed_def)
  have words: "i = j" if "i \<in> set ?us" "j \<in> set ?us" "key_word (fst (entry m i)) = key_word (fst (entry m j))" for i j
    using that inv cache_okD(2) [OF c]
    by (auto simp: hm_inv_def used_set_def used_from_def entry_def arp_equals_def)
  have d: "distinct ?us" by (simp add: used_from_def)
  then show "distinct (map (key_word \<circ> fst) freed)"
    using words by (auto simp: distinct_map inj_on_def freed_def)
  have "i = j" if "i \<in> set ?us" "j \<in> set ?us" "snd (entry m i) = snd (entry m j)" for i j
    using that words entry_lookup(1) [OF inv] cache_okD(6) [OF c] by metis
  then show "distinct (map snd freed)"
    using d by (auto simp: distinct_map inj_on_def freed_def)
  have same: "hm_lookup m (StackKey k) = hm_lookup m (HeapKey k)"
    using hm_lookup_cong [OF inv, of "HeapKey k" "StackKey k"] cache_okD(2) [OF c] by (simp add: arp_equals_def)
  show "hm_lookup m (StackKey k) = Some a \<longleftrightarrow> (HeapKey k, a) \<in> set freed"
  proof
    assume "hm_lookup m (StackKey k) = Some a"
    then obtain j where j: "j \<in> set ?us" "key_word (fst (entry m j)) = k" "snd (entry m j) = a"
      using lookup_entry [OF inv, of "StackKey k" a] cache_okD(2) [OF c] by (auto simp: arp_equals_def)
    moreover have "fst (entry m j) \<in> range HeapKey" using heap j(1) by (auto simp: freed_def)
    ultimately have "entry m j = (HeapKey k, a)" by (auto simp: prod_eq_iff)
    then show "(HeapKey k, a) \<in> set freed" using j(1) by (force simp: freed_def)
  next
    assume "(HeapKey k, a) \<in> set freed"
    then obtain j where "j \<in> set ?us" "entry m j = (HeapKey k, a)"
      unfolding freed_def by (metis (no_types, lifting) imageE list.set_map)
    then show "hm_lookup m (StackKey k) = Some a" using entry_lookup(1) [OF inv] same by fastforce
  qed
qed

section \<open>Properties\<close>

text \<open>
  C4. Receiving an ARP packet of any content with a free queue follows RFC 826: the call returns,
  the cache becomes the table the RFC prescribes (refresh a known sender, add an unknown one only
  if this host is the target, ignore unsupported packets), exactly the prescribed reply is sent (to
  the sender, with the addresses swapped and the own ones filled in, in network byte order) or
  nothing, and the invariant of the cache and the own addresses are kept.
\<close>

theorem arp_receive_follows_rfc826:
  assumes "arp_ok w" and "some_free w" and "arp_end \<le> length buf"
  shows "\<exists>w' buf'. arp_receive w buf = Inr (w', buf') \<and>
    arp_ok w' \<and> some_free w' \<and> ni_ip w' = ni_ip w \<and> ni_mac w' = ni_mac w \<and>
    arp_table w' = rfc826_table (ni_ip w) (arp_table w)
      (arp_header_ntoh (get_at arp_header_of buf arp_off)) (get_at arp_ipv4_of buf arp_data_off) \<and>
    frames_of (trace w') = frames_of (trace w) @ rfc826_frames (ni_ip w) (ni_mac w)
      (arp_header_ntoh (get_at arp_header_of buf arp_off)) (get_at arp_ipv4_of buf arp_data_off)"
  using arp_receive_handled [OF assms refl refl] by (auto simp: handled_def)

definition sample_arp :: arp_state where
  "sample_arp = net_state.extend (sample_net (replicate 10 False))
     \<lparr> arp_cache = hashmap_alloc ARP_CACHE_INITIAL_SIZE arp_hash arp_equals, arp_cells = [] \<rparr>"

definition sample_peer :: mac where
  "sample_peer = MAC 2 0 0 0 0 9"

definition sample_request :: bytes where
  "sample_request = eth_frame BROADCAST sample_peer ETH_P_ARP
     (arp_packet ARP_REQUEST sample_peer (u32_of 10 0 0 9) 0 (u32_of 10 0 0 4)) @ replicate 58 0"

lemma sample_arp_simps:
  "ni_ip sample_arp = u32_of 10 0 0 4" "ni_mac sample_arp = MAC 2 0 0 0 0 4" "trace sample_arp = []"
  "busy_status sample_arp = replicate 10 False" "arp_cells sample_arp = []"
  by (simp_all add: sample_arp_def sample_net_def net_state.defs)

lemma sample_arp_ok: "arp_ok sample_arp" "some_free sample_arp" "arp_table sample_arp = Map.empty"
proof -
  have n: "net_ok sample_arp"
    using sample_net_ok [of "replicate 10 False"]
    by (simp add: sample_arp_def net_ok_def tun_ok_def net_state.defs)
  obtain w' where w': "arp_init sample_arp = Inr w'" "arp_ok w'" "w' = sample_arp\<lparr> arp_cache := arp_cache w' \<rparr>"
    "arp_table w' = Map.empty" using arp_init_ok [OF n] by blast
  have "arp_cache sample_arp = hashmap_alloc ARP_CACHE_INITIAL_SIZE arp_hash arp_equals"
    by (simp add: sample_arp_def net_state.defs)
  then have "arp_cache w' = arp_cache sample_arp"
    using w'(1) by (cases "hashmap_alloc ARP_CACHE_INITIAL_SIZE arp_hash arp_equals :: (arp_key, nat) hashmap option")
      (auto simp: arp_init_def)
  then have "w' = sample_arp" using w'(3) by simp
  then show "arp_ok sample_arp" "arp_table sample_arp = Map.empty" using w' by simp_all
  show "some_free sample_arp" by (simp add: some_free_def sample_arp_simps exI [of _ 0])
qed

lemma sample_request_fields:
  "arp_header_ntoh (get_at arp_header_of sample_request arp_off) =
     \<lparr> hw_type = 1, pro_type = 0x0800, hw_size = 6, pro_size = 4, opcode = 1 \<rparr>"
  "get_at arp_ipv4_of sample_request arp_data_off =
     \<lparr> arp_src_mac = sample_peer, arp_src_ip = u32_of 10 0 0 9, arp_dst_mac = 0, arp_dst_ip = u32_of 10 0 0 4 \<rparr>"
  "length sample_request = 100"
  by code_simp+

theorem arp_receive_follows_rfc826_witness:
  "\<exists>w' buf'. arp_receive sample_arp sample_request = Inr (w', buf') \<and>
     arp_table w' (ARP_IPV4, u32_of 10 0 0 9) = Some sample_peer \<and>
     frames_of (trace w') = [eth_frame sample_peer (MAC 2 0 0 0 0 4) ETH_P_ARP
       (arp_packet ARP_REPLY (MAC 2 0 0 0 0 4) (u32_of 10 0 0 4) sample_peer (u32_of 10 0 0 9))]"
  using arp_receive_follows_rfc826 [OF sample_arp_ok(1,2), of sample_request]
  by (auto simp: sample_request_fields sample_arp_simps sample_arp_ok(3) rfc826_table_def rfc826_frames_def arp_supported_def)

text \<open>
  C22. \<^verbatim>\<open>arp_resolve_ipv4\<close>: a cached address gives a non-null pointer to its hardware address without
  sending anything or changing the state; an unknown one gives \<^verbatim>\<open>NULL\<close> after exactly one broadcast
  request for it, and does not enter the cache.
\<close>

theorem arp_resolve_ipv4_result:
  assumes "arp_ok w" and "some_free w"
  shows "case arp_table w (ARP_IPV4, ip) of
      Some x \<Rightarrow> \<exists>p. arp_resolve_ipv4 w ip = Inr (p, w) \<and> 0 < p \<and> p \<le> length (arp_cells w) \<and> arp_cells w ! (p - 1) = x
    | None \<Rightarrow> \<exists>w'. arp_resolve_ipv4 w ip = Inr (0, w') \<and> arp_ok w' \<and> arp_table w' = arp_table w \<and>
        frames_of (trace w') = frames_of (trace w) @ [eth_frame BROADCAST (ni_mac w) ETH_P_ARP
          (arp_packet ARP_REQUEST (ni_mac w) (ni_ip w) BROADCAST ip)]"
proof (cases "arp_table w (ARP_IPV4, ip)")
  case None
  then show ?thesis using arp_resolve_unknown [OF assms None] by (auto simp: handled_def)
next
  case (Some x)
  then show ?thesis using arp_resolve_known [OF assms(1) Some] by auto
qed

theorem arp_resolve_ipv4_result_witness:
  "\<exists>w'. arp_resolve_ipv4 sample_arp (u32_of 10 0 0 7) = Inr (0, w') \<and>
     frames_of (trace w') = [eth_frame BROADCAST (MAC 2 0 0 0 0 4) ETH_P_ARP
       (arp_packet ARP_REQUEST (MAC 2 0 0 0 0 4) (u32_of 10 0 0 4) BROADCAST (u32_of 10 0 0 7))]"
  using arp_resolve_ipv4_result [OF sample_arp_ok(1,2), of "u32_of 10 0 0 7"]
  by (auto simp: sample_arp_ok(3) sample_arp_simps)

lemma arp_destroy_entries:
  assumes m: "arp_cache w = Some m" and c: "cache_ok m (arp_cells w)"
  shows "arp_destroy (Some b) w = Inr (map (entry m) (used_from m 0), hm_array m,
    emit (LOG_DEBUG (''[ARP] Dumping cache '' @ show_int (hashmap_size m) @ '' :'' @ newline) @
      concat (map (\<lambda>(k, a). cache_line (key_word k) (cell_mac (arp_cells w) a)) (map (entry m) (used_from m 0)))) w)"
proof -
  note inv = cache_okD(1) [OF c]
  let ?it = "hashmap_it_set_map hashmap_it_alloc m" and ?us = "used_from m 0"
  have it: "it_map ?it = Some m" "it_index ?it < hm_capacity m" "it_pos ?it = 0"
    using hm_shapeD(2) [OF hm_invD(2) [OF inv]]
    by (simp_all add: hashmap_it_set_map_def hashmap_it_reset_def it_pos_def)
  have len: "length ?us < hm_capacity m + 1" using length_filter_le [of "used_at m" "[0..<hm_capacity m]"]
    by (simp add: used_from_def)
  have cells: "0 < snd (entry m j)" "snd (entry m j) \<le> length (arp_cells w)" if "j \<in> set ?us" for j
    using cache_okD(5) [OF c entry_lookup(1) [OF inv that]] by simp_all
  have "dump_loop (hm_capacity m + 1) (Some b) (arp_cells w) ?it =
      Inr (concat (map (\<lambda>(k, a). cache_line (key_word k) (cell_mac (arp_cells w) a)) (map (entry m) ?us)), map (entry m) ?us)"
    using dump_loop_entries [OF it(1,2), of "hm_capacity m + 1" "arp_cells w" b] it(3) len cells by auto
  then show ?thesis
    using m by (simp add: arp_destroy_def free_hashmap_def Let_def hashmap_capacity_def del: append.simps dump_loop.simps)
qed

lemma arp_destroy_ok:
  assumes "arp_ok w"
  shows "\<exists>freed array es. arp_destroy (Some b) w = Inr (freed, array, emit es w) \<and>
    map_option hm_array (arp_cache w) = Some array \<and>
    map (\<lambda>(k, a). \<lparr> el_used = True, el_key = k, el_value = a \<rparr>) freed = filter el_used array \<and>
    fst ` set freed \<subseteq> range HeapKey \<and> distinct (map (key_word \<circ> fst) freed) \<and> distinct (map snd freed) \<and>
    (\<forall>pro ip x. arp_table w (pro, ip) = Some x \<longleftrightarrow>
       (\<exists>a. (HeapKey (to_key pro ip), a) \<in> set freed \<and> cell_mac (arp_cells w) a = x)) \<and>
    frames_of es = []"
proof -
  from assms obtain m where m: "arp_cache w = Some m" and c: "cache_ok m (arp_cells w)"
    by (rule arp_okE)
  let ?freed = "map (entry m) (used_from m 0)"
  let ?out = "concat (map (\<lambda>(k, a). cache_line (key_word k) (cell_mac (arp_cells w) a)) ?freed)"
  have arr: "map_option hm_array (arp_cache w) = Some (hm_array m)" using m by simp
  have tbl: "arp_table w (pro, ip) = Some x \<longleftrightarrow>
      (\<exists>a. (HeapKey (to_key pro ip), a) \<in> set ?freed \<and> cell_mac (arp_cells w) a = x)" for pro ip x
    using m cache_entries(4) [OF c] by (auto simp: arp_table_def)
  have fr: "frames_of (concat (map (\<lambda>(k, a). cache_line (key_word k) (f a)) kas)) = []" for kas f
    by (induction kas) (auto simp: cache_line_def)
  let ?es = "LOG_DEBUG (''[ARP] Dumping cache '' @ show_int (hashmap_size m) @ '' :'' @ newline) @ ?out"
  have "frames_of ?es = []" using fr by (simp only: frames_of_append frames_of_log append_Nil)
  with arp_destroy_entries [OF m c, of b] show ?thesis
    using cache_entries(1-3) [OF c] tbl used_entries [OF cache_okD(1) [OF c]] arr
    by (intro exI [of _ ?freed] exI [of _ "hm_array m"] exI [of _ ?es]) blast
qed



text \<open>
  C21. A host learns from the packets it gets: after a request or reply for this host from a sender,
  resolving the sender's address gives the hardware address of that packet and sends nothing.
\<close>

theorem arp_receive_then_resolve:
  assumes "arp_ok w" and "some_free w" and "arp_end \<le> length buf"
    and "arp_supported (arp_header_ntoh (get_at arp_header_of buf arp_off))"
    and "c = get_at arp_ipv4_of buf arp_data_off" and "arp_dst_ip c = ni_ip w"
  shows "\<exists>w' buf' p. arp_receive w buf = Inr (w', buf') \<and>
    arp_resolve_ipv4 w' (arp_src_ip c) = Inr (p, w') \<and> arp_cells w' ! (p - 1) = arp_src_mac c"
proof -
  obtain w' buf' where r: "arp_receive w buf = Inr (w', buf')"
    and hd: "handled w (rfc826_table (ni_ip w) (arp_table w) (arp_header_ntoh (get_at arp_header_of buf arp_off)) c)
      (rfc826_frames (ni_ip w) (ni_mac w) (arp_header_ntoh (get_at arp_header_of buf arp_off)) c) w'"
    using arp_receive_handled [OF assms(1-3) refl assms(5)] by blast
  have "arp_ok w'" "arp_table w' (ARP_IPV4, arp_src_ip c) = Some (arp_src_mac c)"
    using hd assms(4,6) by (simp_all add: handled_def rfc826_table_def)
  then obtain p where "arp_resolve_ipv4 w' (arp_src_ip c) = Inr (p, w')" "arp_cells w' ! (p - 1) = arp_src_mac c"
    using arp_resolve_known by blast
  with r show ?thesis by blast
qed

theorem arp_receive_then_resolve_witness:
  "\<exists>w' buf' p. arp_receive sample_arp sample_request = Inr (w', buf') \<and>
     arp_resolve_ipv4 w' (u32_of 10 0 0 9) = Inr (p, w') \<and> arp_cells w' ! (p - 1) = sample_peer"
  using arp_receive_then_resolve [OF sample_arp_ok(1,2), of sample_request, OF _ _ refl]
  by (simp add: sample_request_fields arp_supported_def sample_arp_simps)

end
