(* ===== verification/Ip_Correct.thy ===== *)
theory Ip_Correct
  imports Ip Arp_Props
begin

text \<open>Correctness of the sending side of IPv4: checksums, the packets sent, and the failures.\<close>

section \<open>The header\<close>

lemma ip_bytes_checksum [simp]:
  "ip_bytes_before (h\<lparr> ip_checksum := c \<rparr>) = ip_bytes_before h"
  "ip_bytes_after (h\<lparr> ip_checksum := c \<rparr>) = ip_bytes_after h"
  by (simp_all add: ip_bytes_before_def ip_bytes_after_def)

lemma update_checksum_valid: "ip_header_check (ip_header_update_checksum h)"
  using checksum_fill_verifies [of "ip_bytes_before h" "ip_bytes_after h"]
  by (simp add: ip_header_check_def ip_header_update_checksum_def ip_bytes_def Let_def)

lemma update_checksum_fields [simp]:
  "version_and_header_len (ip_header_update_checksum h) = version_and_header_len h"
  "service_type (ip_header_update_checksum h) = service_type h"
  "ip_len (ip_header_update_checksum h) = ip_len h"
  "ip_index (ip_header_update_checksum h) = ip_index h"
  "flags_and_fragment_offset (ip_header_update_checksum h) = flags_and_fragment_offset h"
  "ttl (ip_header_update_checksum h) = ttl h"
  "protocol (ip_header_update_checksum h) = protocol h"
  "src_addr (ip_header_update_checksum h) = src_addr h"
  "dst_addr (ip_header_update_checksum h) = dst_addr h"
  by (simp_all add: ip_header_update_checksum_def Let_def)

lemma ip_ntoh_hton [simp]: "ip_header_ntoh (ip_header_hton h) = h" "ip_header_hton (ip_header_ntoh h) = h"
  by (simp_all add: ip_header_ntoh_def ip_header_hton_def)

lemma ip_hton_fields [simp]:
  "ip_len (ip_header_hton h) = htons (ip_len h)" "src_addr (ip_header_hton h) = htonl (src_addr h)"
  "dst_addr (ip_header_hton h) = htonl (dst_addr h)" "protocol (ip_header_hton h) = protocol h"
  by (simp_all add: ip_header_hton_def)

lemma payload_length:
  "ip_size \<le> unat (ip_len h) \<Longrightarrow>
   unat (ucast (ip_header_get_payload_length h) :: u32) = unat (ip_len h) - ip_size"
proof -
  assume len: "ip_size \<le> unat (ip_len h)"
  have u: "unat (ucast (ip_len h) :: u64) = unat (ip_len h)"
    using unat_u16_bound [of "ip_len h"] by (simp add: unsigned_ucast_eq take_bit_eq_mod)
  have "of_nat ip_size \<le> (ucast (ip_len h) :: u64)"
    using len by (simp add: word_le_nat_alt u)
  then have "unat (ip_header_get_payload_length h) = unat (ip_len h) - ip_size"
    unfolding ip_header_get_payload_length_def by (simp add: unat_sub u)
  moreover have "unat (ip_len h) - ip_size < 2 ^ 32" using unat_u16_bound [of "ip_len h"] by simp
  ultimately show ?thesis by (simp add: unsigned_ucast_eq take_bit_eq_mod)
qed

lemma resolve_deref:
  assumes "arp_ok w" and "arp_table w (ARP_IPV4, ip) = Some mac"
  shows "\<exists>p. arp_resolve_ipv4 w ip = Inr (p, w) \<and> deref_mac w p = Some mac \<and> 0 < p"
  by (rule arp_resolve_known [OF assms]) (auto simp: deref_mac_def)

section \<open>The packet on the wire\<close>

text \<open>The header in network byte order, with its checksum, and the payload.\<close>

definition ip_packet :: "ip_header \<Rightarrow> bytes \<Rightarrow> bytes" where
  "ip_packet h payload = ip_bytes (ip_header_update_checksum (ip_header_hton h)) @ payload"

lemma ip_send_packet_resolved:
  assumes ok: "arp_ok w" "some_free w"
    and h: "h = get_at ip_of buf off" and len: "ip_size \<le> unat (ip_len h)" "off + unat (ip_len h) \<le> length buf"
    and known: "arp_table w (ARP_IPV4, htonl (dst_addr h)) = Some mac"
  shows "\<exists>w' buf'. ip_send_packet w buf off = Inr (w', buf') \<and> length buf' = length buf \<and>
    handled w (arp_table w) [eth_frame mac (ni_mac w) ETH_P_IP
      (ip_packet h (slice buf (off + ip_size) (unat (ip_len h) - ip_size)))] w'"
proof -
  let ?h = "ip_header_update_checksum (ip_header_hton h)" and ?n = "unat (ip_len h)"
  let ?buf = "put_at ip_bytes buf off ?h"
  have room: "off + ip_size \<le> length buf" using len by linarith
  then have lb: "length ?buf = length buf" by (simp add: iph.length_put)
  obtain p where p: "arp_resolve_ipv4 w (htonl (dst_addr h)) = Inr (p, w)" "deref_mac w p = Some mac" "0 < p"
    using resolve_deref [OF ok(1) known] by blast
  have n: "unat (ucast (ip_len h) :: u32) = ?n" by simp
  have fits: "?n \<le> length (drop off ?buf)" using len lb by simp
  have small: "eth_size + ?n < 2 ^ 31" using unat_u16_bound [of "ip_len h"] by simp
  obtain w' where w': "net_interface_send w (drop off ?buf) (ucast (ip_len h)) (Some mac) ETH_P_IP = Inr w'"
    "handled w (arp_table w) [eth_frame mac (ni_mac w) ETH_P_IP (take ?n (drop off ?buf))] w'"
    using send_handled [OF ok n fits small] by blast
  have "take ?n (drop off ?buf) = slice ?buf off (ip_size + (?n - ip_size))"
    using len(1) by (simp add: slice_def)
  also have "\<dots> = slice ?buf off ip_size @ slice ?buf (off + ip_size) (?n - ip_size)"
    by (rule slice_append_split)
  also have "\<dots> = ip_packet h (slice buf (off + ip_size) (?n - ip_size))"
    using room by (simp add: ip_packet_def iph.slice_put_same iph.slice_put_after)
  finally have "take ?n (drop off ?buf) = ip_packet h (slice buf (off + ip_size) (?n - ip_size))" .
  moreover have "ip_send_packet w buf off = Inr (w', ?buf)"
    using room p w'(1) by (simp add: ip_send_packet_def Let_def h [symmetric])
  ultimately show ?thesis using w'(2) lb by auto
qed

lemma ip_send_packet_unresolved:
  assumes ok: "arp_ok w" "some_free w" and h: "h = get_at ip_of buf off" and room: "off + ip_size \<le> length buf"
    and unknown: "arp_table w (ARP_IPV4, htonl (dst_addr h)) = None"
  shows "\<exists>w'. ip_send_packet w buf off = Inl (Exit 1 w') \<and>
    handled w (arp_table w) [eth_frame BROADCAST (ni_mac w) ETH_P_ARP
      (arp_packet ARP_REQUEST (ni_mac w) (ni_ip w) BROADCAST (htonl (dst_addr h)))] w'"
proof -
  obtain w1 where w1: "arp_resolve_ipv4 w (htonl (dst_addr h)) = Inr (0, w1)"
    and hd: "handled w (arp_table w) [eth_frame BROADCAST (ni_mac w) ETH_P_ARP
      (arp_packet ARP_REQUEST (ni_mac w) (ni_ip w) BROADCAST (htonl (dst_addr h)))] w1"
    using arp_resolve_unknown [OF ok unknown] by blast
  let ?es = "ERROR ''IPv4: Could not resolve MAC address for '' @ [Stderr (ipv4_fprint (dst_addr h)), Stdout newline]"
  have "ip_send_packet w buf off = Inl (Exit 1 (emit ?es w1))"
    using room w1 by (simp add: ip_send_packet_def Let_def h [symmetric])
  moreover have "frames_of ?es = []" by simp
  ultimately show ?thesis using hd handled_emit(1) [of ?es] by metis
qed

text \<open>A length field past the end of the block makes the send read past the block.\<close>

lemma ip_send_packet_overrun:
  assumes ok: "arp_ok w" "some_free w" and h: "h = get_at ip_of buf off" and room: "off + ip_size \<le> length buf"
    and len: "length buf < off + unat (ip_len h)"
    and known: "arp_table w (ARP_IPV4, htonl (dst_addr h)) = Some mac"
  shows "\<exists>w'. ip_send_packet w buf off = Inl (OutOfBounds w')"
proof -
  let ?h = "ip_header_update_checksum (ip_header_hton h)"
  let ?buf = "put_at ip_bytes buf off ?h" and ?len = "ucast (ip_len h) :: u32"
  obtain p where p: "arp_resolve_ipv4 w (htonl (dst_addr h)) = Inr (p, w)" "deref_mac w p = Some mac" "0 < p"
    using resolve_deref [OF ok(1) known] by blast
  have tok: "tun_ok w" "net_ok w" using ok(1) by (simp_all add: arp_ok_def net_ok_def)
  note av = available_free [OF tok(1) ok(2)]
  have "unat ?len = unat (ip_len h)" by simp
  then have sz: "?len + of_nat eth_size \<noteq> 0"
    using total_size(3) [of ?len] unat_u16_bound [of "ip_len h"] by simp
  obtain b where "ensure_has_size w (first_free w) (?len + of_nat eth_size) =
      Inr (w\<lparr> ni_buffers := (ni_buffers w)[first_free w := Some b],
        ni_buffers_size := (ni_buffers_size w)[first_free w := max (ni_buffers_size w ! first_free w) (?len + of_nat eth_size)] \<rparr>)"
    using ensure_has_size_ok [OF tok(2) av(2) sz] by blast
  moreover have "length (ni_buffers w) = TUN_QUEUES" using tok(2) by (simp add: net_ok_def)
  moreover have "length (drop off ?buf) < unat ?len" using len room by (simp add: iph.length_put)
  ultimately have "\<exists>w'. net_interface_send w (drop off ?buf) ?len (Some mac) ETH_P_IP = Inl (OutOfBounds w')"
    using av by (simp add: net_interface_send_def Let_def fill_frame_def)
  then show ?thesis
    using room p by (auto simp: ip_send_packet_def Let_def h [symmetric])
qed

section \<open>Sending a payload\<close>

text \<open>The header of a datagram that \<^verbatim>\<open>ip_send\<close> builds, in host byte order, before its checksum.\<close>

definition datagram_header :: "u32 \<Rightarrow> u32 \<Rightarrow> u8 \<Rightarrow> nat \<Rightarrow> ip_header" where
  "datagram_header src dst proto n =
     \<lparr> version_and_header_len = 0x45, service_type = 0, ip_len = of_nat (ip_size + n), ip_index = 7,
       flags_and_fragment_offset = 0, ttl = 64, protocol = proto, ip_checksum = 0,
       src_addr = src, dst_addr = dst \<rparr>"

lemma ip_packet_checksum: "ip_packet (h\<lparr> ip_checksum := c \<rparr>) p = ip_packet h p"
  by (simp add: ip_packet_def ip_header_update_checksum_def ip_header_hton_def Let_def)

text \<open>What the receiver of a packet reads.\<close>

lemma ip_of_packet: "ip_of (ip_packet h p) = ip_header_update_checksum (ip_header_hton h)"
  by (simp add: ip_packet_def iph.dec_enc)

lemma ip_packet_valid: "ip_header_check (ip_of (ip_packet h p))"
  by (simp add: ip_of_packet update_checksum_valid)

lemma alloc_header:
  obtains c where "get_at ip_of (ip_header_alloc len) 0 =
      (datagram_header 0 0 0 0)\<lparr> ip_len := of_nat ip_size + len, ip_checksum := c \<rparr>"
    and "length (ip_header_alloc len) = ip_size + unat len"
proof -
  let ?h = "(datagram_header 0 0 0 0)\<lparr> ip_len := of_nat ip_size + len \<rparr>"
  have "(get_at ip_of (replicate (ip_size + unat len) 0) 0)\<lparr> version_and_header_len := push_bit 4 4 + 5,
      service_type := 0, ip_len := of_nat ip_size + len, ip_index := 7, flags_and_fragment_offset := 0, ttl := 64,
      protocol := 0, ip_checksum := 0, src_addr := 0, dst_addr := 0 \<rparr> = ?h"
    by (simp add: datagram_header_def)
  then have "ip_header_alloc len =
      put_at ip_bytes (replicate (ip_size + unat len) 0) 0 (?h\<lparr> ip_checksum := internet_checksum (ip_bytes ?h) \<rparr>)"
    by (simp only: ip_header_alloc_def Let_def)
  then show thesis by (intro that) (simp_all add: iph.get_put iph.length_put)
qed

lemma ip_send_handled:
  assumes ok: "arp_ok w" "some_free w" and len: "unat len = length payload" "length payload \<le> 65515"
    and known: "arp_table w (ARP_IPV4, htonl dst) = Some mac"
  shows "\<exists>w'. ip_send w dst (Some payload) len proto = Inr w' \<and>
    handled w (arp_table w) [eth_frame mac (ni_mac w) ETH_P_IP
      (ip_packet (datagram_header (htonl (ni_ip w)) dst (ucast proto) (length payload)) payload)] w'"
proof -
  let ?n = "length payload" and ?H = "datagram_header (htonl (ni_ip w)) dst (ucast proto) (length payload)"
  have l16: "unat (ucast len :: u16) = ?n" using len by (simp add: unsigned_ucast_eq take_bit_eq_mod)
  have "of_nat (unat (ucast len :: u16)) = (ucast len :: u16)" by (simp add: ucast_id)
  then have cast: "(ucast len :: u16) = of_nat ?n" by (simp only: l16)
  have n: "unat (ip_len ?H) = ip_size + ?n" 
  proof -
    have "ip_len ?H = of_nat (ip_size + ?n)" by (simp only: datagram_header_def ip_header.select_convs)
    then show ?thesis using len(2) by (simp only: unat_of_nat) simp
  qed
  obtain c where c: "get_at ip_of (ip_header_alloc (ucast len)) 0 =
      (datagram_header 0 0 0 0)\<lparr> ip_len := of_nat ip_size + ucast len, ip_checksum := c \<rparr>"
    and lb: "length (ip_header_alloc (ucast len)) = ip_size + unat (ucast len :: u16)"
    by (rule alloc_header)
  let ?h = "?H\<lparr> ip_checksum := c \<rparr>"
  have h: "(get_at ip_of (ip_header_alloc (ucast len)) 0)\<lparr> protocol := ucast proto,
      src_addr := ntohl (net_interface_get_ip w), dst_addr := dst \<rparr> = ?h"
    unfolding c by (simp add: datagram_header_def cast net_interface_get_ip_def)
  have buf: "patch (put_at ip_bytes (ip_header_alloc (ucast len)) 0 ?h) ip_size payload = ip_bytes ?h @ payload"
    using lb l16 by (simp add: put_at_def patch_def iph.enc_length)
  have get: "?h = get_at ip_of (ip_bytes ?h @ payload) 0" by (simp add: iph.get_append)
  have sl: "slice (ip_bytes ?h @ payload) ip_size (unat (ip_len ?H) - ip_size) = payload"
    using n by (simp add: slice_def iph.enc_length)
  obtain w' b' where "ip_send_packet w (ip_bytes ?h @ payload) 0 = Inr (w', b')"
    and hd: "handled w (arp_table w) [eth_frame mac (ni_mac w) ETH_P_IP
        (ip_packet ?h (slice (ip_bytes ?h @ payload) (0 + ip_size) (unat (ip_len ?h) - ip_size)))] w'"
    using ip_send_packet_resolved [OF ok get] n known by (auto simp: iph.enc_length datagram_header_def)
  moreover have "length (put_at ip_bytes (ip_header_alloc (ucast len)) 0 ?h) = ip_size + ?n"
    using lb l16 by (simp add: iph.length_put)
  ultimately have "ip_send w dst (Some payload) len proto = Inr w'"
    unfolding ip_send_def option.case Let_def h using len(1) buf by simp
  then show ?thesis using hd sl by (simp add: ip_packet_checksum)
qed

lemma ip_send_too_long:
  assumes "65536 \<le> unat len"
  shows "ip_send w dst (Some payload) len proto = Inl (OutOfBounds w)"
proof -
  have "length (ip_header_alloc (ucast len)) = ip_size + unat (ucast len :: u16)"
    by (rule alloc_header)
  then have "length (put_at ip_bytes (ip_header_alloc (ucast len)) 0 h) = ip_size + unat (ucast len :: u16)" for h
    by (simp add: iph.length_put)
  moreover have "unat (ucast len :: u16) < unat len"
    using unat_u16_bound [of "ucast len"] assms by linarith
  ultimately show ?thesis by (simp add: ip_send_def Let_def)
qed

section \<open>A state that knows a neighbour\<close>

text \<open>The state after the request of the host 10.0.0.9.\<close>

definition sample_known :: arp_state where
  "sample_known = (case arp_receive sample_arp sample_request of Inr (w, buf) \<Rightarrow> w | Inl e \<Rightarrow> sample_arp)"

lemma sample_known:
  "arp_ok sample_known" "some_free sample_known"
  "arp_table sample_known = [(ARP_IPV4, u32_of 10 0 0 9) \<mapsto> sample_peer]"
  "ni_ip sample_known = u32_of 10 0 0 4" "ni_mac sample_known = MAC 2 0 0 0 0 4"
proof -
  obtain w' buf' where r: "arp_receive sample_arp sample_request = Inr (w', buf')" and
    hd: "handled sample_arp (rfc826_table (ni_ip sample_arp) (arp_table sample_arp)
        (arp_header_ntoh (get_at arp_header_of sample_request arp_off)) (get_at arp_ipv4_of sample_request arp_data_off))
      (rfc826_frames (ni_ip sample_arp) (ni_mac sample_arp)
        (arp_header_ntoh (get_at arp_header_of sample_request arp_off)) (get_at arp_ipv4_of sample_request arp_data_off)) w'"
    using arp_receive_handled [OF sample_arp_ok(1,2) _ refl refl, of sample_request] sample_request_fields(3) by auto
  have k: "sample_known = w'" by (simp add: sample_known_def r)
  show "arp_ok sample_known" "some_free sample_known"
    "arp_table sample_known = [(ARP_IPV4, u32_of 10 0 0 9) \<mapsto> sample_peer]"
    "ni_ip sample_known = u32_of 10 0 0 4" "ni_mac sample_known = MAC 2 0 0 0 0 4"
    using hd by (simp_all add: k handled_def sample_request_fields sample_arp_simps sample_arp_ok(3)
        rfc826_table_def arp_supported_def)
qed

section \<open>Properties\<close>

text \<open>
  C20. \<^verbatim>\<open>ip_send\<close> of a payload of at most 65515 bytes to a host in the cache sends exactly one frame, to
  that host's hardware address: an IPv4 datagram whose header checksum verifies and whose fields, as
  the receiver reads them, are version 4, header length 5, the total length, the protocol, the own
  address and the destination, followed by the payload.
\<close>

theorem ip_send_emits_datagram:
  assumes "arp_ok w" and "some_free w" and "unat len = length payload" and "length payload \<le> 65515"
    and "arp_table w (ARP_IPV4, htonl dst) = Some mac"
  shows "\<exists>w' packet. ip_send w dst (Some payload) len proto = Inr w' \<and> arp_ok w' \<and> some_free w' \<and>
    frames_of (trace w') = frames_of (trace w) @ [eth_frame mac (ni_mac w) ETH_P_IP packet] \<and>
    ip_header_check (ip_of packet) \<and> drop ip_size packet = payload \<and>
    (ip_header_ntoh (ip_of packet))\<lparr> ip_checksum := 0 \<rparr> =
      \<lparr> version_and_header_len = 0x45, service_type = 0, ip_len = of_nat (ip_size + length payload), ip_index = 7,
        flags_and_fragment_offset = 0, ttl = 64, protocol = ucast proto, ip_checksum = 0,
        src_addr = htonl (ni_ip w), dst_addr = dst \<rparr>"
proof -
  let ?H = "datagram_header (htonl (ni_ip w)) dst (ucast proto) (length payload)"
  obtain w' where "ip_send w dst (Some payload) len proto = Inr w'"
    and "handled w (arp_table w) [eth_frame mac (ni_mac w) ETH_P_IP (ip_packet ?H payload)] w'"
    using ip_send_handled [OF assms] by blast
  moreover have "ip_header_check (ip_of (ip_packet ?H payload))" by (rule ip_packet_valid)
  moreover have "drop ip_size (ip_packet ?H payload) = payload" by (simp add: ip_packet_def iph.enc_length)
  moreover have "(ip_header_ntoh (ip_of (ip_packet ?H payload)))\<lparr> ip_checksum := 0 \<rparr> = ?H"
    by (simp add: ip_of_packet ip_header_ntoh_def ip_header_hton_def ip_header_update_checksum_def Let_def
        datagram_header_def del: of_nat_add)
  ultimately show ?thesis by (auto simp: handled_def datagram_header_def simp del: of_nat_add)
qed

theorem ip_send_emits_datagram_witness:
  "\<exists>w' packet. ip_send sample_known (u32_of 9 0 0 10) (Some [1, 2, 3]) 3 17 = Inr w' \<and>
     frames_of (trace w') = frames_of (trace sample_known) @ [eth_frame sample_peer (MAC 2 0 0 0 0 4) ETH_P_IP packet] \<and>
     ip_header_check (ip_of packet) \<and> drop ip_size packet = [1, 2, 3]"
proof -
  have "arp_table sample_known (ARP_IPV4, htonl (u32_of 9 0 0 10)) = Some sample_peer"
    by (simp add: sample_known(3) byte_simps)
  then show ?thesis
    using ip_send_emits_datagram [OF sample_known(1,2), of 3 "[1, 2, 3]" "u32_of 9 0 0 10" sample_peer 17]
    by (auto simp: sample_known(5))
qed

text \<open>
  C33. Sending to a host that is not in the cache ends the process: \<^verbatim>\<open>ip_send_packet\<close> broadcasts one ARP
  request for the destination and then calls \<^verbatim>\<open>exit(1)\<close> instead of waiting for the answer.
\<close>

theorem ip_send_packet_exits_if_unresolved:
  assumes "arp_ok w" and "some_free w" and "off + ip_size \<le> length buf"
    and "arp_table w (ARP_IPV4, htonl (dst_addr (get_at ip_of buf off))) = None"
  shows "\<exists>w'. ip_send_packet w buf off = Inl (Exit 1 w') \<and>
    frames_of (trace w') = frames_of (trace w) @ [eth_frame BROADCAST (ni_mac w) ETH_P_ARP
      (arp_packet ARP_REQUEST (ni_mac w) (ni_ip w) BROADCAST (htonl (dst_addr (get_at ip_of buf off))))]"
  using ip_send_packet_unresolved [OF assms(1,2) refl assms(3,4)] by (auto simp: handled_def)

theorem ip_send_packet_exits_if_unresolved_witness:
  "\<exists>w'. ip_send_packet sample_arp (replicate 20 0) 0 = Inl (Exit 1 w')"
  using ip_send_packet_exits_if_unresolved [OF sample_arp_ok(1,2), of 0 "replicate 20 0"]
  by (auto simp: sample_arp_ok(3))

text \<open>
  \<^verbatim>\<open>ip_send\<close> with a length of 65536 or more writes past the block it allocated: the length is cut to
  16 bits for the allocation and used in full for the copy.
\<close>

lemma ip_send_overflows_block:
  assumes "65536 \<le> unat len"
  shows "ip_send w dst (Some payload) len proto = Inl (OutOfBounds w)"
  by (rule ip_send_too_long [OF assms])

end
