(* ===== verification/Icmp_Correct.thy ===== *)
theory Icmp_Correct
  imports Ip_Correct Ip_Receive
begin

text \<open>The answer to an echo request, from the bytes received to the bytes sent.\<close>

section \<open>The reply to a message\<close>

text \<open>RFC 792: the type becomes 0, the checksum is computed anew, the rest is returned as it came.\<close>

definition echo_reply :: "bytes \<Rightarrow> bytes" where
  "echo_reply msg =
     (let data = drop icmp_size msg
      in [0, msg ! 1] @ u16_bytes (internet_checksum ([0, msg ! 1] @ u16_bytes 0 @ data)) @ data)"

lemma length_echo_reply: "icmp_size \<le> length msg \<Longrightarrow> length (echo_reply msg) = length msg"
  by (simp add: echo_reply_def Let_def)

lemma echo_reply_valid: "length msg \<le> 65535 \<Longrightarrow> internet_checksum (echo_reply msg) = 0"
  unfolding echo_reply_def Let_def by (rule checksum_fill_verifies) simp_all

section \<open>The buffer\<close>

lemma slice_put_icmp:
  assumes "off + m \<le> length buf" and "icmp_size \<le> m"
  shows "slice (put_at icmp_bytes buf off h) off m = icmp_bytes h @ slice buf (off + icmp_size) (m - icmp_size)"
proof -
  have "slice (put_at icmp_bytes buf off h) off (icmp_size + (m - icmp_size)) =
      icmp_bytes h @ slice buf (off + icmp_size) (m - icmp_size)"
    using assms
    by (subst slice_append_split) (simp add: icmph.slice_put_same icmph.slice_put_after)
  then show ?thesis using assms(2) by simp
qed

lemma receive_echo_request_handled:
  assumes ok: "arp_ok w" "some_free w" and H: "H = get_at ip_of buf ip_off"
    and n: "ip_size + icmp_size \<le> unat (ip_len H)" "ip_off + unat (ip_len H) \<le> length buf"
    and msg: "msg = slice buf ip_data_off (unat (ip_len H) - ip_size)"
    and known: "arp_table w (ARP_IPV4, htonl (src_addr H)) = Some mac"
  shows "\<exists>w' buf'. receive_echo_request w buf = Inr (w', buf') \<and> length buf' = length buf \<and>
    handled w (arp_table w) [eth_frame mac (ni_mac w) ETH_P_IP
      (ip_packet (H\<lparr> dst_addr := src_addr H, src_addr := htonl (ni_ip w) \<rparr>) (echo_reply msg))] w'"
proof -
  let ?len = "ucast (ip_header_get_payload_length H) :: u32" and ?m = "unat (ip_len H) - ip_size"
  have m: "unat ?len = ?m" using n(1) payload_length [of H] by linarith
  have room: "ip_data_off + ?m \<le> length buf" "icmp_size \<le> ?m" using n by linarith+
  then have "ip_data_off + icmp_size \<le> length buf" by linarith
  let ?h0 = "get_at icmp_of buf ip_data_off"
  let ?h1 = "?h0\<lparr> icmp_type := ICMP_ECHO_REPLY, icmp_checksum := 0 \<rparr>"
  let ?b1 = "put_at icmp_bytes buf ip_data_off ?h1"
  let ?h2 = "?h1\<lparr> icmp_checksum := internet_checksum (slice ?b1 ip_data_off ?m) \<rparr>"
  let ?b2 = "put_at icmp_bytes ?b1 ip_data_off ?h2"
  let ?H = "H\<lparr> dst_addr := src_addr H, src_addr := htonl (ni_ip w) \<rparr>"
  let ?b3 = "put_at ip_bytes ?b2 ip_off ?H"
  have lens: "length ?b1 = length buf" "length ?b2 = length buf" "length ?b3 = length buf"
    using room by (simp_all add: icmph.length_put iph.length_put)
  have code: "icmp_code ?h0 = msg ! 1" and lm: "length msg = ?m"
    using room by (simp_all add: get_at_def icmp_of_def msg slice_def)
  have data: "slice buf (ip_data_off + icmp_size) (?m - icmp_size) = drop icmp_size msg"
    by (simp add: msg slice_def drop_take add.commute)
  have s1: "slice ?b1 ip_data_off ?m = [0, msg ! 1] @ u16_bytes 0 @ drop icmp_size msg"
    using slice_put_icmp [OF room, of ?h1] data by (simp add: icmp_bytes_def code)
  have b2: "?b2 = put_at icmp_bytes buf ip_data_off ?h2"
    using room by (simp add: icmph.put_put)
  have "slice (put_at icmp_bytes buf ip_data_off ?h2) ip_data_off ?m = echo_reply msg"
    using slice_put_icmp [OF room, of ?h2] data
    by (simp add: icmp_bytes_def code s1 echo_reply_def Let_def del: One_nat_def)
  then have payload: "slice ?b3 ip_data_off ?m = echo_reply msg"
    using lens room b2 by (simp add: iph.slice_put_after)
  have get: "?H = get_at ip_of ?b3 ip_off" using lens room by (simp add: iph.get_put)
  have "\<exists>w' buf'. ip_send_packet w ?b3 ip_off = Inr (w', buf') \<and> length buf' = length ?b3 \<and>
      handled w (arp_table w) [eth_frame mac (ni_mac w) ETH_P_IP
        (ip_packet ?H (slice ?b3 (ip_off + ip_size) (unat (ip_len ?H) - ip_size)))] w'"
    by (rule ip_send_packet_resolved [OF ok get]) (use n lens known in simp_all)
  moreover have "receive_echo_request w buf = ip_send_packet w ?b3 ip_off"
    using lens room m \<open>ip_data_off + icmp_size \<le> length buf\<close>
    by (simp add: receive_echo_request_def Let_def H [symmetric] net_interface_get_ip_def)
  ultimately show ?thesis using payload lens by simp
qed

section \<open>Reception\<close>

text \<open>The header converted in place leaves the payload as it is.\<close>

lemma ip_buffer:
  assumes "ip_data_off \<le> length buf"
  shows "get_at ip_of (put_at ip_bytes buf ip_off H) ip_off = H"
    and "length (put_at ip_bytes buf ip_off H) = length buf"
    and "slice (put_at ip_bytes buf ip_off H) ip_data_off m = slice buf ip_data_off m"
    and "get_at f (put_at ip_bytes buf ip_off H) ip_data_off = get_at f buf ip_data_off"
  using assms by (simp_all add: iph.get_put iph.length_put iph.slice_put_after) (simp add: get_at_def iph.drop_put_after)

lemma ip_ntoh_fields [simp]:
  "ip_len (ip_header_ntoh h) = htons (ip_len h)" "src_addr (ip_header_ntoh h) = htonl (src_addr h)"
  "dst_addr (ip_header_ntoh h) = htonl (dst_addr h)" "protocol (ip_header_ntoh h) = protocol h"
  by (simp_all add: ip_header_ntoh_def)

lemma ip_receive_echo:
  assumes ok: "arp_ok w" "some_free w" and h: "h = get_at ip_of buf ip_off"
    and valid: "ip_header_check h" "protocol h = PROTOCOL_ICMP"
    and n: "n = unat (ntohs (ip_len h))" "ip_size + icmp_size \<le> n" "ip_off + n \<le> length buf"
    and msg: "msg = slice buf ip_data_off (n - ip_size)" "internet_checksum msg = 0" "msg ! 0 = ICMP_ECHO_REQUEST"
    and known: "arp_table w (ARP_IPV4, src_addr h) = Some mac"
  shows "\<exists>w' buf'. ip_receive w buf = Inr (w', buf') \<and> length buf' = length buf \<and>
    handled w (arp_table w) [eth_frame mac (ni_mac w) ETH_P_IP
      (ip_packet ((ip_header_ntoh h)\<lparr> dst_addr := htonl (src_addr h), src_addr := htonl (ni_ip w) \<rparr>) (echo_reply msg))] w'"
proof -
  let ?H = "ip_header_ntoh h"
  let ?buf = "put_at ip_bytes buf ip_off ?H"
  have room: "ip_data_off \<le> length buf" "ip_data_off + icmp_size \<le> length buf" using n by linarith+
  note b = ip_buffer [OF room(1), where H = ?H]
  have len: "unat (ip_len ?H) = n" using n(1) by simp
  then have m: "unat (ucast (ip_header_get_payload_length ?H) :: u32) = n - ip_size"
    using payload_length [of ?H] n(2) by linarith
  have type: "icmp_type (get_at icmp_of buf ip_data_off) = ICMP_ECHO_REQUEST"
    using msg(1,3) n room by (simp add: get_at_def icmp_of_def slice_def)
  have check: "icmp_check ?buf (ucast (ip_header_get_payload_length ?H)) = Some True"
    using m n msg(1,2) by (simp add: icmp_check_def b)
  have "ip_receive w buf = icmp_receive w ?buf"
    using room valid by (simp add: ip_receive_def Let_def h [symmetric])
  also have "\<dots> = receive_echo_request w ?buf"
    using room check type by (simp add: icmp_receive_def b)
  finally have run: "ip_receive w buf = receive_echo_request w ?buf" .
  have "\<exists>w' buf'. receive_echo_request w ?buf = Inr (w', buf') \<and> length buf' = length ?buf \<and>
    handled w (arp_table w) [eth_frame mac (ni_mac w) ETH_P_IP
      (ip_packet (?H\<lparr> dst_addr := src_addr ?H, src_addr := htonl (ni_ip w) \<rparr>) (echo_reply msg))] w'"
    by (rule receive_echo_request_handled [OF ok]) (use b len n msg(1) known in simp_all)
  then show ?thesis using run b(2) by simp
qed

section \<open>Every outcome of a packet\<close>

text \<open>
  How a handler may end on a buffer: it returns with the invariant, the own addresses and the length
  of the buffer kept; or the process exits because an address is not resolved; or, only if \<open>bad\<close>,
  memory outside the buffer is read.
\<close>

definition ends_well :: "'a arp_state_scheme \<Rightarrow> nat \<Rightarrow> bool \<Rightarrow> ('a arp_state_scheme, 'a arp_state_scheme \<times> bytes) run \<Rightarrow> bool" where
  "ends_well w n bad r = (case r of
     Inr (w', buf') \<Rightarrow> arp_ok w' \<and> some_free w' \<and> ni_ip w' = ni_ip w \<and> ni_mac w' = ni_mac w \<and> length buf' = n
   | Inl (Exit c w') \<Rightarrow> c = 1 \<and> arp_ok w'
   | Inl (OutOfBounds w') \<Rightarrow> bad
   | Inl _ \<Rightarrow> False)"

lemma ends_well_handled: "handled w t f w' \<Longrightarrow> length buf' = n \<Longrightarrow> ends_well w n bad (Inr (w', buf'))"
  by (simp add: ends_well_def handled_def)

lemma ends_well_emit:
  "arp_ok w \<Longrightarrow> some_free w \<Longrightarrow> length buf = n \<Longrightarrow> ends_well w n bad (Inr (emit es w, buf))"
  by (simp add: ends_well_def)

lemma ip_send_packet_ends_well:
  assumes ok: "arp_ok w" "some_free w" and h: "h = get_at ip_of buf off"
    and len: "ip_size \<le> unat (ip_len h)" "off + unat (ip_len h) \<le> length buf"
  shows "ends_well w (length buf) bad (ip_send_packet w buf off)"
proof (cases "arp_table w (ARP_IPV4, htonl (dst_addr h))")
  case None
  have "off + ip_size \<le> length buf" using len by linarith
  then show ?thesis using ip_send_packet_unresolved [OF ok h _ None] by (auto simp: ends_well_def handled_def)
next
  case (Some mac)
  then show ?thesis using ip_send_packet_resolved [OF ok h len Some] by (auto intro: ends_well_handled)
qed

text \<open>The length field of the datagram at offset 14, as received, fits the buffer.\<close>

definition len_fits :: "bytes \<Rightarrow> u16 \<Rightarrow> bool" where
  "len_fits buf len \<longleftrightarrow> ip_size \<le> unat len \<and> ip_off + unat len \<le> length buf"

text \<open>A length below 20 wraps to a count of almost \<open>2 ^ 32\<close> bytes.\<close>

lemma payload_length_wraps:
  assumes "unat (ip_len H) < ip_size"
  shows "2 ^ 32 - ip_size \<le> unat (ucast (ip_header_get_payload_length H) :: u32)"
proof -
  have u: "unat (ucast (ip_len H) :: u64) = unat (ip_len H)"
    using unat_u16_bound [of "ip_len H"] by (simp add: unsigned_ucast_eq take_bit_eq_mod)
  have "unat (ip_header_get_payload_length H) = unat (ip_len H) + 2 ^ 64 - ip_size"
    using assms by (simp add: ip_header_get_payload_length_def unat_sub_if_size u word_size)
  then have "unat (ip_header_get_payload_length H) = (2 ^ 32 - ip_size + unat (ip_len H)) + (2 ^ 32 - 1) * 2 ^ 32"
    using assms by simp
  then have "unat (ip_header_get_payload_length H) mod 2 ^ 32 = (2 ^ 32 - ip_size + unat (ip_len H)) mod 2 ^ 32"
    by (simp only: mod_mult_self1)
  also have "\<dots> = 2 ^ 32 - ip_size + unat (ip_len H)" using assms by (intro mod_less) simp
  finally show ?thesis by (simp add: unsigned_ucast_eq take_bit_eq_mod)
qed

lemma len_fits_iff:
  assumes "ip_data_off \<le> length buf" and "length buf < 2 ^ 31"
  shows "ip_data_off + unat (ucast (ip_header_get_payload_length H) :: u32) \<le> length buf \<longleftrightarrow> len_fits buf (ip_len H)"
proof (cases "unat (ip_len H) < ip_size")
  case True
  then show ?thesis using payload_length_wraps [OF True] assms by (simp add: len_fits_def)
next
  case False
  then show ?thesis using payload_length [of H] by (simp add: len_fits_def)
qed

text \<open>The request that is sent back: the message is filled in and the addresses are swapped.\<close>

lemma receive_echo_request_sends:
  assumes H: "H = get_at ip_of buf ip_off" and fits: "len_fits buf (ip_len H)"
    and room: "ip_data_off + icmp_size \<le> length buf" "length buf < 2 ^ 31"
  obtains b where "receive_echo_request w buf = ip_send_packet w b ip_off" "length b = length buf"
    "get_at ip_of b ip_off = H\<lparr> dst_addr := src_addr H, src_addr := htonl (ni_ip w) \<rparr>"
proof -
  let ?m = "unat (ucast (ip_header_get_payload_length H) :: u32)"
  let ?h1 = "(get_at icmp_of buf ip_data_off)\<lparr> icmp_type := ICMP_ECHO_REPLY, icmp_checksum := 0 \<rparr>"
  let ?b1 = "put_at icmp_bytes buf ip_data_off ?h1"
  let ?b2 = "put_at icmp_bytes ?b1 ip_data_off (?h1\<lparr> icmp_checksum := internet_checksum (slice ?b1 ip_data_off ?m) \<rparr>)"
  let ?H = "H\<lparr> dst_addr := src_addr H, src_addr := htonl (ni_ip w) \<rparr>"
  let ?b3 = "put_at ip_bytes ?b2 ip_off ?H"
  have lens: "length ?b1 = length buf" "length ?b2 = length buf" "length ?b3 = length buf"
    using room by (simp_all add: icmph.length_put iph.length_put)
  have "get_at ip_of ?b3 ip_off = ?H" using lens room by (simp add: iph.get_put)
  moreover have "ip_data_off + ?m \<le> length buf" using len_fits_iff [of buf H] fits room by simp
  then have "receive_echo_request w buf = ip_send_packet w ?b3 ip_off"
    using lens room(1)
    by (simp add: receive_echo_request_def Let_def H [symmetric] net_interface_get_ip_def)
  ultimately show thesis using that lens by blast
qed

lemma receive_echo_request_ends_well:
  assumes ok: "arp_ok w" "some_free w" and H: "H = get_at ip_of buf ip_off"
    and fits: "len_fits buf (ip_len H)"
    and room: "ip_data_off + icmp_size \<le> length buf" "length buf < 2 ^ 31"
  shows "ends_well w (length buf) bad (receive_echo_request w buf)"
proof -
  obtain b where b: "receive_echo_request w buf = ip_send_packet w b ip_off" "length b = length buf"
    "get_at ip_of b ip_off = H\<lparr> dst_addr := src_addr H, src_addr := htonl (ni_ip w) \<rparr>"
    by (rule receive_echo_request_sends [OF H fits room])
  have "ends_well w (length b) bad (ip_send_packet w b ip_off)"
    by (rule ip_send_packet_ends_well [OF ok b(3) [symmetric]]) (use fits b(2) in \<open>simp_all add: len_fits_def\<close>)
  with b(1,2) show ?thesis by simp
qed

lemma icmp_receive_ends_well:
  assumes ok: "arp_ok w" "some_free w" and H: "H = get_at ip_of buf ip_off"
    and room: "ip_data_off + icmp_size \<le> length buf" "length buf < 2 ^ 31"
  shows "ends_well w (length buf) (\<not> len_fits buf (ip_len H)) (icmp_receive w buf)"
proof (cases "len_fits buf (ip_len H)")
  case True
  then obtain good where "icmp_check buf (ucast (ip_header_get_payload_length H)) = Some good"
    using len_fits_iff [of buf H] room by (auto simp: icmp_check_def)
  then show ?thesis
    using ok room receive_echo_request_ends_well [OF ok H True room]
    by (simp add: icmp_receive_def H [symmetric] Let_def ends_well_emit)
next
  case False
  then have "icmp_check buf (ucast (ip_header_get_payload_length H)) = None"
    using len_fits_iff [of buf H] room by (simp add: icmp_check_def)
  then show ?thesis using room False by (simp add: icmp_receive_def H [symmetric] ends_well_def)
qed

lemma tcp_receive_ends_well:
  assumes ok: "arp_ok w" "some_free w" and H: "H = get_at ip_of buf ip_off"
    and room: "ip_data_off + tcp_size \<le> length buf" "length buf < 2 ^ 31"
  shows "ends_well w (length buf) (\<not> len_fits buf (ip_len H)) (tcp_receive w buf)"
proof (cases "len_fits buf (ip_len H)")
  case True
  then obtain good where "tcp_header_check buf = Some good"
    using len_fits_iff [of buf H] room by (auto simp: tcp_header_check_def H [symmetric] Let_def)
  then show ?thesis
    using ok room by (simp add: tcp_receive_def Let_def ends_well_emit tcph.length_put)
next
  case False
  then have "tcp_header_check buf = None"
    using len_fits_iff [of buf H] room by (simp add: tcp_header_check_def H [symmetric] Let_def)
  then show ?thesis using room False by (simp add: tcp_receive_def ends_well_def)
qed

lemma ip_receive_ends_well:
  assumes ok: "arp_ok w" "some_free w" and h: "h = get_at ip_of buf ip_off"
    and room: "ip_data_off + tcp_size \<le> length buf" "length buf < 2 ^ 31"
  shows "ends_well w (length buf) (\<not> len_fits buf (ntohs (ip_len h))) (ip_receive w buf)"
proof (cases "ip_header_check h")
  case False
  then show ?thesis using ok room by (simp add: ip_receive_def Let_def h [symmetric] ends_well_emit)
next
  case True
  let ?H = "ip_header_ntoh h" 
  let ?buf = "put_at ip_bytes buf ip_off ?H"
  have r: "ip_data_off \<le> length buf" using room by simp
  note b = ip_buffer [OF r, where H = ?H]
  have len: "len_fits ?buf (htons (ip_len h)) = len_fits buf (htons (ip_len h))" by (simp add: len_fits_def b)
  have "ends_well w (length buf) (\<not> len_fits buf (ntohs (ip_len h))) (icmp_receive w ?buf)"
    using icmp_receive_ends_well [OF ok b(1) [symmetric]] room by (simp add: b len)
  moreover have "ends_well w (length buf) (\<not> len_fits buf (ntohs (ip_len h))) (tcp_receive w ?buf)"
    using tcp_receive_ends_well [OF ok b(1) [symmetric]] room by (simp add: b len)
  moreover have "ends_well w (length buf) (\<not> len_fits buf (ntohs (ip_len h))) (udp_receive w ?buf)"
    using ok room by (simp add: udp_receive_def b ends_well_emit)
  ultimately show ?thesis
    using ok r True by (simp add: ip_receive_def Let_def h [symmetric] ends_well_emit b)
qed

lemma ip_receive_icmp_overrun:
  assumes "h = get_at ip_of buf ip_off" and "ip_header_check h" and "protocol h = PROTOCOL_ICMP"
    and "ip_data_off \<le> length buf" and "length buf < 2 ^ 31" and "\<not> len_fits buf (ntohs (ip_len h))"
  shows "ip_receive w buf = Inl (OutOfBounds w)"
proof -
  let ?H = "ip_header_ntoh h"
  let ?buf = "put_at ip_bytes buf ip_off ?H"
  note b = ip_buffer [OF assms(4), where H = ?H]
  have "\<not> len_fits ?buf (ip_len ?H)" using assms(6) by (simp add: len_fits_def b)
  then have "icmp_check ?buf (ucast (ip_header_get_payload_length ?H)) = None"
    using len_fits_iff [of ?buf ?H] assms(4,5) by (simp add: icmp_check_def b)
  then show ?thesis
    using assms(2-4) by (simp add: ip_receive_def Let_def assms(1) [symmetric] icmp_receive_def b)
qed

section \<open>Properties\<close>

text \<open>
  C5. A ping is answered, byte for byte: a datagram with a valid header, protocol ICMP, a length that
  fits the buffer and a valid echo request, from a host in the cache, makes \<^verbatim>\<open>ip_receive\<close> send exactly
  one frame to that host.  It carries the same header with the sender as destination, the own
  address as source and a new checksum, and the same message with type 0 and a new checksum; both
  checksums verify.
\<close>

theorem ip_receive_answers_echo_request:
  assumes "arp_ok w" and "some_free w" and "h = get_at ip_of buf ip_off"
    and "ip_header_check h" and "protocol h = PROTOCOL_ICMP"
    and "n = unat (ntohs (ip_len h))" and "ip_size + icmp_size \<le> n" and "ip_off + n \<le> length buf"
    and "msg = slice buf ip_data_off (n - ip_size)" and "internet_checksum msg = 0" and "msg ! 0 = ICMP_ECHO_REQUEST"
    and "arp_table w (ARP_IPV4, src_addr h) = Some mac"
  shows "\<exists>w' buf' h' msg'. ip_receive w buf = Inr (w', buf') \<and> arp_ok w' \<and> some_free w' \<and>
    frames_of (trace w') = frames_of (trace w) @ [eth_frame mac (ni_mac w) ETH_P_IP (ip_bytes h' @ msg')] \<and>
    h'\<lparr> ip_checksum := ip_checksum h \<rparr> = h\<lparr> dst_addr := src_addr h, src_addr := ni_ip w \<rparr> \<and>
    ip_header_check h' \<and>
    msg' ! 0 = ICMP_ECHO_REPLY \<and> msg' ! 1 = msg ! 1 \<and> drop icmp_size msg' = drop icmp_size msg \<and>
    length msg' = length msg \<and> internet_checksum msg' = 0"
proof -
  let ?H = "(ip_header_ntoh h)\<lparr> dst_addr := htonl (src_addr h), src_addr := htonl (ni_ip w) \<rparr>"
  let ?h = "ip_header_update_checksum (ip_header_hton ?H)"
  obtain w' buf' where r: "ip_receive w buf = Inr (w', buf')"
    and hd: "handled w (arp_table w) [eth_frame mac (ni_mac w) ETH_P_IP (ip_packet ?H (echo_reply msg))] w'"
    using ip_receive_echo [OF assms] by blast
  have lm: "length msg = n - ip_size" using assms(7-9) by (simp add: slice_def)
  have "length (echo_reply msg) = length msg" using lm assms(7) by (intro length_echo_reply) simp
  moreover have "internet_checksum (echo_reply msg) = 0"
    using lm assms(6) unat_u16_bound [of "ntohs (ip_len h)"] by (intro echo_reply_valid) simp
  moreover have "echo_reply msg ! 0 = ICMP_ECHO_REPLY" "echo_reply msg ! 1 = msg ! 1"
    "drop icmp_size (echo_reply msg) = drop icmp_size msg"
    by (simp_all add: echo_reply_def Let_def)
  moreover have "?h\<lparr> ip_checksum := ip_checksum h \<rparr> = h\<lparr> dst_addr := src_addr h, src_addr := ni_ip w \<rparr>"
    by (simp add: ip_header_update_checksum_def ip_header_hton_def ip_header_ntoh_def Let_def)
  ultimately show ?thesis
    using r hd update_checksum_valid [of "ip_header_hton ?H"]
    by (intro exI [of _ w'] exI [of _ buf'] exI [of _ ?h] exI [of _ "echo_reply msg"])
       (simp add: handled_def ip_packet_def)
qed

definition sample_ping_header :: "u32 \<Rightarrow> nat \<Rightarrow> ip_header" where
  "sample_ping_header src n = (datagram_header src (u32_of 4 0 0 10) PROTOCOL_ICMP n)"

definition sample_ping_msg :: bytes where
  "sample_ping_msg = [8, 0] @ u16_bytes (internet_checksum ([8, 0] @ u16_bytes 0 @ [0, 1, 0, 1, 65, 66])) @ [0, 1, 0, 1, 65, 66]"

definition sample_ping :: "u32 \<Rightarrow> nat \<Rightarrow> bytes" where
  "sample_ping src n = eth_frame (MAC 2 0 0 0 0 4) sample_peer ETH_P_IP
     (ip_packet (sample_ping_header src n) sample_ping_msg) @ replicate 56 0"

lemma sample_ping_facts:
  "ip_header_check (get_at ip_of (sample_ping (u32_of 9 0 0 10) 10) ip_off)"
  "protocol (get_at ip_of (sample_ping (u32_of 9 0 0 10) 10) ip_off) = PROTOCOL_ICMP"
  "unat (ntohs (ip_len (get_at ip_of (sample_ping (u32_of 9 0 0 10) 10) ip_off))) = 30"
  "src_addr (get_at ip_of (sample_ping (u32_of 9 0 0 10) 10) ip_off) = u32_of 10 0 0 9"
  "slice (sample_ping (u32_of 9 0 0 10) 10) ip_data_off 10 = sample_ping_msg"
  "internet_checksum sample_ping_msg = 0" "sample_ping_msg ! 0 = 8"
  "length (sample_ping (u32_of 9 0 0 10) 10) = 100"
  by code_simp+

theorem ip_receive_answers_echo_request_witness:
  "\<exists>w' buf' h' msg'. ip_receive sample_known (sample_ping (u32_of 9 0 0 10) 10) = Inr (w', buf') \<and>
     frames_of (trace w') = frames_of (trace sample_known) @
       [eth_frame sample_peer (MAC 2 0 0 0 0 4) ETH_P_IP (ip_bytes h' @ msg')] \<and> internet_checksum msg' = 0"
proof -
  let ?b = "sample_ping (u32_of 9 0 0 10) 10"
  have k: "arp_table sample_known (ARP_IPV4, src_addr (get_at ip_of ?b ip_off)) = Some sample_peer"
    by (simp add: sample_known(3) sample_ping_facts)
  have m: "sample_ping_msg = slice ?b ip_data_off (30 - ip_size)" by (simp add: sample_ping_facts)
  have n: "ip_off + 30 \<le> length ?b" by (simp add: sample_ping_facts)
  show ?thesis
    using ip_receive_answers_echo_request [OF sample_known(1,2) refl sample_ping_facts(1,2)
        sample_ping_facts(3) [symmetric] _ n m sample_ping_facts(6,7) k] sample_known(5) by auto
qed

text \<open>
  C34. The length field of a datagram is trusted: a valid header with protocol ICMP whose length is
  below 20 or more than the buffer holds (the receive buffer has 100 bytes, so 86 for the datagram)
  makes the checksum run over memory past the buffer.
\<close>

theorem ip_receive_overruns_on_bad_length:
  assumes "h = get_at ip_of buf ip_off" and "ip_header_check h" and "protocol h = PROTOCOL_ICMP"
    and "ip_data_off \<le> length buf" and "length buf < 2 ^ 31"
    and "unat (ntohs (ip_len h)) < ip_size \<or> length buf < ip_off + unat (ntohs (ip_len h))"
  shows "ip_receive w buf = Inl (OutOfBounds w)"
  by (rule ip_receive_icmp_overrun [OF assms(1-5)]) (use assms(6) in \<open>auto simp: len_fits_def\<close>)

theorem ip_receive_overruns_on_bad_length_witness:
  "ip_receive sample_known (sample_ping (u32_of 9 0 0 10) 100) = Inl (OutOfBounds sample_known)"
proof -
  let ?b = "sample_ping (u32_of 9 0 0 10) 100"
  have "ip_header_check (get_at ip_of ?b ip_off)" "protocol (get_at ip_of ?b ip_off) = PROTOCOL_ICMP"
    "unat (ntohs (ip_len (get_at ip_of ?b ip_off))) = 120" "length ?b = 100"
    by code_simp+
  then show ?thesis using ip_receive_overruns_on_bad_length [OF refl, of ?b sample_known] by simp
qed

end
