(* ===== verification/Tcp_Props.thy ===== *)
theory Tcp_Props
  imports Icmp_Correct
begin

text \<open>The TCP checksum against RFC 793, and what the byte-order conversion of the header does.\<close>

section \<open>Sums modulo 65535\<close>

lemma checksum_dvd:
  assumes "length bs \<le> 131074"
  shows "internet_checksum bs = 0 \<longleftrightarrow> 0 < word_sum bs \<and> 65535 dvd word_sum bs"
proof -
  have "(\<exists>k. word_sum bs = 65535 * Suc k) \<longleftrightarrow> 0 < word_sum bs \<and> 65535 dvd word_sum bs"
    by (metis dvd_def gr0_conv_Suc mult_eq_0_iff neq0_conv zero_neq_numeral)
  then show ?thesis using checksum_zero_iff [OF assms] by simp
qed

definition fold_sum :: "nat \<Rightarrow> nat" where
  "fold_sum n = n mod 65536 + n div 65536"

lemma fold_sum_eq: "n = fold_sum n + 65535 * (n div 65536)"
  using div_mult_mod_eq [of n 65536] by (simp add: fold_sum_def)

lemma fold_sum_dvd: "65535 dvd fold_sum n \<longleftrightarrow> 65535 dvd n"
proof -
  have "65535 dvd fold_sum n + 65535 * (n div 65536) \<longleftrightarrow> 65535 dvd fold_sum n"
    by (rule dvd_add_left_iff) simp
  then show ?thesis using fold_sum_eq [of n] by simp
qed

lemma fold_sum_pos: "0 < fold_sum n \<longleftrightarrow> 0 < n"
proof
  assume "0 < n"
  then show "0 < fold_sum n" using div_mult_mod_eq [of n 65536] by (auto simp: fold_sum_def intro: ccontr)
qed (auto simp: fold_sum_def intro: ccontr)

lemma word_sum_u32_bytes: "word_sum (u32_bytes x) = fold_sum (unat x)"
proof -
  have lo: "unat (ucast x :: u16) = unat x mod 65536"
    by (simp add: unsigned_ucast_eq take_bit_eq_mod)
  have "unat x div 65536 < 65536"
    using unsigned_less [of x, where 'a = nat] by simp
  moreover have "unat (drop_bit 16 x) = unat x div 65536"
    by (simp only: unat_drop_bit_eq) (simp add: drop_bit_eq_div)
  ultimately have hi: "unat (ucast (drop_bit 16 x) :: u16) = unat x div 65536"
    by (simp only: unsigned_ucast_eq take_bit_eq_mod) simp
  have "u32_bytes x = u16_bytes (ucast x) @ u16_bytes (ucast (drop_bit 16 x))"
  proof -
    have "(ucast (ucast x :: u16) :: u8) = ucast x" "(ucast (drop_bit 8 (ucast x :: u16)) :: u8) = ucast (drop_bit 8 x)"
      "(ucast (ucast (drop_bit 16 x) :: u16) :: u8) = ucast (drop_bit 16 x)"
      "(ucast (drop_bit 8 (ucast (drop_bit 16 x) :: u16)) :: u8) = ucast (drop_bit 24 x)"
      by (rule bit_word_eqI, auto simp: bit_simps)+
    then show ?thesis by (simp only: u32_bytes_def u16_bytes_def append.simps)
  qed
  then show ?thesis using lo hi by (simp add: word_sum_append fold_sum_def)
qed

section \<open>The check\<close>

text \<open>RFC 793: the checksum covers the segment after a pseudo header of the two addresses, a zero
  byte, the protocol and the length of the segment; \<open>src\<close> and \<open>dst\<close> are in host byte order.\<close>

definition tcp_pseudo_header :: "u32 \<Rightarrow> u32 \<Rightarrow> u16 \<Rightarrow> bytes" where
  "tcp_pseudo_header src dst len = rev (u32_bytes src) @ rev (u32_bytes dst) @ [0, 6] @ rev (u16_bytes len)"

text \<open>The sum of the code without its wrap-around.\<close>

definition tcp_nat_sum :: "ip_header \<Rightarrow> bytes \<Rightarrow> nat" where
  "tcp_nat_sum iph seg = unat (sum16 seg) + unat (htons (of_nat (length seg))) + 1536 +
     unat (htonl (src_addr iph)) + unat (htonl (dst_addr iph))"

lemma tcp_sum_mod:
  assumes "ucast (ucast (ip_header_get_payload_length iph) :: u32) = (of_nat (length seg) :: u16)"
  shows "unat (tcp_sum iph seg) = tcp_nat_sum iph seg mod 2 ^ 32"
proof -
  have "unat (ucast (htons (ucast PROTOCOL_TCP)) :: u32) = 1536" by code_simp
  then show ?thesis
    using assms by (simp add: tcp_sum_def tcp_nat_sum_def Let_def unat_word_ariths mod_simps add.assoc)
qed

lemma tcp_nat_sum_dvd:
  assumes "length seg \<le> 65535"
  shows "internet_checksum (tcp_pseudo_header (src_addr iph) (dst_addr iph) (of_nat (length seg)) @ seg) = 0
    \<longleftrightarrow> 65535 dvd tcp_nat_sum iph seg"
proof -
  let ?p = "tcp_pseudo_header (src_addr iph) (dst_addr iph) (of_nat (length seg))"
  let ?s = "unat (htonl (src_addr iph))" and ?d = "unat (htonl (dst_addr iph))"
  obtain k where k: "word_sum seg = unat (sum16 seg) + 65535 * k"
    using oc_rep_sum16 [of seg] assms by (auto elim: oc_repE)
  have len: "length ?p = 12" "even (length ?p)" by (simp_all add: tcp_pseudo_header_def)
  have p: "word_sum ?p = fold_sum ?s + fold_sum ?d + 1536 + unat (htons (of_nat (length seg)))"
    unfolding tcp_pseudo_header_def u32_bytes_htonl [symmetric] u16_bytes_htons [symmetric]
    by (simp add: word_sum_append word_sum_u32_bytes)
  let ?S = "word_sum (?p @ seg)"
  have "?S + 65535 * (?s div 65536 + ?d div 65536) = tcp_nat_sum iph seg + 65535 * k"
    using fold_sum_eq [of ?s] fold_sum_eq [of ?d] p k len
    by (simp add: word_sum_append tcp_nat_sum_def)
  then have "65535 dvd ?S \<longleftrightarrow> 65535 dvd tcp_nat_sum iph seg"
    by (metis dvd_add_left_iff dvd_triv_left)
  moreover have "0 < ?S" using p len by (simp add: word_sum_append)
  ultimately show ?thesis using checksum_dvd [of "?p @ seg"] len assms by simp
qed

lemma tcp_check_dvd:
  "internet_checksum (u32_bytes (tcp_sum iph seg)) = 0 \<longleftrightarrow>
   0 < unat (tcp_sum iph seg) \<and> 65535 dvd unat (tcp_sum iph seg)"
  by (subst checksum_dvd) (simp_all add: word_sum_u32_bytes fold_sum_dvd fold_sum_pos)

lemma tcp_header_check_segment:
  assumes "iph = get_at ip_of buf ip_off" and "len_fits buf (ip_len iph)"
    and "seg = slice buf ip_data_off (unat (ip_len iph) - ip_size)"
  shows "tcp_header_check buf = Some (internet_checksum (u32_bytes (tcp_sum iph seg)) = 0)"
    and "ucast (ucast (ip_header_get_payload_length iph) :: u32) = (of_nat (length seg) :: u16)"
    and "length seg \<le> 65535"
proof -
  have n: "ip_size \<le> unat (ip_len iph)" "ip_off + unat (ip_len iph) \<le> length buf"
    using assms(2) by (simp_all add: len_fits_def)
  have m: "unat (ucast (ip_header_get_payload_length iph) :: u32) = unat (ip_len iph) - ip_size"
    by (rule payload_length [OF n(1)])
  have l: "length seg = unat (ip_len iph) - ip_size" using n assms(3) by (simp add: slice_def)
  then show "length seg \<le> 65535" using unat_u16_bound [of "ip_len iph"] by simp
  show "tcp_header_check buf = Some (internet_checksum (u32_bytes (tcp_sum iph seg)) = 0)"
    using n m assms(3) by (simp add: tcp_header_check_def Let_def assms(1) [symmetric])
  have "(ucast x :: u16) = of_nat (unat x)" for x :: u32 by simp
  then show "ucast (ucast (ip_header_get_payload_length iph) :: u32) = (of_nat (length seg) :: u16)"
    using m l by (simp only:)
qed

section \<open>Properties\<close>

text \<open>The 32-bit sum loses its carries: each one is 1 modulo 65535.\<close>

lemma tcp_sum_wraps:
  assumes "65535 dvd tcp_nat_sum iph seg" and "2 ^ 32 \<le> tcp_nat_sum iph seg"
  shows "\<not> 65535 dvd tcp_nat_sum iph seg mod 2 ^ 32"
proof
  let ?s = "tcp_nat_sum iph seg"
  assume dvd: "65535 dvd ?s mod 2 ^ 32"
  have "?s < 3 * 2 ^ 32"
    using unsigned_less [of "htonl (src_addr iph)", where 'a = nat] unsigned_less [of "htonl (dst_addr iph)", where 'a = nat]
      unat_u16_bound [of "sum16 seg"] unat_u16_bound [of "htons (of_nat (length seg))"]
    by (simp add: tcp_nat_sum_def)
  then have small: "?s div 2 ^ 32 < 3" by (simp add: less_mult_imp_div_less)
  have "?s = 65535 * (65537 * (?s div 2 ^ 32)) + (?s div 2 ^ 32 + ?s mod 2 ^ 32)" using div_mult_mod_eq [of ?s "2 ^ 32"] by simp
  then have "65535 dvd ?s div 2 ^ 32 + ?s mod 2 ^ 32" using assms(1) by (metis dvd_add_right_iff dvd_triv_left)
  then have "65535 dvd ?s div 2 ^ 32" using dvd by (simp add: dvd_add_left_iff)
  moreover have "0 < ?s div 2 ^ 32" using assms(2) by (simp add: div_greater_zero_iff)
  ultimately show False using small by (auto dest: dvd_imp_le)
qed

text \<open>
  C23. For a segment that fits the buffer: as long as the 32-bit sum of \<^verbatim>\<open>tcp_header_check\<close> does not wrap, the
  check is the one of RFC 793, that is, it accepts exactly when the Internet checksum over the pseudo
  header and the segment is 0.  When the sum wraps, every segment that is valid by the RFC is rejected;
  it wraps as soon as the last octets of the two addresses add up to 256 or more.
\<close>

theorem tcp_header_check_is_rfc793:
  assumes "iph = get_at ip_of buf ip_off" and "len_fits buf (ip_len iph)"
    and "seg = slice buf ip_data_off (unat (ip_len iph) - ip_size)"
    and "valid = (internet_checksum (tcp_pseudo_header (src_addr iph) (dst_addr iph) (of_nat (length seg)) @ seg) = 0)"
  shows "(tcp_nat_sum iph seg < 2 ^ 32 \<longrightarrow> tcp_header_check buf = Some valid) \<and>
    (2 ^ 32 \<le> tcp_nat_sum iph seg \<longrightarrow> valid \<longrightarrow> tcp_header_check buf = Some False)"
proof -
  note t = tcp_header_check_segment [OF assms(1-3)]
  have sum: "unat (tcp_sum iph seg) = tcp_nat_sum iph seg mod 2 ^ 32" by (rule tcp_sum_mod [OF t(2)])
  have valid: "valid \<longleftrightarrow> 65535 dvd tcp_nat_sum iph seg" using tcp_nat_sum_dvd [OF t(3), of iph] assms(4) by simp
  have "0 < tcp_nat_sum iph seg" by (simp add: tcp_nat_sum_def)
  then show ?thesis
    using t(1) tcp_check_dvd [of iph seg] sum valid tcp_sum_wraps [of iph seg] by auto
qed

text \<open>A segment of 24 bytes between two hosts, with the checksum that the RFC asks for, behind its
  header in host byte order.\<close>

definition sample_segment :: "u32 \<Rightarrow> u32 \<Rightarrow> bytes" where
  "sample_segment src dst =
     (let before = [0x30, 0x39, 0, 80, 0, 0, 0, 1, 0, 0, 0, 0, 0x60, 2, 4, 0]; after = [0, 0, 1, 1, 1, 0]
      in before @ u16_bytes (internet_checksum (tcp_pseudo_header src dst 24 @ before @ u16_bytes 0 @ after)) @ after)"

definition sample_tcp :: "u32 \<Rightarrow> u32 \<Rightarrow> bytes" where
  "sample_tcp src dst = replicate 14 0 @ ip_bytes (datagram_header src dst PROTOCOL_TCP 24) @
     sample_segment src dst @ replicate 42 0"

lemma tcp_nat_sum_small:
  assumes "htonl (src_addr iph) < 0x70000000" and "htonl (dst_addr iph) < 0x70000000"
  shows "tcp_nat_sum iph seg < 2 ^ 32"
  using assms unat_u16_bound [of "sum16 seg"] unat_u16_bound [of "htons (of_nat (length seg))"]
  by (simp add: tcp_nat_sum_def word_less_nat_alt)

lemma sample_tcp_parts:
  "datagram_header (u32_of 9 0 0 10) (u32_of 4 0 0 10) PROTOCOL_TCP 24 =
     get_at ip_of (sample_tcp (u32_of 9 0 0 10) (u32_of 4 0 0 10)) ip_off"
  "datagram_header (u32_of 200 0 0 10) (u32_of 100 0 0 10) PROTOCOL_TCP 24 =
     get_at ip_of (sample_tcp (u32_of 200 0 0 10) (u32_of 100 0 0 10)) ip_off"
  by code_simp+

theorem tcp_header_check_is_rfc793_witness:
  "tcp_header_check (sample_tcp (u32_of 9 0 0 10) (u32_of 4 0 0 10)) = Some True \<and>
   tcp_header_check (sample_tcp (u32_of 200 0 0 10) (u32_of 100 0 0 10)) = Some False"
proof
  let ?b = "sample_tcp (u32_of 9 0 0 10) (u32_of 4 0 0 10)"
  let ?h = "datagram_header (u32_of 9 0 0 10) (u32_of 4 0 0 10) PROTOCOL_TCP 24"
  let ?s = "sample_segment (u32_of 9 0 0 10) (u32_of 4 0 0 10)"
  have f: "len_fits ?b (ip_len ?h)" by code_simp
  have s: "?s = slice ?b ip_data_off (unat (ip_len ?h) - ip_size)" by code_simp
  have "htonl (src_addr ?h) < 0x70000000" "htonl (dst_addr ?h) < 0x70000000" by code_simp+
  then have n: "tcp_nat_sum ?h ?s < 2 ^ 32" by (rule tcp_nat_sum_small)
  have ok: "True = (internet_checksum (tcp_pseudo_header (src_addr ?h) (dst_addr ?h) (of_nat (length ?s)) @ ?s) = 0)"
    by code_simp
  show "tcp_header_check ?b = Some True"
    using tcp_header_check_is_rfc793 [OF sample_tcp_parts(1) f s ok] n by blast
next
  let ?b = "sample_tcp (u32_of 200 0 0 10) (u32_of 100 0 0 10)"
  let ?h = "datagram_header (u32_of 200 0 0 10) (u32_of 100 0 0 10) PROTOCOL_TCP 24"
  let ?s = "sample_segment (u32_of 200 0 0 10) (u32_of 100 0 0 10)"
  have f: "len_fits ?b (ip_len ?h)" by code_simp
  have s: "?s = slice ?b ip_data_off (unat (ip_len ?h) - ip_size)" by code_simp
  have "0xc8000000 \<le> htonl (src_addr ?h)" "0x64000000 \<le> htonl (dst_addr ?h)" by code_simp+
  then have n: "2 ^ 32 \<le> tcp_nat_sum ?h ?s" by (simp add: tcp_nat_sum_def word_le_nat_alt)
  have ok: "True = (internet_checksum (tcp_pseudo_header (src_addr ?h) (dst_addr ?h) (of_nat (length ?s)) @ ?s) = 0)"
    by code_simp
  show "tcp_header_check ?b = Some False"
    using tcp_header_check_is_rfc793 [OF sample_tcp_parts(2) f s ok] n by blast
qed

text \<open>
  \<^verbatim>\<open>tcp_header_ntoh\<close> applies the 16-bit \<^verbatim>\<open>ntohs\<close> to the 32-bit sequence and acknowledgement numbers:
  what is left of each is its upper half, and \<^verbatim>\<open>tcp_header_hton\<close> does not bring the number back.
\<close>

lemma tcp_header_ntoh_truncates:
  "seq_num (tcp_header_ntoh h) = drop_bit 16 (ntohl (seq_num h)) \<and>
   ack_num (tcp_header_ntoh h) = drop_bit 16 (ntohl (ack_num h)) \<and>
   seq_num (tcp_header_hton (tcp_header_ntoh h)) = seq_num h AND 0xffff"
proof -
  have "(ucast (htons (ucast x)) :: u32) = drop_bit 16 (htonl x)" for x :: u32
  proof (rule bit_word_eqI)
    fix n assume "n < LENGTH(32)"
    then consider "n < 8" | "8 \<le> n" "n < 16" | "16 \<le> n" "n < 32" by force
    then show "bit (ucast (htons (ucast x)) :: u32) n \<longleftrightarrow> bit (drop_bit 16 (htonl x)) n"
      by cases (auto simp: htons_def htonl_def u16_of_def u32_of_def bit_simps)
  qed
  moreover have "(ucast (htons (ucast (ucast (htons (ucast x)) :: u32))) :: u32) = x AND 0xffff" for x :: u32
  proof -
    have "(ucast (ucast (y :: u16) :: u32) :: u16) = y" for y
      by (rule bit_word_eqI) (auto simp: bit_simps)
    moreover have "(0xffff :: u32) = mask 16" by (simp add: mask_eq_exp_minus_1)
    moreover have "(ucast (ucast x :: u16) :: u32) = x AND mask 16"
      by (rule bit_word_eqI) (auto simp: bit_simps)
    ultimately show ?thesis by (simp only: htons_htons)
  qed
  ultimately show ?thesis by (simp add: tcp_header_ntoh_def tcp_header_hton_def)
qed

text \<open>
  The control bits that \<^verbatim>\<open>tcp_receive\<close> tests are not the flags of the segment: the 16-bit field is
  not converted, so the six bits come from byte 12 of the header (data offset and reserved bits),
  whatever byte 13, which holds the flags, is.
\<close>

lemma tcp_control_bits_ignore_flags:
  assumes "tcp_size \<le> length bs"
  shows "tcp_header_get_control_bits (tcp_header_ntoh (tcp_of bs)) = ucast (bs ! 12) AND 63 \<and>
    tcp_header_get_control_bits (tcp_header_ntoh (tcp_of (bs[13 := flags]))) =
      tcp_header_get_control_bits (tcp_header_ntoh (tcp_of bs))"
proof -
  have "u16_of a b AND 63 = ucast a AND 63" for a b
  proof -
    have "(63 :: u16) = mask 6" by (simp add: mask_eq_exp_minus_1)
    moreover have "u16_of a b AND mask 6 = ucast a AND mask 6"
      by (rule bit_word_eqI) (auto simp: u16_of_def bit_simps)
    ultimately show ?thesis by (simp only:)
  qed
  then show ?thesis
    using assms by (simp add: tcp_header_get_control_bits_def tcp_header_ntoh_def tcp_of_def)
qed

end
