(* ===== verification/Step_Systems.thy ===== *)
theory Step_Systems
  imports Main
begin

text \<open>
  What the step relations of the threads share: predicates that every step keeps, and steps that use up
  a bounded amount of work.
\<close>

section \<open>Invariants\<close>

locale kept_by_steps =
  fixes step :: "'s \<Rightarrow> 's \<Rightarrow> bool"
    and inv :: "'s \<Rightarrow> bool"
  assumes keep: "step s s' \<Longrightarrow> inv s \<Longrightarrow> inv s'"
begin

lemma run_keeps: "step\<^sup>*\<^sup>* s s' \<Longrightarrow> inv s \<Longrightarrow> inv s'"
  by (induction rule: rtranclp_induct) (auto intro: keep)

text \<open>A run is one of the narrower relation that only enters states with the invariant.\<close>

lemma run_guarded: "step\<^sup>*\<^sup>* s s' \<Longrightarrow> inv s \<Longrightarrow> (\<lambda>x y. step x y \<and> inv y)\<^sup>*\<^sup>* s s'"
proof (induction rule: rtranclp_induct)
  case (step y z)
  have "inv z" using keep [OF step.hyps(2)] run_keeps [OF step.hyps(1) step.prems] by blast
  with step show ?case by (simp add: rtranclp.rtrancl_into_rtrancl)
qed simp

end

section \<open>Work\<close>

locale bounded_steps =
  fixes step :: "'s \<Rightarrow> 's \<Rightarrow> bool"
    and work :: "'s \<Rightarrow> nat"
  assumes uses_work: "step s s' \<Longrightarrow> work s' < work s"
begin

lemma run_bound: "(step ^^ k) s s' \<Longrightarrow> work s' + k \<le> work s"
proof (induction k arbitrary: s')
  case (Suc k)
  then obtain s1 where "(step ^^ k) s s1" "step s1 s'" by auto
  with Suc.IH [of s1] uses_work [of s1 s'] show ?case by simp
qed simp

text \<open>If a state that is not final always has a step, every run can be brought to its end.\<close>

lemma completion:
  assumes "\<And>s. step\<^sup>*\<^sup>* s0 s \<Longrightarrow> \<not> final s \<Longrightarrow> \<exists>s'. step s s'" and "step\<^sup>*\<^sup>* s0 s"
  shows "\<exists>s'. step\<^sup>*\<^sup>* s s' \<and> final s'"
  using assms(2)
proof (induction "work s" arbitrary: s rule: less_induct)
  case less
  show ?case
  proof (cases "final s")
    case False
    with assms(1) less.prems obtain s' where s': "step s s'" by blast
    with less.hyps [OF uses_work [OF s']] less.prems obtain s'' where "step\<^sup>*\<^sup>* s' s''" "final s''"
      by (meson rtranclp.rtrancl_into_rtrancl)
    with s' show ?thesis by (meson converse_rtranclp_into_rtranclp)
  qed blast
qed

end

text \<open>The work of \<open>n\<close> threads, when one of them moves on.\<close>

lemma sum_update_less:
  fixes f :: "'a \<Rightarrow> nat" and n :: nat
  assumes "t < n" and "f x < f (g t)"
  shows "(\<Sum>u < n. f ((g(t := x)) u)) < (\<Sum>u < n. f (g u))"
  by (rule sum_strict_mono_ex1) (use assms in auto)

end
