(* ===== verification/Tun_Queues.thy ===== *)
theory Tun_Queues
  imports Net_Interface Step_Systems
begin

text \<open>
  The threads of \<^verbatim>\<open>main.c\<close> sharing the queues of \<^verbatim>\<open>tun_device.c\<close>.  \<^verbatim>\<open>available\<close> and \<^verbatim>\<open>set_busy\<close> each hold
  the mutex \<^verbatim>\<open>mut_status\<close>, so they are the atomic steps; between the two calls a thread holds the
  number of a queue that is not marked yet.  Reads and writes use the queue while it is marked.
\<close>

section \<open>The step relation\<close>

datatype phase =
    Idle
  | Chosen nat
  | Marked nat
  | Crashed

type_synonym qstate = "tun_state \<times> (nat \<Rightarrow> phase)"

text \<open>
  One step of one of \<open>n\<close> threads, each of them running \<^verbatim>\<open>net_interface_read\<close> and \<^verbatim>\<open>net_interface_send\<close>
  again and again.
\<close>

inductive qstep :: "nat \<Rightarrow> qstate \<Rightarrow> qstate \<Rightarrow> bool" for n where
  choose: "t < n \<Longrightarrow> pc t = Idle \<Longrightarrow> available w = Inr fi \<Longrightarrow> fi \<noteq> - 1 \<Longrightarrow>
    qstep n (w, pc) (w, pc(t := Chosen (nat fi)))"
| overrun: "t < n \<Longrightarrow> pc t = Idle \<Longrightarrow> available w = Inl e \<Longrightarrow>
    qstep n (w, pc) (w, pc(t := Crashed))"
| mark: "t < n \<Longrightarrow> pc t = Chosen fi \<Longrightarrow> set_busy w fi True = Inr w' \<Longrightarrow>
    qstep n (w, pc) (w', pc(t := Marked fi))"
| release: "t < n \<Longrightarrow> pc t = Marked fi \<Longrightarrow> set_busy w fi False = Inr w' \<Longrightarrow>
    qstep n (w, pc) (w', pc(t := Idle))"

inductive_cases qstepE: "qstep n (w, pc) s"

text \<open>All threads idle, no queue marked, as \<^verbatim>\<open>main\<close> starts them.\<close>

definition qinit :: "qstate \<Rightarrow> bool" where
  "qinit s \<longleftrightarrow> tun_ok (fst s) \<and> busy_status (fst s) = replicate TUN_QUEUES False \<and> snd s = (\<lambda>t. Idle)"

definition qreachable :: "nat \<Rightarrow> qstate \<Rightarrow> bool" where
  "qreachable n s \<longleftrightarrow> (\<exists>s0. qinit s0 \<and> (qstep n)\<^sup>*\<^sup>* s0 s)"

section \<open>The invariant\<close>

text \<open>A marked queue has a thread that marked it and has not released it.\<close>

definition qinv :: "nat \<Rightarrow> qstate \<Rightarrow> bool" where
  "qinv n s = (case s of (w, pc) \<Rightarrow>
     tun_ok w \<and>
     (\<forall>i < TUN_QUEUES. busy_status w ! i \<longrightarrow> (\<exists>t < n. pc t = Marked i)) \<and>
     (\<forall>t fi. pc t = Chosen fi \<or> pc t = Marked fi \<longrightarrow> fi < TUN_QUEUES))"

lemma qinv_init: "qinit s \<Longrightarrow> qinv n s"
  by (cases s) (simp add: qinit_def qinv_def)

lemma set_busy_tun_ok:
  "set_busy w fi b = Inr w' \<Longrightarrow> tun_ok w \<Longrightarrow> tun_ok w' \<and> busy_status w' = (busy_status w)[fi := b]"
  by (auto simp: set_busy_def tun_ok_def split: if_splits)

lemma available_bound: "tun_ok w \<Longrightarrow> available w = Inr fi \<Longrightarrow> fi \<noteq> - 1 \<Longrightarrow> nat fi < TUN_QUEUES"
  by (auto simp: available_def tun_ok_def split: option.splits if_splits)

text \<open>A flag that another thread's step leaves set keeps its holder.\<close>

lemma holder_stays:
  assumes "\<exists>u < n. pc u = Marked i" and "pc t \<noteq> Marked i \<or> ph = Marked i"
  shows "\<exists>u < n. (pc(t := ph)) u = Marked i"
  using assms by (metis fun_upd_apply)

lemma phase_bound:
  assumes "\<forall>u f. pc u = Chosen f \<or> pc u = Marked f \<longrightarrow> f < TUN_QUEUES"
    and "\<And>f. ph = Chosen f \<or> ph = Marked f \<Longrightarrow> f < TUN_QUEUES"
  shows "\<forall>u f. (pc(t := ph)) u = Chosen f \<or> (pc(t := ph)) u = Marked f \<longrightarrow> f < TUN_QUEUES"
  using assms by auto

lemma qinv_step: "qstep n s s' \<Longrightarrow> qinv n s \<Longrightarrow> qinv n s'"
proof (induction rule: qstep.induct)
  case (choose t pc w fi)
  then have "nat fi < TUN_QUEUES" by (auto simp: qinv_def dest: available_bound)
  with choose show ?case
    unfolding qinv_def prod.case by (intro conjI phase_bound allI impI holder_stays) auto
next
  case (overrun t pc w e)
  then show ?case
    unfolding qinv_def prod.case by (intro conjI phase_bound allI impI holder_stays) auto
next
  case (mark t pc fi w w')
  then have fi: "fi < TUN_QUEUES" "tun_ok w'" "busy_status w' = (busy_status w)[fi := True]"
    using set_busy_tun_ok by (auto simp: qinv_def)
  have "\<exists>u < n. (pc(t := Marked fi)) u = Marked i" if i: "i < TUN_QUEUES" "busy_status w' ! i" for i
  proof (cases "i = fi")
    case True
    then show ?thesis using mark(1) by auto
  next
    case False
    then show ?thesis using i fi(3) mark(2,4) by (intro holder_stays) (simp_all add: qinv_def)
  qed
  with mark(4) fi(1,2) show ?case unfolding qinv_def prod.case by (intro conjI phase_bound) auto
next
  case (release t pc fi w w')
  then have fi: "fi < TUN_QUEUES" "tun_ok w'" "busy_status w' = (busy_status w)[fi := False]"
    using set_busy_tun_ok by (auto simp: qinv_def)
  have len: "length (busy_status w) = TUN_QUEUES" using release(4) by (simp add: qinv_def tun_ok_def)
  have "\<exists>u < n. (pc(t := Idle)) u = Marked i" if i: "i < TUN_QUEUES" "busy_status w' ! i" for i
  proof (rule holder_stays)
    have neq: "i \<noteq> fi" using i fi(3) len by auto
    then have "busy_status w ! i" using i(2) fi(3) by simp
    then show "\<exists>u < n. pc u = Marked i" using i(1) release(4) by (simp add: qinv_def)
    show "pc t \<noteq> Marked i \<or> Idle = Marked i" using neq release(2) by simp
  qed
  with release(4) fi(2) show ?case unfolding qinv_def prod.case by (intro conjI phase_bound) auto
qed

interpretation qk: kept_by_steps "qstep n" "qinv n" for n
  by unfold_locales (rule qinv_step)

text \<open>With no more threads than queues, an idle thread leaves a queue for itself.\<close>

lemma qinv_some_free:
  assumes inv: "qinv n (w, pc)" and n: "n \<le> TUN_QUEUES" and t: "t < n" "\<forall>i. pc t \<noteq> Marked i"
  shows "some_free w"
proof (rule ccontr)
  assume "\<not> some_free w"
  then have "\<forall>i < TUN_QUEUES. \<exists>u. u < n \<and> pc u = Marked i"
    using inv by (simp add: qinv_def some_free_def)
  then obtain holder where h: "\<And>i. i < TUN_QUEUES \<Longrightarrow> holder i < n \<and> pc (holder i) = Marked i"
    by metis
  have "inj_on holder {..<TUN_QUEUES}"
    by (rule inj_onI) (metis h lessThan_iff phase.inject(2))
  moreover have "holder ` {..<TUN_QUEUES} \<subseteq> {..<n} - {t}"
    using h t(2) by (auto simp del: lessThan_iff)
  ultimately have "card {..<TUN_QUEUES} \<le> card ({..<n} - {t})"
    by (intro card_inj_on_le) auto
  also have "\<dots> = n - 1" using t(1) by simp
  finally show False using n t(1) by simp
qed

lemma qreachable_inv: "qreachable n s \<Longrightarrow> qinv n s"
proof -
  assume "qreachable n s"
  then obtain s0 where "(qstep n)\<^sup>*\<^sup>* s0 s" "qinit s0" by (auto simp: qreachable_def)
  then show ?thesis using qk.run_keeps qinv_init by blast
qed

lemma qreachable_init: "qinit s \<Longrightarrow> qreachable n s"
  unfolding qreachable_def by blast

lemma not_crashed_step:
  assumes "qstep n s s'" and "qinv n s" and "n \<le> TUN_QUEUES" and "\<forall>t. snd s t \<noteq> Crashed"
  shows "\<forall>t. snd s' t \<noteq> Crashed"
  using assms
proof (induction rule: qstep.induct)
  case (overrun t pc w e)
  then have "some_free w" "tun_ok w"
    using qinv_some_free [of n w pc t] by (auto simp: qinv_def)
  then show ?case using overrun(3) available_free(1) [of w] by simp
qed auto

section \<open>Properties\<close>

text \<open>
  With at most as many threads as queues (the program has ten of each), no interleaving of the
  threads makes the search for a free queue run past the array: in every reachable state no thread
  has crashed, and an idle thread that calls \<^verbatim>\<open>available\<close> gets the number of an unmarked queue.
\<close>

lemma queue_search_never_overruns:
  assumes "qreachable n (w, pc)" and "n \<le> TUN_QUEUES"
  shows "(\<forall>t. pc t \<noteq> Crashed) \<and>
    (\<forall>t < n. pc t = Idle \<longrightarrow>
       (\<exists>i < TUN_QUEUES. available w = Inr (int i) \<and> \<not> busy_status w ! i))"
proof
  from assms(1) obtain s0 where s0: "(qstep n)\<^sup>*\<^sup>* s0 (w, pc)" "qinit s0"
    by (auto simp: qreachable_def)
  have "qinv n s \<and> (\<forall>t. snd s t \<noteq> Crashed)" if "(qstep n)\<^sup>*\<^sup>* s0 s" for s
    using that
  proof (induction rule: rtranclp_induct)
    case base
    then show ?case using s0(2) by (auto simp: qinv_init qinit_def)
  next
    case (step s s')
    then show ?case using assms(2) not_crashed_step qinv_step by blast
  qed
  from this [OF s0(1)] show "\<forall>t. pc t \<noteq> Crashed" by simp
  show "\<forall>t < n. pc t = Idle \<longrightarrow>
       (\<exists>i < TUN_QUEUES. available w = Inr (int i) \<and> \<not> busy_status w ! i)"
  proof (intro allI impI)
    fix t assume "t < n" "pc t = Idle"
    then have "some_free w" "tun_ok w"
      using qinv_some_free [of n w pc t] qreachable_inv [OF assms(1)] assms(2) by (auto simp: qinv_def)
    then show "\<exists>i < TUN_QUEUES. available w = Inr (int i) \<and> \<not> busy_status w ! i"
      using available_free by blast
  qed
qed

section \<open>Two senders on one queue\<close>

text \<open>
  Two threads in \<^verbatim>\<open>net_interface_send\<close>, interleaved at the calls: both look for a queue, the first
  fills its buffer, then the second, then the first writes, then the second.
\<close>

definition interleaved_sends ::
  "'a net_state_scheme \<Rightarrow> u32 \<Rightarrow> bytes \<times> mac \<times> u16 \<Rightarrow> bytes \<times> mac \<times> u16
    \<Rightarrow> ('a net_state_scheme, 'a net_state_scheme) run" where
  "interleaved_sends w len p q = (case (p, q) of ((c, d, t), (c', d', t')) \<Rightarrow>
     let total_size = len + of_nat eth_size in
     bind_run (available w) (\<lambda>fi. bind_run (available w) (\<lambda>fi'.
     bind_run (ensure_has_size w (nat fi) total_size) (\<lambda>w.
     bind_run (fill_frame w (nat fi) c len d t) (\<lambda>w.
     bind_run (ensure_has_size w (nat fi') total_size) (\<lambda>w.
     bind_run (fill_frame w (nat fi') c' len d' t') (\<lambda>w.
     bind_run (write_frame w (nat fi) total_size) (\<lambda>w.
     write_frame w (nat fi') total_size))))))))"

text \<open>
  The interleaving of two sends of the same length loses the first frame: both choose the same
  queue, the second overwrites the shared buffer, and its frame is written twice.
\<close>

lemma interleaved_sends_lose_frame:
  assumes "net_ok w" and "some_free w" and "unat len = length c" and "length c' = length c"
    and "eth_size + length c < 2 ^ 31"
  shows "\<exists>w'. interleaved_sends w len (c, d, t) (c', d', t') = Inr w' \<and>
    frames_of (trace w') = frames_of (trace w) @
      [eth_frame d' (ni_mac w) t' c', eth_frame d' (ni_mac w) t' c']"
proof -
  let ?fi = "first_free w" and ?sz = "len + of_nat eth_size :: u32"
  have tok: "tun_ok w" using assms(1) by (simp add: net_ok_def)
  note av = available_free [OF tok assms(2)]
  have sz: "sint ?sz = int (eth_size + length c')"
    using total_size(2) [of len] assms(3-5) by simp
  obtain bs ss where p1: "bind_run (ensure_has_size w ?fi ?sz) (\<lambda>w. fill_frame w ?fi c len d t) =
      Inr (emit (sent_debug ?fi (length c) \<lparr> eth_dst_mac = d, eth_src_mac = ni_mac w, ether_type = t \<rparr>)
        (w\<lparr> ni_buffers := bs, ni_buffers_size := ss \<rparr>))"
    and ok1: "net_ok (w\<lparr> ni_buffers := bs, ni_buffers_size := ss \<rparr>)"
    using prepare_frame_ok [OF assms(1) av(2) assms(3,5), of d t] by blast
  let ?w1 = "emit (sent_debug ?fi (length c) \<lparr> eth_dst_mac = d, eth_src_mac = ni_mac w, ether_type = t \<rparr>)
        (w\<lparr> ni_buffers := bs, ni_buffers_size := ss \<rparr>)"
  have ok1': "net_ok ?w1" using ok1 by (simp only: net_ok_emit)
  obtain bs' ss' rest where p2: "bind_run (ensure_has_size ?w1 ?fi ?sz) (\<lambda>w. fill_frame w ?fi c' len d' t') =
      Inr (emit (sent_debug ?fi (length c') \<lparr> eth_dst_mac = d', eth_src_mac = ni_mac ?w1, ether_type = t' \<rparr>)
        (?w1\<lparr> ni_buffers := bs', ni_buffers_size := ss' \<rparr>))"
    and b2: "bs' ! ?fi = Some (eth_frame d' (ni_mac ?w1) t' c' @ rest)"
    using prepare_frame_ok [OF ok1' av(2), of len c' d' t'] assms(3-5) by (simp only:) blast
  let ?w2 = "emit (sent_debug ?fi (length c') \<lparr> eth_dst_mac = d', eth_src_mac = ni_mac ?w1, ether_type = t' \<rparr>)
        (?w1\<lparr> ni_buffers := bs', ni_buffers_size := ss' \<rparr>)"
  have wr: "write_frame v ?fi ?sz = Inr (emit [Wrote (tun_fds v ! ?fi) (eth_frame d' (ni_mac w) t' c')] v)"
    if "tun_ok v" "busy_status v = busy_status w" "ni_buffers v = bs'" for v :: "'a net_state_scheme"
    using write_frame_ok [OF that(1) av(2) _ _ sz, of "eth_frame d' (ni_mac w) t' c' @ rest"] that b2 av(3)
    by simp
  have "interleaved_sends w len (c, d, t) (c', d', t') =
      bind_run (write_frame ?w2 ?fi ?sz) (\<lambda>w. write_frame w ?fi ?sz)"
    using p1 p2 av(1)
    by (simp add: interleaved_sends_def Let_def bind_run_assoc [symmetric])
  also have "\<dots> = Inr (emit [Wrote (tun_fds w ! ?fi) (eth_frame d' (ni_mac w) t' c'),
      Wrote (tun_fds w ! ?fi) (eth_frame d' (ni_mac w) t' c')] ?w2)"
    using wr tok by (simp add: tun_ok_def)
  finally show ?thesis by (simp add: sent_debug_def)
qed

end
