(* ===== verification/Stack.thy ===== *)
theory Stack
  imports Main_Loop Tcp_Props Tun_Queues
begin

text \<open>
  The stack as a whole: from the start of \<^verbatim>\<open>main\<close> through the rounds of a thread.
\<close>

section \<open>Start\<close>

lemma tun_init_net:
  "net_ok w \<Longrightarrow> length fds = TUN_QUEUES \<Longrightarrow> net_ok (w\<lparr> tun_fds := fds \<rparr>)"
  by (simp add: net_ok_def tun_ok_def)

section \<open>A round\<close>

lemma BUFLEN_int: "sint (of_nat BUFLEN :: u32) = 100"
  by code_simp

text \<open>A frame of the wire in the receive buffer, after \<^verbatim>\<open>eth_header_ntoh\<close>.\<close>

definition received :: "mac \<Rightarrow> mac \<Rightarrow> u16 \<Rightarrow> bytes \<Rightarrow> bytes" where
  "received d s t rest = eth_bytes \<lparr> eth_dst_mac = d, eth_src_mac = s, ether_type = t \<rparr> @ rest"

lemma received_simps [simp]:
  "get_at eth_of (received d s t rest) 0 = \<lparr> eth_dst_mac = d, eth_src_mac = s, ether_type = t \<rparr>"
  "get_at f (received d s t rest) 14 = f rest"
  "14 \<le> off \<Longrightarrow> slice (received d s t rest) off n = slice rest (off - 14) n"
  "length (received d s t rest) = 14 + length rest"
  "14 \<le> off \<Longrightarrow> get_at f (received d s t rest) off = f (drop (off - 14) rest)"
  by (simp_all add: received_def eth.get_append) (simp_all add: get_at_def slice_def eth.enc_length)

lemma process_io_round_frame:
  assumes w: "net_ok w" "some_free w" and buf: "length buffer = BUFLEN"
    and rd: "rd (tun_fds w ! first_free w) 100 = Some (eth_frame d s t c)" and c: "eth_size + length c \<le> BUFLEN"
  shows "process_io_round (rd, err) w buffer =
    bind_run (handle_frame w (received d s t (c @ drop (eth_size + length c) buffer))) (\<lambda>(_, w, buffer). Inr (w, buffer))"
proof -
  let ?h = "\<lparr> eth_dst_mac = d, eth_src_mac = s, ether_type = t \<rparr>"
  let ?rest = "c @ drop (eth_size + length c) buffer"
  have read: "net_interface_read rd w buffer (of_nat BUFLEN) =
      Inr (int (length (eth_frame d s t c)), eth_frame d s t c @ drop (length (eth_frame d s t c)) buffer, w)"
    by (rule net_interface_read_ok [OF w]) (simp_all only: BUFLEN_int rd length_eth_frame buf c)
  have frame: "eth_frame d s t c @ drop (length (eth_frame d s t c)) buffer = eth_bytes (eth_header_hton ?h) @ ?rest"
    by (simp only: length_eth_frame) (simp add: eth_frame_hton [symmetric])
  have "put_at eth_bytes (eth_bytes (eth_header_hton ?h) @ ?rest) 0
      (eth_header_ntoh (get_at eth_of (eth_bytes (eth_header_hton ?h) @ ?rest) 0)) = received d s t ?rest"
    by (simp only: eth.get_append eth_ntoh_hton) (simp add: put_at_def patch_def eth.enc_length received_def)
  then show ?thesis
    unfolding process_io_round_def prod.case read bind_run_simps frame Let_def by simp
qed

text \<open>What a round keeps, as \<open>ends_well\<close> of the handlers.\<close>

lemma bind_ends_well:
  assumes "ends_well w n bad r"
  shows "ends_well w n bad (bind_run (bind_run r (\<lambda>(w, buf). Inr (b, w, buf))) (\<lambda>(_, w, buf). Inr (w, buf)))"
  using assms by (auto simp: ends_well_def bind_run_def split: sum.splits)

lemma arp_receive_ends_well:
  assumes "arp_ok w" and "some_free w" and "arp_end \<le> length buf"
  shows "ends_well w (length buf) bad (arp_receive w buf)"
  using arp_receive_handled [OF assms refl refl] by (auto intro: ends_well_handled)

text \<open>
  A frame whose datagram, if it carries one, fits into it; nothing is said of checksums, protocols,
  addresses or payload.
\<close>

definition frame_ok :: "u16 \<Rightarrow> bytes \<Rightarrow> bool" where
  "frame_ok t c \<longleftrightarrow> eth_size + length c \<le> BUFLEN \<and>
     (t = ETH_P_IP \<longrightarrow> ip_size \<le> length c \<and> ip_size \<le> unat (ntohs (ip_len (ip_of c))) \<and>
        unat (ntohs (ip_len (ip_of c))) \<le> length c)"

lemma process_io_round_ends_well:
  assumes w: "arp_ok w" "some_free w" and buf: "length buffer = BUFLEN"
    and rd: "rd (tun_fds w ! first_free w) 100 = Some (eth_frame d s t c)" and c: "frame_ok t c"
  shows "ends_well w BUFLEN False (process_io_round (rd, err) w buffer)"
proof -
  let ?b = "received d s t (c @ drop (eth_size + length c) buffer)"
  have n: "net_ok w" "eth_size + length c \<le> BUFLEN" using w(1) c by (simp_all add: arp_ok_def frame_ok_def)
  have lb: "length ?b = BUFLEN" using n buf by simp
  have round: "process_io_round (rd, err) w buffer =
      bind_run (handle_frame w ?b) (\<lambda>(_, w, buffer). Inr (w, buffer))"
    by (rule process_io_round_frame [where rd = rd]) (use n w buf rd in simp_all)
  consider "t = ETH_P_ARP" | "t = ETH_P_IP" | "t \<noteq> ETH_P_ARP" "t \<noteq> ETH_P_IP" by blast
  then show ?thesis
  proof cases
    case 1
    have "ends_well w BUFLEN False (arp_receive w ?b)" using arp_receive_ends_well [OF w, of ?b] lb by simp
    then show ?thesis
      using 1 bind_ends_well round by (simp add: handle_frame_def)
  next
    case 2
    have h: "ip_of c = get_at ip_of ?b ip_off"
      using c 2 iph.dec_take [of c] iph.dec_take [of "c @ drop (eth_size + length c) buffer"]
      by (simp add: frame_ok_def)
    have fits: "len_fits ?b (ntohs (ip_len (ip_of c)))"
      using c 2 lb by (simp add: len_fits_def frame_ok_def)
    have "ends_well w BUFLEN False (ip_receive w ?b)"
      using ip_receive_ends_well [OF w h] lb fits by simp
    then show ?thesis
      using 2 bind_ends_well round by (simp add: handle_frame_def)
  next
    case 3
    then show ?thesis using round w lb by (simp add: handle_frame_def ends_well_def)
  qed
qed

text \<open>The kernel answers a read with a frame whose datagram fits into it.\<close>

definition good_read :: "(int \<Rightarrow> int \<Rightarrow> bytes option) \<Rightarrow> bool" where
  "good_read rd \<longleftrightarrow> (\<forall>fd. \<exists>d s t c. rd fd 100 = Some (eth_frame d s t c) \<and> frame_ok t c)"

section \<open>The packets of a neighbour\<close>

lemma arp_packet_fields:
  "arp_header_of (arp_packet op sm sip dm dip @ rest) =
     arp_header_hton \<lparr> hw_type = ARP_ETHERNET, pro_type = ARP_IPV4, hw_size = 6, pro_size = 4, opcode = op \<rparr>"
  "arp_ipv4_of (drop arp_header_size (arp_packet op sm sip dm dip @ rest)) =
     \<lparr> arp_src_mac = sm, arp_src_ip = sip, arp_dst_mac = dm, arp_dst_ip = dip \<rparr>"
proof -
  let ?h = "\<lparr> hw_type = ARP_ETHERNET, pro_type = ARP_IPV4, hw_size = 6, pro_size = 4, opcode = op \<rparr>"
  let ?c = "\<lparr> arp_src_mac = sm, arp_src_ip = sip, arp_dst_mac = dm, arp_dst_ip = dip \<rparr>"
  have p: "arp_packet op sm sip dm dip @ rest = arp_header_bytes (arp_header_hton ?h) @ arp_ipv4_bytes ?c @ rest"
    by (simp add: arp_packet_def arp_header_hton_bytes arp_ipv4_bytes_def)
  show "arp_header_of (arp_packet op sm sip dm dip @ rest) = arp_header_hton ?h"
    unfolding p by (rule arph.dec_enc)
  show "arp_ipv4_of (drop arp_header_size (arp_packet op sm sip dm dip @ rest)) = ?c"
    unfolding p by (simp add: arph.enc_length arpc.dec_enc)
qed

lemma arp_ntoh_hton [simp]: "arp_header_ntoh (arp_header_hton h) = h"
  by (simp add: arp_header_ntoh_def arp_header_hton_def)

text \<open>An ARP request for this host, in the buffer and in a round.\<close>

lemma handle_arp_request:
  assumes w: "arp_ok w" "some_free w"
  shows "\<exists>w' buffer'. handle_frame w (received d pm ETH_P_ARP (arp_packet ARP_REQUEST pm pip dm (ni_ip w) @ rest)) =
      Inr (True, w', buffer') \<and> length buffer' = arp_end + length rest \<and>
    handled w ((arp_table w)((ARP_IPV4, pip) \<mapsto> pm))
      [eth_frame pm (ni_mac w) ETH_P_ARP (arp_packet ARP_REPLY (ni_mac w) (ni_ip w) pm pip)] w'"
proof -
  let ?b = "received d pm ETH_P_ARP (arp_packet ARP_REQUEST pm pip dm (ni_ip w) @ rest)"
  let ?h = "\<lparr> hw_type = ARP_ETHERNET, pro_type = ARP_IPV4, hw_size = 6, pro_size = 4, opcode = ARP_REQUEST \<rparr>"
  let ?c = "\<lparr> arp_src_mac = pm, arp_src_ip = pip, arp_dst_mac = dm, arp_dst_ip = ni_ip w \<rparr>"
  have h: "?h = arp_header_ntoh (get_at arp_header_of ?b arp_off)"
    by (simp add: arp_packet_fields del: append_assoc)
  have c: "?c = get_at arp_ipv4_of ?b arp_data_off"
    using arp_packet_fields(2) by (simp del: append_assoc length_append drop_append)
  have l: "length ?b = arp_end + length rest" by simp
  then obtain w' b' where r: "arp_receive w ?b = Inr (w', b')" "length b' = length ?b"
    and hd: "handled w (rfc826_table (ni_ip w) (arp_table w) ?h ?c) (rfc826_frames (ni_ip w) (ni_mac w) ?h ?c) w'"
    using arp_receive_handled [OF w _ h c] by auto
  have "handle_frame w ?b = Inr (True, w', b')" using r(1) l by (simp add: handle_frame_def)
  then show ?thesis using hd r(2) l by (simp add: rfc826_table_def rfc826_frames_def arp_supported_def)
qed

lemma arp_round:
  assumes w: "arp_ok w" "some_free w" and buf: "length buffer = BUFLEN"
    and rd: "rd (tun_fds w ! first_free w) 100 =
      Some (eth_frame d pm ETH_P_ARP (arp_packet ARP_REQUEST pm pip dm (ni_ip w)))"
  shows "\<exists>w' buffer'. process_io_round (rd, err) w buffer = Inr (w', buffer') \<and> length buffer' = BUFLEN \<and>
    handled w ((arp_table w)((ARP_IPV4, pip) \<mapsto> pm))
      [eth_frame pm (ni_mac w) ETH_P_ARP (arp_packet ARP_REPLY (ni_mac w) (ni_ip w) pm pip)] w'"
proof -
  let ?p = "arp_packet ARP_REQUEST pm pip dm (ni_ip w)"
  have "process_io_round (rd, err) w buffer =
      bind_run (handle_frame w (received d pm ETH_P_ARP (?p @ drop (eth_size + length ?p) buffer))) (\<lambda>(_, w, buffer). Inr (w, buffer))"
    by (rule process_io_round_frame [where rd = rd]) (use w buf rd in \<open>simp_all add: arp_ok_def\<close>)
  then show ?thesis
    using handle_arp_request [OF w, of d pm pip dm "drop (eth_size + length ?p) buffer"] buf by fastforce
qed

text \<open>An echo request from a host in the cache, in a round.\<close>

lemma ping_round:
  assumes w: "arp_ok w" "some_free w" and buf: "length buffer = BUFLEN"
    and rd: "rd (tun_fds w ! first_free w) 100 = Some (eth_frame d pm ETH_P_IP (ip_bytes h @ msg))"
    and h: "ip_header_check h" "protocol h = PROTOCOL_ICMP" "unat (ntohs (ip_len h)) = ip_size + length msg"
    and msg: "icmp_size \<le> length msg" "ip_data_off + length msg \<le> BUFLEN" "internet_checksum msg = 0"
      "msg ! 0 = ICMP_ECHO_REQUEST"
    and known: "arp_table w (ARP_IPV4, src_addr h) = Some pm"
  shows "\<exists>w' buffer'. process_io_round (rd, err) w buffer = Inr (w', buffer') \<and> length buffer' = BUFLEN \<and>
    handled w (arp_table w) [eth_frame pm (ni_mac w) ETH_P_IP
      (ip_packet ((ip_header_ntoh h)\<lparr> dst_addr := htonl (src_addr h), src_addr := htonl (ni_ip w) \<rparr>) (echo_reply msg))] w'"
proof -
  let ?p = "ip_bytes h @ msg"
  let ?b = "received d pm ETH_P_IP (?p @ drop (eth_size + length ?p) buffer)"
  have lp: "length ?p = ip_size + length msg" by (simp add: iph.enc_length)
  have round: "process_io_round (rd, err) w buffer =
      bind_run (handle_frame w ?b) (\<lambda>(_, w, buffer). Inr (w, buffer))"
    by (rule process_io_round_frame [where rd = rd]) (use w buf rd lp msg(2) in \<open>simp_all add: arp_ok_def\<close>)
  have lb: "length ?b = BUFLEN" using lp msg(2) buf by simp
  have get: "h = get_at ip_of ?b ip_off" by (simp add: iph.dec_enc)
  have m: "msg = slice ?b ip_data_off (ip_size + length msg - ip_size)"
    by (simp add: iph.enc_length) (simp add: slice_def iph.enc_length)
  have "\<exists>w' b'. ip_receive w ?b = Inr (w', b') \<and> length b' = length ?b \<and>
      handled w (arp_table w) [eth_frame pm (ni_mac w) ETH_P_IP
        (ip_packet ((ip_header_ntoh h)\<lparr> dst_addr := htonl (src_addr h), src_addr := htonl (ni_ip w) \<rparr>) (echo_reply msg))] w'"
    by (rule ip_receive_echo [OF w get h(1,2) h(3) [symmetric] _ _ m msg(3,4) known]) (use msg(1,2) lb in simp_all)
  then obtain w' b' where "ip_receive w ?b = Inr (w', b')" "length b' = length ?b" and
    hd: "handled w (arp_table w) [eth_frame pm (ni_mac w) ETH_P_IP
        (ip_packet ((ip_header_ntoh h)\<lparr> dst_addr := htonl (src_addr h), src_addr := htonl (ni_ip w) \<rparr>) (echo_reply msg))] w'"
    by blast
  then show ?thesis using round lb by (simp add: handle_frame_def)
qed

section \<open>Failed reads\<close>

text \<open>After a failed read the buffer has the frame of an earlier round; its type is converted once more.\<close>

lemma process_io_round_failed:
  assumes w: "net_ok w" "some_free w" and rd: "rd (tun_fds w ! first_free w) 100 = None"
  shows "process_io_round (rd, err) w (received d s t rest) =
    bind_run (handle_frame (emit (ERROR (''Read from tun_fd: '' @ err @ newline)) w) (received d s (ntohs t) rest))
      (\<lambda>(_, w, buffer). Inr (w, buffer))"
proof -
  have read: "net_interface_read rd w (received d s t rest) (of_nat BUFLEN) = Inr (- 1, received d s t rest, w)"
    using net_interface_read_free [OF w, of rd "of_nat BUFLEN"] rd by (simp only: BUFLEN_int) simp
  have "put_at eth_bytes (received d s t rest) 0 (eth_header_ntoh (get_at eth_of (received d s t rest) 0)) =
      received d s (ntohs t) rest"
    by (simp add: eth_header_ntoh_def) (simp add: put_at_def patch_def eth.enc_length received_def)
  then show ?thesis unfolding process_io_round_def prod.case read bind_run_simps Let_def by simp
qed

text \<open>Any buffer of the size of a header has the form of a received frame.\<close>

lemma received_parts:
  assumes "eth_size \<le> length buffer"
  shows "buffer = received (eth_dst_mac (eth_of buffer)) (eth_src_mac (eth_of buffer)) (ether_type (eth_of buffer))
    (drop eth_size buffer)"
proof -
  have "eth_bytes (eth_of buffer) @ drop eth_size buffer = buffer"
    using eth.put_get [of 0 buffer] assms by (simp add: put_at_def patch_def get_at_def eth.enc_length)
  then show ?thesis by (cases "eth_of buffer") (simp add: received_def)
qed

end
