(* ===== verification/Stack_Reads.thy ===== *)
theory Stack_Reads
  imports Stack
begin

text \<open>
  The threads of \<^verbatim>\<open>main.c\<close> on reads that may fail.  The handlers never touch the Ethernet header of the
  buffer, so after a round its type is known; a failed read swaps the bytes of that type once more.
\<close>

section \<open>The handlers keep the Ethernet header\<close>

definition keeps_header :: "bytes \<Rightarrow> ('w, 'w \<times> bytes) run \<Rightarrow> bool" where
  "keeps_header buf r \<longleftrightarrow> (\<forall>w' buf'. r = Inr (w', buf') \<longrightarrow> take eth_size buf' = take eth_size buf)"

lemma keeps_header_simps [simp]:
  "keeps_header buf (Inl e)"
  "keeps_header buf (Inr (w, buf')) \<longleftrightarrow> take eth_size buf' = take eth_size buf"
  by (simp_all add: keeps_header_def)

lemma keeps_header_bind: "(\<And>x. m = Inr x \<Longrightarrow> keeps_header buf (f x)) \<Longrightarrow> keeps_header buf (bind_run m f)"
  by (cases m) simp_all

lemma take_put_at: "n \<le> off \<Longrightarrow> off \<le> length buf \<Longrightarrow> take n (put_at enc buf off x) = take n buf"
  by (simp add: put_at_def patch_def min_def)

lemma length_put_at: "off \<le> length buf \<Longrightarrow> length buf \<le> length (put_at enc buf off x)"
  by (simp add: put_at_def patch_def)

lemma length_put_at_le: "off \<le> length buf \<Longrightarrow> n \<le> length buf \<Longrightarrow> n \<le> length (put_at enc buf off x)"
  by (rule le_trans [OF _ length_put_at])

lemma arp_reply_keeps: "arp_end \<le> length buf \<Longrightarrow> keeps_header buf (arp_reply w buf)"
  unfolding arp_reply_def Let_def by (rule keeps_header_bind) (simp add: take_put_at length_put_at_le)

lemma arp_receive_keeps: "keeps_header buf (arp_receive w buf)"
proof (cases "arp_data_off \<le> length buf")
  case True
  let ?b = "put_at arp_header_bytes buf arp_off (arp_header_ntoh (get_at arp_header_of buf arp_off))"
  have b: "take eth_size ?b = take eth_size buf" using True by (simp add: take_put_at)
  have "keeps_header buf (arp_reply v ?b)" if "arp_end \<le> length ?b" for v
    using arp_reply_keeps [OF that, of v] by (simp add: keeps_header_def b)
  then show ?thesis
    using True b unfolding arp_receive_def Let_def by (auto intro!: keeps_header_bind)
qed (simp add: arp_receive_def)

lemma ip_send_packet_keeps: "eth_size \<le> off \<Longrightarrow> keeps_header buf (ip_send_packet w buf off)"
  unfolding ip_send_packet_def Let_def
  by (auto intro!: keeps_header_bind simp: take_put_at split: option.splits)

lemma receive_echo_request_keeps:
  assumes "ip_data_off \<le> length buf"
  shows "keeps_header buf (receive_echo_request w buf)"
proof -
  have "keeps_header buf (ip_send_packet w b ip_off)" if "take eth_size b = take eth_size buf" for b
    using ip_send_packet_keeps [of ip_off b w] that by (simp add: keeps_header_def)
  then show ?thesis
    using assms unfolding receive_echo_request_def Let_def by (simp add: take_put_at length_put_at_le)
qed

lemma icmp_receive_keeps: "keeps_header buf (icmp_receive w buf)"
  by (auto simp: icmp_receive_def Let_def receive_echo_request_keeps split: option.splits)

lemma tcp_receive_keeps: "keeps_header buf (tcp_receive w buf)"
  by (auto simp: tcp_receive_def Let_def take_put_at split: option.splits)

lemma ip_receive_keeps: "keeps_header buf (ip_receive w buf)"
proof (cases "ip_data_off \<le> length buf")
  case True
  let ?b = "put_at ip_bytes buf ip_off (ip_header_ntoh (get_at ip_of buf ip_off))"
  have b: "take eth_size ?b = take eth_size buf" using True by (simp add: take_put_at)
  have "keeps_header buf (tcp_receive w ?b)" "keeps_header buf (icmp_receive w ?b)" "keeps_header buf (udp_receive w ?b)"
    using tcp_receive_keeps [of ?b w] icmp_receive_keeps [of ?b w] b by (simp_all add: keeps_header_def udp_receive_def)
  then show ?thesis using b unfolding ip_receive_def Let_def by simp
qed (simp add: ip_receive_def)

text \<open>The type of the frame in a buffer.\<close>

definition buffer_type :: "bytes \<Rightarrow> u16" where
  "buffer_type buf = ether_type (get_at eth_of buf 0)"

lemma buffer_type_take:
  assumes "take eth_size b = take eth_size b'" and "eth_size \<le> length b" "eth_size \<le> length b'"
  shows "buffer_type b = buffer_type b'"
  using assms eth.dec_take [of b] eth.dec_take [of b'] by (simp add: buffer_type_def get_at_def)

lemma handle_frame_type:
  assumes "handle_frame w buf = Inr (r, w', buf')" and "length buf' = length buf"
  shows "buffer_type buf' = buffer_type buf"
proof (rule buffer_type_take)
  show "take eth_size buf' = take eth_size buf"
    using assms(1) arp_receive_keeps [of buf w] ip_receive_keeps [of buf w]
    by (auto simp: handle_frame_def Let_def bind_run_eq_Inr keeps_header_def split: if_splits)
  show "eth_size \<le> length buf" using assms(1) by (simp add: handle_frame_def split: if_splits)
  then show "eth_size \<le> length buf'" using assms(2) by simp
qed

section \<open>Rounds\<close>

text \<open>The type that a failed read would make of the type in the buffer belongs to no protocol.\<close>

definition quiet :: "bytes \<Rightarrow> bool" where
  "quiet buf \<longleftrightarrow> ntohs (buffer_type buf) \<notin> {ETH_P_ARP, ETH_P_IP}"

lemma round_type:
  assumes w: "arp_ok w" "some_free w" and buf: "length buffer = BUFLEN"
    and rd: "rd (tun_fds w ! first_free w) 100 = Some (eth_frame d s t c)" and c: "eth_size + length c \<le> BUFLEN"
    and r: "process_io_round (rd, err) w buffer = Inr (w', b)" "length b = BUFLEN"
  shows "buffer_type b = t"
proof -
  let ?b = "received d s t (c @ drop (eth_size + length c) buffer)"
  have n: "net_ok w" using w(1) by (simp add: arp_ok_def)
  obtain v where "handle_frame w ?b = Inr (v, w', b)"
    using r(1) process_io_round_frame [where rd = rd, OF n w(2) buf rd c, of err] by (auto simp: bind_run_eq_Inr)
  then have "buffer_type b = buffer_type ?b" by (rule handle_frame_type) (use r(2) buf c in simp)
  then show ?thesis by (simp add: buffer_type_def)
qed

lemma round_failed:
  assumes w: "net_ok w" "some_free w" and buf: "length buffer = BUFLEN"
    and rd: "rd (tun_fds w ! first_free w) 100 = None" and q: "quiet buffer"
  shows "process_io_round (rd, err) w buffer =
    Inr (emit (ERROR (''Read from tun_fd: '' @ err @ newline)) w,
         put_at eth_bytes buffer 0 (eth_header_ntoh (get_at eth_of buffer 0)))"
proof -
  let ?h = "eth_of buffer"
  let ?b = "\<lambda>t. received (eth_dst_mac ?h) (eth_src_mac ?h) t (drop eth_size buffer)"
  have b: "buffer = ?b (ether_type ?h)" by (rule received_parts) (simp add: buf)
  have t: "ntohs (ether_type ?h) \<noteq> ETH_P_ARP \<and> ntohs (ether_type ?h) \<noteq> ETH_P_IP"
    using q by (simp add: quiet_def buffer_type_def get_at_def)
  have swap: "put_at eth_bytes buffer 0 (eth_header_ntoh (get_at eth_of buffer 0)) = ?b (ntohs (ether_type ?h))"
    by (cases ?h) (simp add: get_at_def eth_header_ntoh_def put_at_def patch_def eth.enc_length received_def)
  have "process_io_round (rd, err) w (?b (ether_type ?h)) =
      Inr (emit (ERROR (''Read from tun_fd: '' @ err @ newline)) w, ?b (ntohs (ether_type ?h)))"
    unfolding process_io_round_failed [where rd = rd, OF w rd]
    using t by (simp add: handle_frame_def buf)
  then show ?thesis unfolding swap b [symmetric] .
qed

section \<open>All threads\<close>

text \<open>
  Answers of the kernel: a frame whose datagram fits (\<open>good_read\<close>), or an error.  The flag of a thread
  says that its next read must not fail: its last one failed, or it got a frame whose type is that of
  ARP or IPv4 with the bytes swapped.
\<close>

definition failed_read :: "(int \<Rightarrow> int \<Rightarrow> bytes option) \<Rightarrow> bool" where
  "failed_read rd \<longleftrightarrow> (\<forall>fd. rd fd 100 = None)"

definition calm_read :: "(int \<Rightarrow> int \<Rightarrow> bytes option) \<Rightarrow> bool" where
  "calm_read rd \<longleftrightarrow> (\<forall>fd d s t c. rd fd 100 = Some (eth_frame d s t c) \<longrightarrow> ntohs t \<notin> {ETH_P_ARP, ETH_P_IP})"

fun safe_reads :: "(nat \<Rightarrow> bool) \<Rightarrow> (nat \<times> (int \<Rightarrow> int \<Rightarrow> bytes option) \<times> string) list \<Rightarrow> bool" where
  "safe_reads armed [] \<longleftrightarrow> True"
| "safe_reads armed ((t, rd, err) # sched) \<longleftrightarrow> t < THREADS \<and>
     (good_read rd \<and> safe_reads (armed(t := \<not> calm_read rd)) sched \<or>
      failed_read rd \<and> \<not> armed t \<and> safe_reads (armed(t := True)) sched)"

text \<open>What the threads keep: valid state and buffers, and quiet buffers where a read may fail.\<close>

definition bufs_ok :: "(nat \<Rightarrow> bool) \<Rightarrow> bytes list \<Rightarrow> bool" where
  "bufs_ok armed buffers \<longleftrightarrow> length buffers = THREADS \<and>
     (\<forall>t < THREADS. length (buffers ! t) = BUFLEN \<and> (\<not> armed t \<longrightarrow> quiet (buffers ! t)))"

lemma bufs_ok_update:
  "bufs_ok armed buffers \<Longrightarrow> length b = BUFLEN \<Longrightarrow> v \<or> quiet b \<Longrightarrow> bufs_ok (armed(t := v)) (buffers[t := b])"
  by (auto simp: bufs_ok_def nth_list_update)

text \<open>One round of a thread: it returns with such buffers, or ends the process by \<^verbatim>\<open>exit(1)\<close>.\<close>

definition round_ok :: "'a arp_state_scheme \<Rightarrow> bool \<Rightarrow> ('a arp_state_scheme, 'a arp_state_scheme \<times> bytes) run \<Rightarrow> bool" where
  "round_ok w v r = (case r of
     Inr (w', b) \<Rightarrow> arp_ok w' \<and> some_free w' \<and> ni_ip w' = ni_ip w \<and> ni_mac w' = ni_mac w \<and> length b = BUFLEN \<and> (v \<or> quiet b)
   | Inl e \<Rightarrow> \<exists>w'. e = Exit 1 w' \<and> arp_ok w')"

lemma good_round:
  assumes "arp_ok w" "some_free w" "length buffer = BUFLEN" and "good_read rd"
  shows "round_ok w (\<not> calm_read rd) (process_io_round (rd, err) w buffer)"
proof -
  obtain d s t c where rd: "rd (tun_fds w ! first_free w) 100 = Some (eth_frame d s t c)" "frame_ok t c"
    using assms(4) unfolding good_read_def by blast
  have r: "ends_well w BUFLEN False (process_io_round (rd, err) w buffer)"
    by (rule process_io_round_ends_well [where rd = rd, OF assms(1-3) rd])
  have "eth_size + length c \<le> BUFLEN" using rd(2) by (simp add: frame_ok_def)
  moreover have "calm_read rd \<longrightarrow> ntohs t \<notin> {ETH_P_ARP, ETH_P_IP}" using rd(1) unfolding calm_read_def by blast
  ultimately have "calm_read rd \<longrightarrow> quiet b" if "process_io_round (rd, err) w buffer = Inr (w', b)" "length b = BUFLEN" for w' b
    using round_type [where rd = rd, OF assms(1-3) rd(1) _ that] by (simp add: quiet_def)
  with r show ?thesis by (auto simp: round_ok_def ends_well_def split: sum.splits halt.splits)
qed

lemma failed_round:
  assumes "arp_ok w" "some_free w" "length buffer = BUFLEN" and "failed_read rd" and "quiet buffer"
  shows "round_ok w True (process_io_round (rd, err) w buffer)"
proof -
  have n: "net_ok w" "rd (tun_fds w ! first_free w) 100 = None" using assms(1,4) by (simp_all add: arp_ok_def failed_read_def)
  show ?thesis
    using assms(1-3) round_failed [where rd = rd, OF n(1) assms(2,3) n(2) assms(5), of err]
    by (simp add: round_ok_def eth.length_put)
qed

lemma run_threads_safe:
  assumes "arp_ok w" and "some_free w" and "bufs_ok armed buffers" and "safe_reads armed sched"
  shows "case run_threads sched w buffers of
      Inr (w', buffers') \<Rightarrow> arp_ok w' \<and> some_free w' \<and> ni_ip w' = ni_ip w \<and> ni_mac w' = ni_mac w \<and>
        length buffers' = THREADS \<and> (\<forall>b \<in> set buffers'. length b = BUFLEN)
    | Inl e \<Rightarrow> \<exists>w'. e = Exit 1 w' \<and> arp_ok w'"
  using assms
proof (induction sched arbitrary: w buffers armed)
  case Nil
  then show ?case by (auto simp: bufs_ok_def in_set_conv_nth)
next
  case (Cons e sched)
  obtain t rd err where e: "e = (t, rd, err)" by (cases e)
  have t: "t < length buffers" "length (buffers ! t) = BUFLEN" "\<not> armed t \<longrightarrow> quiet (buffers ! t)"
    using Cons.prems(3,4) by (auto simp: e bufs_ok_def)
  let ?r = "process_io_round (rd, err) w (buffers ! t)"
  obtain v where v: "round_ok w v ?r" "safe_reads (armed(t := v)) sched"
    using Cons.prems(1,2,4) t(2,3) good_round [of w "buffers ! t" rd err] failed_round [of w "buffers ! t" rd err]
    by (auto simp: e)
  show ?case
  proof (cases ?r)
    case (Inl h)
    then show ?thesis using v(1) e t(1) by (auto simp: round_ok_def)
  next
    case (Inr p)
    obtain w' b where p: "p = (w', b)" by (cases p)
    have w': "arp_ok w'" "some_free w'" "length b = BUFLEN" "v \<or> quiet b" "ni_ip w' = ni_ip w" "ni_mac w' = ni_mac w"
      using v(1) Inr p by (simp_all add: round_ok_def)
    from Cons.IH [OF w'(1,2) bufs_ok_update [OF Cons.prems(3) w'(3,4)] v(2)] Inr p e t(1) w'(5,6)
    show ?thesis by (auto split: sum.splits)
  qed
qed

text \<open>The zeroed buffers that the threads start with.\<close>

lemma zero_buffer_quiet: "quiet (replicate BUFLEN 0)"
proof -
  have "buffer_type (replicate BUFLEN 0) = 0" by code_simp
  moreover have "ntohs 0 \<noteq> ETH_P_ARP \<and> ntohs 0 \<noteq> ETH_P_IP" by code_simp
  ultimately show ?thesis by (simp add: quiet_def)
qed

end
