(* ===== verification/Stack_Spec.thy ===== *)
theory Stack_Spec
  imports Stack_Reads
begin

text \<open>
  What the stack promises to its network, as a function on frames, and that the threads of \<^verbatim>\<open>main.c\<close>
  implement it.
\<close>

section \<open>The specification\<close>

text \<open>The neighbours that the host knows: protocol and address, as in the table of RFC 826.\<close>

type_synonym neighbours = "u16 \<times> u32 \<Rightarrow> mac option"

text \<open>A region with its checksum filled in has the sum of all ones (RFC 1071).\<close>

definition sum_valid :: "bytes \<Rightarrow> bool" where
  "sum_valid bs \<longleftrightarrow> rfc1071_sum bs = 0xffff"

text \<open>The payload of a datagram, by its length field; an echo request that the host has to answer.\<close>

definition ip_payload :: "bytes \<Rightarrow> bytes" where
  "ip_payload c = slice c ip_size (unat (ntohs (ip_len (ip_of c))) - ip_size)"

definition valid_ping :: "bytes \<Rightarrow> bool" where
  "valid_ping c \<longleftrightarrow> sum_valid (take ip_size c) \<and> protocol (ip_of c) = PROTOCOL_ICMP \<and>
     sum_valid (ip_payload c) \<and> ip_payload c ! 0 = ICMP_ECHO_REQUEST"

text \<open>
  The answer to a frame of type \<open>t\<close> with the content \<open>c\<close>: the frames that the host with the addresses
  \<open>own\<close> and \<open>own_mac\<close> sends, and what it knows afterwards.  A ping of a host that it does not know makes it
  ask for that host and give up (\<open>None\<close>).
\<close>

definition react :: "u32 \<Rightarrow> mac \<Rightarrow> neighbours \<Rightarrow> u16 \<Rightarrow> bytes \<Rightarrow> bytes list \<times> neighbours option" where
  "react own own_mac tbl t c =
     (if t = ETH_P_ARP then
        let h = arp_header_ntoh (arp_header_of c); p = arp_ipv4_of (drop arp_header_size c)
        in (rfc826_frames own own_mac h p, Some (rfc826_table own tbl h p))
      else if t = ETH_P_IP \<and> valid_ping c then
        let h = ip_of c in
        case tbl (ARP_IPV4, src_addr h) of
          Some peer \<Rightarrow> ([eth_frame peer own_mac ETH_P_IP
            (ip_bytes (ip_header_update_checksum (h\<lparr> src_addr := own, dst_addr := src_addr h \<rparr>)) @ echo_reply (ip_payload c))],
            Some tbl)
        | None \<Rightarrow> ([eth_frame BROADCAST own_mac ETH_P_ARP
            (arp_packet ARP_REQUEST own_mac own BROADCAST (src_addr h))], None)
      else ([], Some tbl))"

text \<open>A sequence of reads; \<open>None\<close> is a read that fails.\<close>

fun host_run :: "u32 \<Rightarrow> mac \<Rightarrow> neighbours \<Rightarrow> (u16 \<times> bytes) option list \<Rightarrow> bytes list \<times> neighbours option" where
  "host_run own own_mac tbl [] = ([], Some tbl)"
| "host_run own own_mac tbl (None # reads) = host_run own own_mac tbl reads"
| "host_run own own_mac tbl (Some (t, c) # reads) =
     (case react own own_mac tbl t c of
        (out, None) \<Rightarrow> (out, None)
      | (out, Some tbl') \<Rightarrow> (case host_run own own_mac tbl' reads of (outs, r) \<Rightarrow> (out @ outs, r)))"

text \<open>
  The frames for which this is promised: the packet that the type announces is in the frame, so that
  nothing that an earlier frame left in the buffer is read.
\<close>

definition frame_full :: "u16 \<Rightarrow> bytes \<Rightarrow> bool" where
  "frame_full t c \<longleftrightarrow> frame_ok t c \<and>
     (t = ETH_P_ARP \<longrightarrow> arp_header_size + arp_ipv4_size \<le> length c) \<and>
     (t = ETH_P_IP \<and> protocol (ip_of c) = PROTOCOL_ICMP \<longrightarrow> ip_size + icmp_size \<le> unat (ntohs (ip_len (ip_of c))))"

section \<open>Checksums\<close>

lemma sum_valid_iff:
  assumes "length bs \<le> 131074"
  shows "internet_checksum bs = 0 \<longleftrightarrow> sum_valid bs"
proof -
  have ones: "NOT (0xffff :: u16) = 0" "htons 0xffff = 0xffff" by code_simp+
  have "internet_checksum bs = 0 \<longleftrightarrow> sum16 bs = 0xffff"
    unfolding internet_checksum_def using ones(1) by (metis bit.double_compl)
  also have "\<dots> \<longleftrightarrow> htons (sum16 bs) = 0xffff" using ones(2) by (metis htons_htons)
  finally show ?thesis by (simp add: sum_valid_def sum16_rfc1071 [OF assms])
qed

section \<open>What the handlers do\<close>

text \<open>A handler called in \<open>w\<close> on a buffer of \<open>n\<close> bytes does what is prescribed.\<close>

definition does ::
  "'a arp_state_scheme \<Rightarrow> nat \<Rightarrow> bytes list \<times> neighbours option \<Rightarrow> ('a arp_state_scheme, 'a arp_state_scheme \<times> bytes) run \<Rightarrow> bool" where
  "does w n what r = (case what of
     (out, Some tbl) \<Rightarrow> \<exists>w' buf. r = Inr (w', buf) \<and> length buf = n \<and> handled w tbl out w'
   | (out, None) \<Rightarrow> \<exists>w'. r = Inl (Exit 1 w') \<and> handled w (arp_table w) out w')"

lemma does_simps [simp]:
  "does w n (out, Some tbl) r \<longleftrightarrow> (\<exists>w' buf. r = Inr (w', buf) \<and> length buf = n \<and> handled w tbl out w')"
  "does w n (out, None) r \<longleftrightarrow> (\<exists>w'. r = Inl (Exit 1 w') \<and> handled w (arp_table w) out w')"
  by (simp_all add: does_def)

lemma does_bind:
  "does w n what r \<Longrightarrow> does w n what (bind_run (bind_run r (\<lambda>(w, buf). Inr (b, w, buf))) (\<lambda>(_, w, buf). Inr (w, buf)))"
  by (auto simp: does_def split: prod.splits option.splits)

lemma does_print:
  assumes "arp_ok w" "some_free w" and "frames_of es = []" "length buf = n"
  shows "does w n ([], Some (arp_table w)) (Inr (emit es w, buf))"
  using assms handled_refl [of w] by (simp add: handled_emit)

lemma tcp_receive_does:
  assumes ok: "arp_ok w" "some_free w" and H: "H = get_at ip_of buf ip_off" and fits: "len_fits buf (ip_len H)"
    and room: "ip_data_off + tcp_size \<le> length buf" "length buf < 2 ^ 31"
  shows "does w (length buf) ([], Some (arp_table w)) (tcp_receive w buf)"
proof -
  obtain good where "tcp_header_check buf = Some good"
    using len_fits_iff [of buf H] fits room by (auto simp: tcp_header_check_def H [symmetric] Let_def)
  then show ?thesis
    using room ok by (simp add: tcp_receive_def Let_def tcph.length_put handled_emit handled_refl)
qed

lemma echo_packet:
  "ip_packet ((ip_header_ntoh h)\<lparr> dst_addr := htonl (src_addr h), src_addr := htonl own \<rparr>) msg =
   ip_bytes (ip_header_update_checksum (h\<lparr> src_addr := own, dst_addr := src_addr h \<rparr>)) @ msg"
  by (simp add: ip_packet_def ip_header_ntoh_def ip_header_hton_def)

lemma icmp_receive_does:
  assumes ok: "arp_ok w" "some_free w" and H: "ip_header_ntoh h = get_at ip_of buf ip_off"
    and n: "n = unat (ntohs (ip_len h))" "ip_size + icmp_size \<le> n" "ip_off + n \<le> length buf" "length buf < 2 ^ 31"
    and msg: "msg = slice buf ip_data_off (n - ip_size)"
  shows "does w (length buf)
    (if internet_checksum msg = 0 \<and> msg ! 0 = ICMP_ECHO_REQUEST
     then case arp_table w (ARP_IPV4, src_addr h) of
         Some peer \<Rightarrow> ([eth_frame peer (ni_mac w) ETH_P_IP
           (ip_bytes (ip_header_update_checksum (h\<lparr> src_addr := ni_ip w, dst_addr := src_addr h \<rparr>)) @ echo_reply msg)],
           Some (arp_table w))
       | None \<Rightarrow> ([eth_frame BROADCAST (ni_mac w) ETH_P_ARP
           (arp_packet ARP_REQUEST (ni_mac w) (ni_ip w) BROADCAST (src_addr h))], None)
     else ([], Some (arp_table w))) (icmp_receive w buf)"
proof -
  let ?H = "ip_header_ntoh h"
  have len: "unat (ip_len ?H) = n" using n(1) by simp
  have room: "ip_data_off \<le> length buf" "ip_data_off + icmp_size \<le> length buf" using n by linarith+
  have fits: "len_fits buf (ip_len ?H)" using n len by (simp add: len_fits_def)
  have m: "unat (ucast (ip_header_get_payload_length ?H) :: u32) = n - ip_size"
    using payload_length [of ?H] n(2) len by linarith
  have check: "icmp_check buf (ucast (ip_header_get_payload_length ?H)) = Some (internet_checksum msg = 0)"
    using m n by (auto simp: icmp_check_def msg)
  have type: "icmp_type (get_at icmp_of buf ip_data_off) = msg ! 0"
    using n room by (simp add: get_at_def icmp_of_def slice_def msg)
  show ?thesis
  proof (cases "internet_checksum msg = 0 \<and> msg ! 0 = ICMP_ECHO_REQUEST")
    case False
    then show ?thesis
      using ok room check type by (auto simp: icmp_receive_def H [symmetric] Let_def handled_emit handled_refl)
  next
    case True
    then have run: "icmp_receive w buf = receive_echo_request w buf"
      using room check type by (simp add: icmp_receive_def H [symmetric])
    show ?thesis
    proof (cases "arp_table w (ARP_IPV4, src_addr h)")
      case None
      obtain b where b: "receive_echo_request w buf = ip_send_packet w b ip_off" "length b = length buf"
        "get_at ip_of b ip_off = ?H\<lparr> dst_addr := src_addr ?H, src_addr := htonl (ni_ip w) \<rparr>"
        by (rule receive_echo_request_sends [OF H fits room(2) n(4)])
      show ?thesis
        using ip_send_packet_unresolved [OF ok b(3) [symmetric]] None True run b(1,2) room by simp
    next
      case (Some peer)
      have "\<exists>w' buf'. receive_echo_request w buf = Inr (w', buf') \<and> length buf' = length buf \<and>
        handled w (arp_table w) [eth_frame peer (ni_mac w) ETH_P_IP
          (ip_packet (?H\<lparr> dst_addr := src_addr ?H, src_addr := htonl (ni_ip w) \<rparr>) (echo_reply msg))] w'"
        by (rule receive_echo_request_handled [OF ok H]) (use len n msg Some in simp_all)
      then show ?thesis using True Some run by (simp add: echo_packet)
    qed
  qed
qed

text \<open>A datagram \<open>c\<close> at its place in the buffer, after the conversion of its header.\<close>

lemma datagram_in_buffer:
  assumes c: "frame_full ETH_P_IP c" and buf: "buf = received d s ETH_P_IP (c @ rest)" and room: "length buf = BUFLEN"
    and H: "H = ip_header_ntoh (ip_of c)" and n: "n = unat (ntohs (ip_len (ip_of c)))"
  shows "get_at ip_of buf ip_off = ip_of c"
    and "ip_header_check (ip_of c) \<longleftrightarrow> sum_valid (take ip_size c)"
    and "ip_payload c = slice (put_at ip_bytes buf ip_off H) ip_data_off (n - ip_size)"
    and "internet_checksum (ip_payload c) = 0 \<longleftrightarrow> sum_valid (ip_payload c)"
    and "len_fits (put_at ip_bytes buf ip_off H) (ip_len H)" "ip_off + n \<le> BUFLEN"
proof -
  have l: "ip_size \<le> length c" "ip_size \<le> n" "n \<le> length c" "length c \<le> 86"
    using c by (simp_all add: frame_full_def frame_ok_def n)
  have image: "ip_bytes (ip_of c) = take ip_size c" using l(1) iph.enc_dec [of "take ip_size c"] iph.dec_take [of c] by simp
  note b = ip_buffer [where buf = buf and H = H]
  show "get_at ip_of buf ip_off = ip_of c"
    using l(1) iph.dec_take [of c] iph.dec_take [of "c @ rest"] by (simp add: buf)
  show "ip_header_check (ip_of c) \<longleftrightarrow> sum_valid (take ip_size c)"
    using sum_valid_iff [of "take ip_size c"] by (auto simp: ip_header_check_def image)
  show "ip_payload c = slice (put_at ip_bytes buf ip_off H) ip_data_off (n - ip_size)"
    using room l unfolding n by (simp add: b, simp add: buf, simp add: ip_payload_def slice_def)
  show "internet_checksum (ip_payload c) = 0 \<longleftrightarrow> sum_valid (ip_payload c)"
    by (rule sum_valid_iff) (use l n in \<open>simp add: ip_payload_def slice_def\<close>)
  have "length (put_at ip_bytes buf ip_off H) = BUFLEN" using room by (simp add: b)
  then show "len_fits (put_at ip_bytes buf ip_off H) (ip_len H)" "ip_off + n \<le> BUFLEN"
    using l by (simp_all add: len_fits_def H n)
qed

lemma ip_receive_does:
  assumes ok: "arp_ok w" "some_free w" and c: "frame_full ETH_P_IP c" and buf: "buf = received d s ETH_P_IP (c @ rest)"
    and room: "length buf = BUFLEN"
  shows "does w BUFLEN (react (ni_ip w) (ni_mac w) (arp_table w) ETH_P_IP c) (ip_receive w buf)"
proof -
  let ?h = "ip_of c" and ?n = "unat (ntohs (ip_len (ip_of c)))"
  let ?buf = "put_at ip_bytes buf ip_off (ip_header_ntoh ?h)"
  note g = datagram_in_buffer [OF c buf room refl refl]
  note h = g(1) and check = g(2) and msg = g(3) and pay = g(4) and fits = g(5) and n = g(6)
  note b = ip_buffer [where buf = buf and H = "ip_header_ntoh ?h"]
  have quiet: "react (ni_ip w) (ni_mac w) (arp_table w) ETH_P_IP c = ([], Some (arp_table w))"
    if "\<not> ip_header_check ?h \<or> protocol ?h \<noteq> PROTOCOL_ICMP"
    using that check by (auto simp: react_def valid_ping_def)
  consider (bad) "\<not> ip_header_check ?h" | (icmp) "ip_header_check ?h" "protocol ?h = PROTOCOL_ICMP"
    | (tcp) "ip_header_check ?h" "protocol ?h = PROTOCOL_TCP" | (other) "ip_header_check ?h" "protocol ?h \<notin> {PROTOCOL_ICMP, PROTOCOL_TCP}"
    by blast
  then show ?thesis
  proof cases
    case bad
    then show ?thesis
      using room quiet ok by (simp add: ip_receive_def h Let_def handled_emit handled_refl)
  next
    case icmp
    have "ip_size + icmp_size \<le> ?n" using c icmp(2) by (simp add: frame_full_def)
    moreover have "ip_receive w buf = icmp_receive w ?buf" using room icmp by (simp add: ip_receive_def h Let_def)
    moreover have "valid_ping c \<longleftrightarrow> internet_checksum (ip_payload c) = 0 \<and> ip_payload c ! 0 = ICMP_ECHO_REQUEST"
      using icmp check pay by (auto simp: valid_ping_def)
    ultimately show ?thesis
      using icmp_receive_does [OF ok b(1) [symmetric] refl _ _ _ msg] room n
      by (auto simp: b react_def Let_def split: if_splits)
  next
    case tcp
    then have "ip_receive w buf = tcp_receive w ?buf" using room by (simp add: ip_receive_def h Let_def)
    then show ?thesis
      using tcp_receive_does [OF ok b(1) [symmetric] fits] room quiet tcp by (simp add: b)
  next
    case other
    then show ?thesis
      using room quiet ok by (auto simp: ip_receive_def h Let_def udp_receive_def b handled_emit handled_refl)
  qed
qed

section \<open>Rounds\<close>

lemma round_does:
  assumes w: "arp_ok w" "some_free w" and buf: "length buffer = BUFLEN"
    and rd: "rd (tun_fds w ! first_free w) 100 = Some (eth_frame d s t c)" and c: "frame_full t c"
  shows "does w BUFLEN (react (ni_ip w) (ni_mac w) (arp_table w) t c) (process_io_round (rd, err) w buffer)"
proof -
  let ?rest = "drop (eth_size + length c) buffer"
  let ?b = "received d s t (c @ ?rest)"
  have n: "net_ok w" "eth_size + length c \<le> BUFLEN" using w(1) c by (simp_all add: arp_ok_def frame_full_def frame_ok_def)
  have lb: "length ?b = BUFLEN" using n buf by simp
  have round: "process_io_round (rd, err) w buffer =
      bind_run (handle_frame w ?b) (\<lambda>(_, w, buffer). Inr (w, buffer))"
    by (rule process_io_round_frame [where rd = rd]) (use n w buf rd in simp_all)
  consider (arp) "t = ETH_P_ARP" | (ip) "t = ETH_P_IP" | (other) "t \<noteq> ETH_P_ARP" "t \<noteq> ETH_P_IP" by blast
  then show ?thesis
  proof cases
    case arp
    have l: "arp_header_size + arp_ipv4_size \<le> length c" using c arp by (simp add: frame_full_def)
    have "arp_header_of c = get_at arp_header_of ?b arp_off"
      using l arph.dec_take [of c] arph.dec_take [of "c @ ?rest"] by simp
    moreover have "arp_ipv4_of (drop arp_header_size c) = get_at arp_ipv4_of ?b arp_data_off"
      using l arpc.dec_take [of "drop arp_header_size c"] arpc.dec_take [of "drop arp_header_size c @ ?rest"] by simp
    ultimately have "does w BUFLEN (react (ni_ip w) (ni_mac w) (arp_table w) t c) (arp_receive w ?b)"
      using arp_receive_handled [OF w, of ?b] lb arp by (simp add: react_def Let_def)
    then show ?thesis using does_bind round arp by (simp add: handle_frame_def)
  next
    case ip
    then have "does w BUFLEN (react (ni_ip w) (ni_mac w) (arp_table w) t c) (ip_receive w ?b)"
      using ip_receive_does [OF w _ refl, of c d s ?rest] c lb by simp
    then show ?thesis using does_bind round ip by (simp add: handle_frame_def)
  next
    case other
    then show ?thesis using round w lb by (simp add: handle_frame_def react_def handled_refl)
  qed
qed

section \<open>All threads\<close>

text \<open>What a thread reads: a frame with its addresses, type and content, or an error.\<close>

type_synonym wire_frame = "mac \<times> mac \<times> u16 \<times> bytes"

definition wire_reader :: "wire_frame option \<Rightarrow> int \<Rightarrow> int \<Rightarrow> bytes option" where
  "wire_reader f = (\<lambda>fd n. map_option (\<lambda>(d, s, t, c). eth_frame d s t c) f)"

definition schedule :: "(nat \<times> wire_frame option \<times> string) list \<Rightarrow> (nat \<times> (int \<Rightarrow> int \<Rightarrow> bytes option) \<times> string) list" where
  "schedule evs = map (\<lambda>(t, f, err). (t, wire_reader f, err)) evs"

definition contents :: "(nat \<times> wire_frame option \<times> string) list \<Rightarrow> (u16 \<times> bytes) option list" where
  "contents evs = map (\<lambda>(t, f, err). map_option (\<lambda>(d, s, t, c). (t, c)) f) evs"

definition all_full :: "(nat \<times> wire_frame option \<times> string) list \<Rightarrow> bool" where
  "all_full evs \<longleftrightarrow> (\<forall>t c. Some (t, c) \<in> set (contents evs) \<longrightarrow> frame_full t c)"

lemma schedule_simps [simp]:
  "schedule [] = []" "schedule ((t, f, err) # evs) = (t, wire_reader f, err) # schedule evs"
  "contents [] = []" "contents ((t, f, err) # evs) = map_option (\<lambda>(d, s, t, c). (t, c)) f # contents evs"
  by (simp_all add: schedule_def contents_def)

lemma wire_reader_kinds:
  "good_read (wire_reader f) \<Longrightarrow> f \<noteq> None" "failed_read (wire_reader f) \<Longrightarrow> f = None"
  by (auto simp: good_read_def failed_read_def wire_reader_def)

text \<open>One round, with what it leaves in the buffer.\<close>

lemma event_does:
  assumes w: "arp_ok w" "some_free w" "length buffer = BUFLEN" and q: "\<not> armed t \<longrightarrow> quiet buffer"
    and safe: "safe_reads armed ((t, wire_reader f, err) # sched)"
    and full: "\<And>d s ty c. f = Some (d, s, ty, c) \<Longrightarrow> frame_full ty c"
  shows "\<exists>v. round_ok w v (process_io_round (wire_reader f, err) w buffer) \<and> safe_reads (armed(t := v)) sched \<and>
    does w BUFLEN (case f of None \<Rightarrow> ([], Some (arp_table w))
      | Some (d, s, ty, c) \<Rightarrow> react (ni_ip w) (ni_mac w) (arp_table w) ty c) (process_io_round (wire_reader f, err) w buffer)"
proof (cases f)
  case None
  then have f: "failed_read (wire_reader f)" "\<not> armed t" "safe_reads (armed(t := True)) sched"
    using safe wire_reader_kinds(1) [of f] by auto
  have n: "net_ok w" "wire_reader f (tun_fds w ! first_free w) 100 = None" using w(1) f(1) by (simp_all add: arp_ok_def failed_read_def)
  have "does w BUFLEN ([], Some (arp_table w)) (process_io_round (wire_reader f, err) w buffer)"
    using round_failed [where rd = "wire_reader f", OF n(1) w(2,3) n(2), of err] q f(2) w
    by (simp add: eth.length_put handled_emit handled_refl)
  with failed_round [OF w f(1), of err] q f(2,3) None show ?thesis by auto
next
  case (Some p)
  obtain d s ty c where p: "p = (d, s, ty, c)" by (cases p)
  have f: "good_read (wire_reader f)" "safe_reads (armed(t := \<not> calm_read (wire_reader f))) sched"
    using safe wire_reader_kinds(2) [of f] Some by auto
  have "does w BUFLEN (react (ni_ip w) (ni_mac w) (arp_table w) ty c) (process_io_round (wire_reader f, err) w buffer)"
    by (rule round_does [where rd = "wire_reader f", OF w _ full]) (simp_all add: Some p wire_reader_def)
  with good_round [OF w f(1), of err] f(2) Some p show ?thesis by auto
qed

lemma run_threads_does:
  assumes "arp_ok w" "some_free w" and "bufs_ok armed buffers" and "safe_reads armed (schedule evs)" and "all_full evs"
  shows "case host_run (ni_ip w) (ni_mac w) (arp_table w) (contents evs) of
      (out, Some tbl) \<Rightarrow> \<exists>w' buffers'. run_threads (schedule evs) w buffers = Inr (w', buffers') \<and> handled w tbl out w'
    | (out, None) \<Rightarrow> \<exists>w' tbl. run_threads (schedule evs) w buffers = Inl (Exit 1 w') \<and> handled w tbl out w'"
  using assms
proof (induction evs arbitrary: w buffers armed)
  case Nil
  then show ?case by (simp add: handled_refl)
next
  case (Cons e evs)
  obtain t f err where e: "e = (t, f, err)" by (cases e)
  have t: "t < length buffers" "length (buffers ! t) = BUFLEN" "\<not> armed t \<longrightarrow> quiet (buffers ! t)"
    using Cons.prems(3,4) by (auto simp: e bufs_ok_def)
  let ?r = "process_io_round (wire_reader f, err) w (buffers ! t)"
  have "frame_full ty c" if "f = Some (d, s, ty, c)" for d s ty c
    using Cons.prems(5) that by (auto simp: all_full_def e)
  then obtain v where v: "round_ok w v ?r" "safe_reads (armed(t := v)) (schedule evs)"
    "does w BUFLEN (case f of None \<Rightarrow> ([], Some (arp_table w))
      | Some (d, s, ty, c) \<Rightarrow> react (ni_ip w) (ni_mac w) (arp_table w) ty c) ?r"
    using event_does [where armed = armed and t = t and f = f and err = err and sched = "schedule evs",
        OF Cons.prems(1,2) t(2,3)] Cons.prems(4) unfolding e schedule_simps by blast
  have full: "all_full evs" using Cons.prems(5) by (auto simp: all_full_def e)
  let ?what = "case f of None \<Rightarrow> ([], Some (arp_table w)) | Some (d, s, ty, c) \<Rightarrow> react (ni_ip w) (ni_mac w) (arp_table w) ty c"
  obtain out r where what: "?what = (out, r)" by (cases ?what)
  have host: "host_run (ni_ip w) (ni_mac w) (arp_table w) (contents (e # evs)) = (case r of
      None \<Rightarrow> (out, None) | Some tbl \<Rightarrow> (case host_run (ni_ip w) (ni_mac w) tbl (contents evs) of (outs, r) \<Rightarrow> (out @ outs, r)))"
    using what by (cases f) (auto simp: e split: prod.splits option.splits)
  show ?case
  proof (cases r)
    case None
    then show ?thesis using v(3) host t(1) unfolding what by (auto simp: e)
  next
    case (Some tbl)
    then obtain w1 b where w1: "?r = Inr (w1, b)" "handled w tbl out w1" using v(3) unfolding what by auto
    then have b: "length b = BUFLEN" "v \<or> quiet b" using v(1) by (simp_all add: round_ok_def)
    have h: "arp_ok w1" "some_free w1" "ni_ip w1 = ni_ip w" "ni_mac w1 = ni_mac w" "arp_table w1 = tbl"
      using w1(2) by (simp_all add: handled_def)
    obtain outs r' where hr: "host_run (ni_ip w) (ni_mac w) tbl (contents evs) = (outs, r')" by fastforce
    have run: "run_threads (schedule (e # evs)) w buffers = run_threads (schedule evs) w1 (buffers[t := b])"
      using w1(1) t(1) by (simp add: e)
    from Cons.IH [OF h(1,2) bufs_ok_update [OF Cons.prems(3) b] v(2) full] handled_trans [OF w1(2)] run hr h(3-5) host Some
    show ?thesis by (cases r') (simp_all, blast+)
  qed
qed

end
