(* ===== verification/Net_Threads.thy ===== *)
theory Net_Threads
  imports Tun_Queues
begin

text \<open>
  The threads of \<^verbatim>\<open>main.c\<close> inside \<^verbatim>\<open>net_interface_send\<close> and \<^verbatim>\<open>net_interface_read\<close>, statement by statement.
  \<^verbatim>\<open>available\<close>, \<^verbatim>\<open>set_busy\<close> and \<^verbatim>\<open>ensure_has_size\<close> hold a mutex and are one step each; so is every other
  statement.  The threads share the busy flags and the transmit buffers.  A thread keeps the pointer
  that it read from \<^verbatim>\<open>buffers[fi]\<close>, and \<^verbatim>\<open>realloc\<close> in another thread may move the block away from it.
\<close>

section \<open>The code of a thread\<close>

text \<open>\<open>buf_addr fi\<close> is the value of the pointer \<^verbatim>\<open>buffers[fi]\<close>, whose block is \<open>ni_buffers ! fi\<close>.\<close>

record io_state = net_state +
  buf_addr :: "nat \<Rightarrow> nat"

text \<open>The calls, with the memory from the content pointer on.\<close>

datatype io_task =
    Send bytes u32 "mac option" u16
  | Read u32

text \<open>
  Where a thread is in its call: before \<^verbatim>\<open>available\<close>; a queue is chosen; its buffer is large enough;
  the pointer is read and \<open>k\<close> of the six statements that fill the block are done; the queue is marked;
  the read or write is done.  \<open>Freed\<close> and \<open>Halted\<close> keep the phase in which a freed block was used or the
  program stopped.
\<close>

datatype io_phase =
    Start
  | Picked nat
  | Sized nat
  | Fill nat nat nat
  | Busy nat nat
  | Listen nat
  | Used nat
  | Freed io_phase
  | Halted io_phase

record io_thread =
  th_todo :: "io_task list"
  th_phase :: io_phase
  th_buf :: bytes

text \<open>
  The statements of \<^verbatim>\<open>net_interface_send\<close> that fill the block \<open>b\<close>: the type, the two hardware addresses,
  the payload, the debug output and the conversion.  The result is the block and the output; \<open>None\<close> is
  an access past the end of the block or of the content.
\<close>

definition fill_part ::
  "nat \<Rightarrow> mac \<Rightarrow> nat \<Rightarrow> bytes \<Rightarrow> u32 \<Rightarrow> mac \<Rightarrow> u16 \<Rightarrow> bytes \<Rightarrow> (bytes \<times> io_event list) option" where
  "fill_part fi own k content len dst_mac protocol b =
     (if length b < eth_size then None
      else if k = 0 then Some (patch b 12 (u16_bytes protocol), [])
      else if k = 1 then Some (patch b 0 (mac_bytes dst_mac), [])
      else if k = 2 then Some (patch b 6 (mac_bytes own), [])
      else if k = 3 then (if length b < eth_size + unat len \<or> length content < unat len then None
                          else Some (patch b eth_size (take (unat len) content), []))
      else if k = 4 then Some (b, sent_debug fi (unat len) (get_at eth_of b 0))
      else Some (put_at eth_bytes b 0 (eth_header_hton (get_at eth_of b 0)), []))"

text \<open>The condition under which \<^verbatim>\<open>ensure_has_size\<close> allocates.\<close>

definition must_grow :: "'a net_state_scheme \<Rightarrow> nat \<Rightarrow> u32 \<Rightarrow> bool" where
  "must_grow w fi sz \<longleftrightarrow> sz > ni_buffers_size w ! fi \<or> ni_buffers_size w ! fi = 0"

text \<open>
  One statement of \<^verbatim>\<open>net_interface_send\<close>.  \<open>a\<close> is the address that an allocation returns.  \<open>None\<close> as the
  next phase is the return.  The phases of the other function are no places of this one.
\<close>

fun send_exec ::
  "nat \<Rightarrow> io_state \<Rightarrow> bytes \<Rightarrow> u32 \<Rightarrow> mac option \<Rightarrow> u16 \<Rightarrow> io_phase \<Rightarrow> (io_state, io_state \<times> io_phase option) run" where
  "send_exec a w content len dst_mac protocol Start =
     (if dst_mac = None then Inl (AssertFail w)
      else bind_run (available w) (\<lambda>fi.
           if fi = - 1 then Inl (Abort (emit (ERROR ''NET-IF: No tun device available.'') w))
           else Inr (w, Some (Picked (nat fi)))))"
| "send_exec a w content len dst_mac protocol (Picked fi) =
     (let total_size = len + of_nat eth_size in
      bind_run (ensure_has_size w fi total_size) (\<lambda>w'.
      Inr (w'\<lparr> buf_addr := (if must_grow w fi total_size then (buf_addr w)(fi := a) else buf_addr w) \<rparr>,
           Some (Sized fi))))"
| "send_exec a w content len dst_mac protocol (Sized fi) = Inr (w, Some (Fill fi (buf_addr w fi) 0))"
| "send_exec a w content len dst_mac protocol (Fill fi p k) =
     (if 6 \<le> k then bind_run (set_busy w fi True) (\<lambda>w. Inr (w, Some (Busy fi p)))
      else if p \<noteq> buf_addr w fi then Inr (w, Some (Freed (Fill fi p k)))
      else case ni_buffers w ! fi of
        None \<Rightarrow> Inl (OutOfBounds w)
      | Some b \<Rightarrow> (case fill_part fi (ni_mac w) k content len (the dst_mac) protocol b of
          None \<Rightarrow> Inl (OutOfBounds w)
        | Some (b', out) \<Rightarrow> Inr (emit out (w\<lparr> ni_buffers := (ni_buffers w)[fi := Some b'] \<rparr>), Some (Fill fi p (k + 1)))))"
| "send_exec a w content len dst_mac protocol (Busy fi p) =
     (if p \<noteq> buf_addr w fi then Inr (w, Some (Freed (Busy fi p)))
      else case ni_buffers w ! fi of
        None \<Rightarrow> Inl (OutOfBounds w)
      | Some b \<Rightarrow> bind_run (tun_write w fi b (sint (len + of_nat eth_size))) (\<lambda>(n, w). Inr (w, Some (Used fi))))"
| "send_exec a w content len dst_mac protocol (Used fi) =
     bind_run (set_busy w fi False) (\<lambda>w. Inr (w, None))"
| "send_exec a w content len dst_mac protocol ph = Inr (w, Some (Halted ph))"

text \<open>One statement of \<^verbatim>\<open>net_interface_read\<close>; the thread's own buffer is returned too.\<close>

fun read_exec ::
  "(int \<Rightarrow> int \<Rightarrow> bytes option) \<Rightarrow> io_state \<Rightarrow> bytes \<Rightarrow> u32 \<Rightarrow> io_phase
    \<Rightarrow> (io_state, io_state \<times> bytes \<times> io_phase option) run" where
  "read_exec rd w buffer len Start =
     bind_run (available w) (\<lambda>fi.
     if fi = - 1 then Inr (emit (LOG_DEBUG ''[NET-IF] No tun device available.'') w, buffer, None)
     else Inr (w, buffer, Some (Picked (nat fi))))"
| "read_exec rd w buffer len (Picked fi) =
     bind_run (set_busy w fi True) (\<lambda>w. Inr (w, buffer, Some (Listen fi)))"
| "read_exec rd w buffer len (Listen fi) =
     bind_run (tun_read rd w fi buffer (sint len)) (\<lambda>(out, buffer). Inr (w, buffer, Some (Used fi)))"
| "read_exec rd w buffer len (Used fi) =
     bind_run (set_busy w fi False) (\<lambda>w. Inr (w, buffer, None))"
| "read_exec rd w buffer len ph = Inr (w, buffer, Some (Halted ph))"

text \<open>The next phase of a thread; after the return it goes on with its next call.\<close>

definition next_phase :: "io_thread \<Rightarrow> io_phase option \<Rightarrow> io_thread" where
  "next_phase x r = (case r of
     None \<Rightarrow> x\<lparr> th_todo := tl (th_todo x), th_phase := Start \<rparr>
   | Some ph \<Rightarrow> x\<lparr> th_phase := ph \<rparr>)"

definition io_exec ::
  "(int \<Rightarrow> int \<Rightarrow> bytes option) \<Rightarrow> nat \<Rightarrow> io_state \<Rightarrow> io_thread \<Rightarrow> (io_state, io_state \<times> io_thread) run" where
  "io_exec rd a w x = (case th_todo x of
     [] \<Rightarrow> Inr (w, x)
   | Send content len dst_mac protocol # _ \<Rightarrow>
       bind_run (send_exec a w content len dst_mac protocol (th_phase x)) (\<lambda>(w, r). Inr (w, next_phase x r))
   | Read len # _ \<Rightarrow>
       bind_run (read_exec rd w (th_buf x) len (th_phase x)) (\<lambda>(w, b, r). Inr (w, next_phase (x\<lparr> th_buf := b \<rparr>) r)))"

section \<open>The step relation\<close>

text \<open>A thread that has a call to make or to finish and has not stopped.\<close>

fun stopped :: "io_phase \<Rightarrow> bool" where
  "stopped (Freed ph) = True"
| "stopped (Halted ph) = True"
| "stopped ph = False"

definition active :: "io_thread \<Rightarrow> bool" where
  "active x \<longleftrightarrow> th_todo x \<noteq> [] \<and> \<not> stopped (th_phase x)"

text \<open>\<^verbatim>\<open>read\<close> returns at most the bytes asked for.\<close>

definition bounded_read :: "(int \<Rightarrow> int \<Rightarrow> bytes option) \<Rightarrow> bool" where
  "bounded_read rd \<longleftrightarrow> (\<forall>fd n bs. rd fd n = Some bs \<longrightarrow> int (length bs) \<le> max 0 n)"

type_synonym iostate = "io_state \<times> (nat \<Rightarrow> io_thread)"

inductive iostep :: "nat \<Rightarrow> iostate \<Rightarrow> iostate \<Rightarrow> bool" for n where
  exec: "t < n \<Longrightarrow> active (th t) \<Longrightarrow> bounded_read rd \<Longrightarrow> io_exec rd a w (th t) = Inr (w', x) \<Longrightarrow>
    iostep n (w, th) (w', th(t := x))"
| halt: "t < n \<Longrightarrow> active (th t) \<Longrightarrow> bounded_read rd \<Longrightarrow> io_exec rd a w (th t) = Inl h \<Longrightarrow>
    iostep n (w, th) (w, th(t := (th t)\<lparr> th_phase := Halted (th_phase (th t)) \<rparr>))"

inductive_cases iostepE: "iostep n s s'"

text \<open>No queue is marked and every thread is before its first call.\<close>

definition ioinit :: "iostate \<Rightarrow> bool" where
  "ioinit s \<longleftrightarrow> net_ok (fst s) \<and> busy_status (fst s) = replicate TUN_QUEUES False \<and>
     (\<forall>t. th_phase (snd s t) = Start)"

section \<open>The queue protocol\<close>

text \<open>Every run of the threads is a run of the protocol \<open>qstep\<close> on the busy flags.\<close>

fun qphase :: "io_phase \<Rightarrow> phase" where
  "qphase Start = Idle"
| "qphase (Picked fi) = Chosen fi"
| "qphase (Sized fi) = Chosen fi"
| "qphase (Fill fi p k) = Chosen fi"
| "qphase (Busy fi p) = Marked fi"
| "qphase (Listen fi) = Marked fi"
| "qphase (Used fi) = Marked fi"
| "qphase (Freed ph) = qphase ph"
| "qphase (Halted ph) = qphase ph"

definition tun_view :: "'a tun_state_scheme \<Rightarrow> tun_state" where
  "tun_view w = \<lparr> tun_fds = tun_fds w, busy_status = busy_status w, sys_write = sys_write w, trace = [] \<rparr>"

definition qabs :: "iostate \<Rightarrow> qstate" where
  "qabs s = (tun_view (fst s), \<lambda>t. qphase (th_phase (snd s t)))"

definition ioreachable :: "nat \<Rightarrow> iostate \<Rightarrow> iostate \<Rightarrow> bool" where
  "ioreachable n s0 s \<longleftrightarrow> (iostep n)\<^sup>*\<^sup>* s0 s"

lemma tun_view_simps [simp]:
  "tun_view (emit es w) = tun_view w"
  "tun_view (w\<lparr> trace := es \<rparr>) = tun_view w"
  "busy_status (tun_view w) = busy_status w"
  "tun_fds (tun_view w) = tun_fds w"
  "tun_ok (tun_view w) = tun_ok w"
  "some_free (tun_view w) = some_free w"
  "first_free (tun_view w) = first_free w"
  by (simp_all add: tun_view_def tun_ok_def some_free_def first_free_def)

lemma tun_view_net [simp]:
  "tun_view (v\<lparr> ni_buffers := bs \<rparr>) = tun_view v"
  "tun_view (v\<lparr> ni_buffers_size := ss \<rparr>) = tun_view v"
  "tun_view (u\<lparr> buf_addr := f \<rparr>) = tun_view u"
  by (simp_all add: tun_view_def)

lemma available_view: "available w = Inr fi \<Longrightarrow> available (tun_view w) = Inr fi"
  by (auto simp: available_def split: option.splits)

lemma set_busy_view: "set_busy w fi b = Inr w' \<Longrightarrow> set_busy (tun_view w) fi b = Inr (tun_view w')"
  by (auto simp: set_busy_def tun_view_def split: if_splits)

lemma ensure_has_size_view: "ensure_has_size w fi sz = Inr w' \<Longrightarrow> tun_view w' = tun_view w"
  by (auto simp: ensure_has_size_def simp del: buffers_update_swap split: if_splits)

lemma tun_write_view: "tun_write w fi b n = Inr (r, w') \<Longrightarrow> tun_view w' = tun_view w"
  by (auto simp: tun_write_def Let_def split: if_splits)

text \<open>What one statement does to the flags: nothing, or one move of the protocol.\<close>

inductive qmove :: "tun_state \<Rightarrow> phase \<Rightarrow> tun_state \<Rightarrow> phase \<Rightarrow> bool" where
  stutter: "qmove v ph v ph"
| choose: "available v = Inr fi \<Longrightarrow> fi \<noteq> - 1 \<Longrightarrow> qmove v Idle v (Chosen (nat fi))"
| mark: "set_busy v fi True = Inr v' \<Longrightarrow> qmove v (Chosen fi) v' (Marked fi)"
| release: "set_busy v fi False = Inr v' \<Longrightarrow> qmove v (Marked fi) v' Idle"

definition returned :: "io_phase option \<Rightarrow> io_phase" where
  "returned r = (case r of None \<Rightarrow> Start | Some ph \<Rightarrow> ph)"

lemma returned_simps [simp]: "returned None = Start" "returned (Some ph) = ph"
  by (simp_all add: returned_def)

lemma qmove_lift:
  "tun_view w' = tun_view w \<Longrightarrow> qmove (tun_view w) ph (tun_view w') ph"
  "available w = Inr i \<Longrightarrow> i \<noteq> - 1 \<Longrightarrow> qmove (tun_view w) Idle (tun_view w) (Chosen (nat i))"
  "set_busy w fi True = Inr w' \<Longrightarrow> qmove (tun_view w) (Chosen fi) (tun_view w') (Marked fi)"
  "set_busy w fi False = Inr w' \<Longrightarrow> qmove (tun_view w) (Marked fi) (tun_view w') Idle"
  by (simp_all add: qmove.intros available_view set_busy_view)

lemma send_exec_qmove:
  "send_exec a w c len d p ph = Inr (w', r) \<Longrightarrow> qmove (tun_view w) (qphase ph) (tun_view w') (qphase (returned r))"
  by (cases ph)
     (auto simp: bind_run_eq_Inr Let_def ensure_has_size_view tun_write_view qmove_lift
       split: if_splits option.splits)

lemma read_exec_qmove:
  "read_exec rd w b len ph = Inr (w', b', r) \<Longrightarrow> qmove (tun_view w) (qphase ph) (tun_view w') (qphase (returned r))"
  by (cases ph) (auto simp: bind_run_eq_Inr qmove_lift split: if_splits)

lemma th_phase_next [simp]: "th_phase (next_phase x r) = returned r"
  by (simp add: next_phase_def split: option.splits)

lemma io_exec_qmove:
  "io_exec rd a w x = Inr (w', x') \<Longrightarrow>
   qmove (tun_view w) (qphase (th_phase x)) (tun_view w') (qphase (th_phase x'))"
  by (auto simp: io_exec_def bind_run_eq_Inr dest: send_exec_qmove read_exec_qmove
      intro: stutter split: list.splits io_task.splits)

lemma qmove_qstep:
  assumes "qmove v (pc t) v' ph" and "t < n"
  shows "(qstep n)\<^sup>*\<^sup>* (v, pc) (v', pc(t := ph))"
  using assms(1)
proof cases
  case stutter
  then show ?thesis by simp
qed (use assms(2) in \<open>auto intro: qstep.intros\<close>)

lemma iostep_qstep: "iostep n s s' \<Longrightarrow> (qstep n)\<^sup>*\<^sup>* (qabs s) (qabs s')"
proof (induction rule: iostep.induct)
  case (exec t th rd a w w' x)
  then have "qmove (tun_view w) (qphase (th_phase (th t))) (tun_view w') (qphase (th_phase x))"
    by (blast dest: io_exec_qmove)
  from qmove_qstep [where pc = "\<lambda>t. qphase (th_phase (th t))" and t = t, OF this exec(1)]
  show ?case by (simp add: qabs_def fun_upd_def if_distrib cong: if_cong)
next
  case (halt t th rd a w h)
  have "(\<lambda>u. qphase (th_phase ((th(t := (th t)\<lparr> th_phase := Halted (th_phase (th t)) \<rparr>)) u))) = (\<lambda>u. qphase (th_phase (th u)))"
    by auto
  then show ?case by (simp add: qabs_def)
qed

lemma ioinit_qinit: "ioinit s \<Longrightarrow> qinit (qabs s)"
  by (simp add: ioinit_def qinit_def qabs_def net_ok_def)

lemma ioreachable_qreachable:
  assumes "ioinit s0" and "ioreachable n s0 s"
  shows "qreachable n (qabs s)"
proof -
  from assms(2) have "(iostep n)\<^sup>*\<^sup>* s0 s" by (simp add: ioreachable_def)
  then have "(qstep n)\<^sup>*\<^sup>* (qabs s0) (qabs s)"
    by (induction rule: rtranclp_induct) (auto dest: iostep_qstep)
  then show ?thesis using ioinit_qinit [OF assms(1)] unfolding qreachable_def by blast
qed

end
