(* ===== verification/Net_Solo.thy ===== *)
theory Net_Solo
  imports Net_Threads
begin

text \<open>
  The statements of a thread against the functions: the parts that fill a block compose to
  \<open>fill_frame\<close>, and a thread that runs without interruption does what \<open>net_interface_send\<close> and
  \<open>net_interface_read\<close> do.
\<close>

section \<open>Filling a block\<close>

text \<open>The block after the first \<open>k\<close> statements.\<close>

fun fill_upto :: "nat \<Rightarrow> mac \<Rightarrow> bytes \<Rightarrow> u32 \<Rightarrow> mac \<Rightarrow> u16 \<Rightarrow> bytes \<Rightarrow> bytes" where
  "fill_upto 0 own c len d p b = b"
| "fill_upto (Suc k) own c len d p b = fst (the (fill_part 0 own k c len d p (fill_upto k own c len d p b)))"

lemma fill_part_fits:
  assumes "eth_size + unat len \<le> length b" and "unat len \<le> length c"
  shows "fill_part fi own k c len d p b =
      Some (fst (the (fill_part 0 own k c len d p b)), if k = 4 then sent_debug fi (unat len) (get_at eth_of b 0) else [])"
    and "length (fst (the (fill_part 0 own k c len d p b))) = length b"
  using assms by (auto simp: fill_part_def length_patch eth.length_put)

lemma length_fill_upto:
  "eth_size + unat len \<le> length b \<Longrightarrow> unat len \<le> length c \<Longrightarrow> length (fill_upto k own c len d p b) = length b"
  by (induction k) (simp_all add: fill_part_fits(2))

lemma patch_fields:
  assumes "eth_size \<le> length b"
  shows "patch (patch (patch b 12 (u16_bytes p)) 0 (mac_bytes d)) 6 (mac_bytes s) =
    put_at eth_bytes b 0 \<lparr> eth_dst_mac = d, eth_src_mac = s, ether_type = p \<rparr>"
  using assms by (simp add: patch_def put_at_def eth_bytes_def)

lemma fill_upto_header:
  assumes "eth_size + unat len \<le> length b" and "unat len \<le> length c"
  shows "get_at eth_of (fill_upto 4 own c len d p b) 0 = \<lparr> eth_dst_mac = d, eth_src_mac = own, ether_type = p \<rparr>"
    and "fill_upto 6 own c len d p b = eth_frame d own p (take (unat len) c) @ drop (eth_size + unat len) b"
proof -
  let ?h = "\<lparr> eth_dst_mac = d, eth_src_mac = own, ether_type = p \<rparr>" and ?c = "take (unat len) c"
  have "fill_upto 4 own c len d p b = patch (put_at eth_bytes b 0 ?h) eth_size ?c"
    using assms by (simp add: numeral_eq_Suc fill_part_def patch_fields [symmetric] length_patch)
  moreover from this show "get_at eth_of (fill_upto 4 own c len d p b) 0 = ?h"
    using fill_bytes(2) [of ?c b ?h] assms by simp
  moreover have "fill_upto 6 own c len d p b =
      put_at eth_bytes (fill_upto 4 own c len d p b) 0 (eth_header_hton (get_at eth_of (fill_upto 4 own c len d p b) 0))"
    using assms length_fill_upto [OF assms, of 4 own d p]
    by (simp add: numeral_eq_Suc fill_part_def del: One_nat_def)
  ultimately show "fill_upto 6 own c len d p b = eth_frame d own p ?c @ drop (eth_size + unat len) b"
    using fill_bytes(1) [of ?c b ?h "eth_header_hton ?h"] assms eth_frame_hton [of d own p ?c] by simp
qed

section \<open>A thread on its own\<close>

abbreviation at_phase :: "(nat \<Rightarrow> io_thread) \<Rightarrow> nat \<Rightarrow> io_phase \<Rightarrow> nat \<Rightarrow> io_thread" where
  "at_phase th t ph \<equiv> th(t := (th t)\<lparr> th_phase := ph \<rparr>)"

lemma at_phase_same: "th_phase (th t) = ph \<Longrightarrow> at_phase th t ph = th"
  by (rule ext) simp

lemma no_read_bounded: "bounded_read (\<lambda>fd n. None)"
  by (simp add: bounded_read_def)

lemma io_exec_send:
  assumes "th_todo x = Send c len d p # ts"
  shows "io_exec rd a w x = bind_run (send_exec a w c len d p (th_phase x)) (\<lambda>(w, r). Inr (w, next_phase x r))"
  using assms by (simp add: io_exec_def)

lemma io_exec_read:
  assumes "th_todo x = Read len # ts"
  shows "io_exec rd a w x =
    bind_run (read_exec rd w (th_buf x) len (th_phase x)) (\<lambda>(w, b, r). Inr (w, next_phase (x\<lparr> th_buf := b \<rparr>) r))"
  using assms by (simp add: io_exec_def)

lemma send_step:
  assumes "t < n" and "th_todo (th t) = Send c len d p # ts" and "\<not> stopped ph"
    and "send_exec a w c len d p ph = Inr (w', Some ph')"
  shows "iostep n (w, at_phase th t ph) (w', at_phase th t ph')"
proof -
  let ?th = "at_phase th t ph"
  have "io_exec (\<lambda>fd n. None) a w (?th t) = Inr (w', (th t)\<lparr> th_phase := ph' \<rparr>)"
    using assms(2,4) by (subst io_exec_send) (auto simp: next_phase_def)
  then have "iostep n (w, ?th) (w', ?th(t := (th t)\<lparr> th_phase := ph' \<rparr>))"
    using assms by (intro iostep.exec [OF assms(1) _ no_read_bounded]) (simp_all add: active_def)
  then show ?thesis by simp
qed

lemma send_return:
  assumes "t < n" and "th_todo (th t) = Send c len d p # ts" and "\<not> stopped ph"
    and "send_exec a w c len d p ph = Inr (w', None)"
  shows "iostep n (w, at_phase th t ph) (w', th(t := (th t)\<lparr> th_todo := ts, th_phase := Start \<rparr>))"
proof -
  let ?th = "at_phase th t ph" and ?x = "(th t)\<lparr> th_todo := ts, th_phase := Start \<rparr>"
  have "io_exec (\<lambda>fd n. None) a w (?th t) = Inr (w', ?x)"
    using assms(2,4) by (subst io_exec_send) (auto simp: next_phase_def)
  then have "iostep n (w, ?th) (w', ?th(t := ?x))"
    using assms by (intro iostep.exec [OF assms(1) _ no_read_bounded]) (simp_all add: active_def)
  then show ?thesis by simp
qed

text \<open>The state after \<open>k\<close> statements on the block.\<close>

definition filled :: "io_state \<Rightarrow> nat \<Rightarrow> nat \<Rightarrow> bytes \<Rightarrow> u32 \<Rightarrow> mac \<Rightarrow> u16 \<Rightarrow> bytes \<Rightarrow> io_state" where
  "filled w fi k c len d p b =
     emit (if 4 < k then sent_debug fi (unat len) \<lparr> eth_dst_mac = d, eth_src_mac = ni_mac w, ether_type = p \<rparr> else [])
       (w\<lparr> ni_buffers := (ni_buffers w)[fi := Some (fill_upto k (ni_mac w) c len d p b)] \<rparr>)"

lemma send_exec_fill:
  assumes "fi < length (ni_buffers w)" and "eth_size + unat len \<le> length b" and "unat len \<le> length c" and "k < 6"
  shows "send_exec a (filled w fi k c len d p b) c len (Some d) p (Fill fi (buf_addr w fi) k) =
    Inr (filled w fi (Suc k) c len d p b, Some (Fill fi (buf_addr w fi) (Suc k)))"
proof -
  let ?b = "fill_upto k (ni_mac w) c len d p b"
  have "fill_part fi (ni_mac w) k c len d p ?b = Some (fill_upto (Suc k) (ni_mac w) c len d p b,
      if k = 4 then sent_debug fi (unat len) \<lparr> eth_dst_mac = d, eth_src_mac = ni_mac w, ether_type = p \<rparr> else [])"
    using fill_part_fits(1) [of len ?b c fi "ni_mac w" k d p] assms fill_upto_header(1) [OF assms(2,3)]
    by (simp add: length_fill_upto cong: if_cong)
  moreover have "buf_addr (filled w fi k c len d p b) = buf_addr w" "ni_mac (filled w fi k c len d p b) = ni_mac w"
    "ni_buffers (filled w fi k c len d p b) = (ni_buffers w)[fi := Some ?b]"
    by (simp_all add: filled_def emit_def)
  ultimately show ?thesis
    using assms(1,4) by (simp add: filled_def emit_def)
qed

lemma fill_run:
  assumes "t < n" and "th_todo (th t) = Send c len (Some d) p # ts" and "ni_buffers w ! fi = Some b"
    and "fi < length (ni_buffers w)" "eth_size + unat len \<le> length b" "unat len \<le> length c"
  shows "k \<le> 6 \<Longrightarrow> (iostep n)\<^sup>*\<^sup>* (w, at_phase th t (Fill fi (buf_addr w fi) 0))
    (filled w fi k c len d p b, at_phase th t (Fill fi (buf_addr w fi) k))"
proof (induction k)
  case 0
  have "(ni_buffers w)[fi := Some b] = ni_buffers w" using assms(3) by (metis list_update_id)
  then have "filled w fi 0 c len d p b = w" by (simp add: filled_def)
  then show ?case by simp
next
  case (Suc k)
  have "iostep n (filled w fi k c len d p b, at_phase th t (Fill fi (buf_addr w fi) k))
      (filled w fi (Suc k) c len d p b, at_phase th t (Fill fi (buf_addr w fi) (Suc k)))"
    using Suc.prems by (intro send_step [where th = th and t = t, OF assms(1,2) _ send_exec_fill [OF assms(4-6)]]) simp_all
  with Suc show ?case by (meson Suc_leD rtranclp.rtrancl_into_rtrancl)
qed

lemma fill_frame_filled:
  assumes "fill_frame w fi c len d p = Inr w'"
  obtains b where "ni_buffers w ! fi = Some b" "eth_size + unat len \<le> length b" "unat len \<le> length c"
    "w' = filled w fi 6 c len d p b"
proof -
  obtain b where b: "ni_buffers w ! fi = Some b" "eth_size + unat len \<le> length b" "unat len \<le> length c"
    using assms by (auto simp: fill_frame_def split: option.splits if_splits)
  have "fill_frame w fi c len d p = fill_frame w fi (take (unat len) c) len d p"
    using b by (simp add: fill_frame_def)
  then have "w' = filled w fi 6 c len d p b"
    using assms b fill_frame_ok [OF b(1,2), of "take (unat len) c" d p] fill_upto_header(2) [OF b(2,3), of "ni_mac w" d p]
    by (simp add: filled_def)
  with b show thesis by (rule that)
qed


lemma set_busy_addr: "set_busy w fi b = Inr w' \<Longrightarrow> buf_addr w' = buf_addr w"
  by (auto simp: set_busy_def split: if_splits)

lemma ensure_has_size_addr:
  "ensure_has_size w fi sz = Inr w' \<Longrightarrow> buf_addr w' = buf_addr w \<and> fi < length (ni_buffers w')"
  by (auto simp: ensure_has_size_def simp del: buffers_update_swap split: if_splits)

lemma tun_write_emit: "tun_write w fi b n = Inr (r, w') \<Longrightarrow> w' = emit [Wrote (tun_fds w ! fi) (take (nat n) b)] w"
  by (auto simp: tun_write_def Let_def split: if_splits)

lemma write_frame_addr:
  assumes "write_frame w fi sz = Inr w'"
  shows "buf_addr w' = buf_addr w"
proof -
  obtain w1 b r w2 where w: "set_busy w fi True = Inr w1" "tun_write w1 fi b (sint sz) = Inr (r, w2)"
    "set_busy w2 fi False = Inr w'"
    using assms by (auto simp: write_frame_def bind_run_eq_Inr split: option.splits)
  from set_busy_addr [OF w(1)] set_busy_addr [OF w(3)] tun_write_emit [OF w(2)] show ?thesis
    by (simp add: emit_def)
qed

text \<open>\<^verbatim>\<open>set_busy\<close>, \<^verbatim>\<open>tun_write\<close> and \<^verbatim>\<open>set_busy\<close> again.\<close>

lemma write_run:
  assumes "t < n" and "th_todo (th t) = Send c len d p # ts" and "write_frame w fi (len + of_nat eth_size) = Inr w'"
    and "a = buf_addr w fi"
  shows "(iostep n)\<^sup>*\<^sup>* (w, at_phase th t (Fill fi a 6)) (w', th(t := (th t)\<lparr> th_todo := ts, th_phase := Start \<rparr>))"
proof -
  obtain w1 b r w2 where w: "set_busy w fi True = Inr w1" "ni_buffers w1 ! fi = Some b"
    "tun_write w1 fi b (sint (len + of_nat eth_size)) = Inr (r, w2)" "set_busy w2 fi False = Inr w'"
    using assms(3) by (auto simp: write_frame_def bind_run_eq_Inr split: option.splits)
  have "iostep n (w, at_phase th t (Fill fi a 6)) (w1, at_phase th t (Busy fi a))"
    by (rule send_step [where th = th and t = t, OF assms(1,2)]) (use w(1) in simp_all)
  moreover have "iostep n (w1, at_phase th t (Busy fi a)) (w2, at_phase th t (Used fi))"
    by (rule send_step [where th = th and t = t, OF assms(1,2)]) (use w(2,3) set_busy_addr [OF w(1)] assms(4) in simp_all)
  moreover have "iostep n (w2, at_phase th t (Used fi)) (w', th(t := (th t)\<lparr> th_todo := ts, th_phase := Start \<rparr>))"
    by (rule send_return [where th = th and t = t, OF assms(1,2)]) (use w(4) in simp_all)
  ultimately show ?thesis
    by (meson converse_rtranclp_into_rtranclp r_into_rtranclp)
qed

text \<open>The statements before \<^verbatim>\<open>set_busy\<close>; \<^verbatim>\<open>realloc\<close> leaves the block where it is.\<close>

lemma prepare_run:
  assumes t: "t < n" and x: "th_todo (th t) = Send c len (Some d) p # ts" "th_phase (th t) = Start"
    and i: "available w = Inr i" "i \<noteq> - 1"
    and w1: "ensure_has_size w (nat i) (len + of_nat eth_size) = Inr w1" and w2: "fill_frame w1 (nat i) c len d p = Inr w2"
  shows "(iostep n)\<^sup>*\<^sup>* (w, th) (w2, at_phase th t (Fill (nat i) (buf_addr w (nat i)) 6))"
    and "buf_addr w2 = buf_addr w"
proof -
  let ?fi = "nat i"
  let ?a = "buf_addr w ?fi"
  obtain b where b: "ni_buffers w1 ! ?fi = Some b" "eth_size + unat len \<le> length b" "unat len \<le> length c"
    "w2 = filled w1 ?fi 6 c len d p b" using w2 by (rule fill_frame_filled)
  have a: "buf_addr w1 = buf_addr w" "?fi < length (ni_buffers w1)" using ensure_has_size_addr [OF w1] by simp_all
  then show "buf_addr w2 = buf_addr w" by (simp add: b(4) filled_def emit_def)
  have start: "at_phase th t Start = th" using x(2) by (rule at_phase_same)
  have "w1\<lparr> buf_addr := buf_addr w1 \<rparr> = w1" by simp
  then have "iostep n (w, at_phase th t Start) (w, at_phase th t (Picked ?fi))"
    and "iostep n (w, at_phase th t (Picked ?fi)) (w1, at_phase th t (Sized ?fi))"
    and "iostep n (w1, at_phase th t (Sized ?fi)) (w1, at_phase th t (Fill ?fi (buf_addr w1 ?fi) 0))"
    using i w1 a(1) by (intro send_step [where th = th and t = t and a = ?a, OF t x(1)]; simp add: Let_def)+
  moreover have "(iostep n)\<^sup>*\<^sup>* (w1, at_phase th t (Fill ?fi (buf_addr w1 ?fi) 0)) (w2, at_phase th t (Fill ?fi ?a 6))"
    unfolding b(4) using fill_run [where th = th and t = t, OF t x(1) b(1) a(2) b(2,3)] a(1) by (metis order_refl)
  ultimately show "(iostep n)\<^sup>*\<^sup>* (w, th) (w2, at_phase th t (Fill ?fi ?a 6))"
    unfolding start by (meson converse_rtranclp_into_rtranclp)
qed

lemma send_run:
  assumes t: "t < n" and x: "th_todo (th t) = Send c len d p # ts" "th_phase (th t) = Start"
    and s: "net_interface_send w c len d p = Inr w'"
  shows "(iostep n)\<^sup>*\<^sup>* (w, th) (w', th(t := (th t)\<lparr> th_todo := ts \<rparr>))"
proof -
  obtain dm i w1 w2 where d: "d = Some dm" and i: "available w = Inr i" "i \<noteq> - 1"
    and w1: "ensure_has_size w (nat i) (len + of_nat eth_size) = Inr w1" "fill_frame w1 (nat i) c len dm p = Inr w2"
    and w2: "write_frame w2 (nat i) (len + of_nat eth_size) = Inr w'"
    using s by (auto simp: net_interface_send_def bind_run_eq_Inr Let_def split: option.splits if_splits)
  note prep = prepare_run [where th = th and t = t, OF t x(1) [unfolded d] x(2) i w1]
  have "(th t)\<lparr> th_todo := ts, th_phase := Start \<rparr> = (th t)\<lparr> th_todo := ts \<rparr>" using x(2) by simp
  then show ?thesis
    using prep write_run [where th = th and t = t, OF t x(1) w2] by (metis rtranclp_trans)
qed

lemma read_step:
  assumes "t < n" and "th_todo (th t) = Read len # ts" and "\<not> stopped ph" and "bounded_read rd"
    and "read_exec rd w b len ph = Inr (w', b', r)"
  shows "iostep n (w, th(t := (th t)\<lparr> th_phase := ph, th_buf := b \<rparr>))
    (w', th(t := next_phase ((th t)\<lparr> th_phase := ph, th_buf := b' \<rparr>) r))"
proof -
  let ?th = "th(t := (th t)\<lparr> th_phase := ph, th_buf := b \<rparr>)"
  have "io_exec rd 0 w (?th t) = Inr (w', next_phase ((th t)\<lparr> th_phase := ph, th_buf := b' \<rparr>) r)"
    using assms(2,5) by (subst io_exec_read) auto
  then have "iostep n (w, ?th) (w', ?th(t := next_phase ((th t)\<lparr> th_phase := ph, th_buf := b' \<rparr>) r))"
    using assms by (intro iostep.exec [OF assms(1) _ assms(4)]) (simp_all add: active_def)
  then show ?thesis by simp
qed

lemma read_run:
  assumes t: "t < n" and x: "th_todo (th t) = Read len # ts" "th_phase (th t) = Start" and rd: "bounded_read rd"
    and s: "net_interface_read rd w (th_buf (th t)) len = Inr (out, b', w')"
  shows "(iostep n)\<^sup>*\<^sup>* (w, th) (w', th(t := (th t)\<lparr> th_todo := ts, th_buf := b' \<rparr>))"
proof -
  let ?b = "th_buf (th t)" and ?x = "\<lambda>ph b. (th t)\<lparr> th_phase := ph, th_buf := b \<rparr>"
  note step = read_step [where th = th and t = t, OF t x(1) _ rd]
  have start: "th(t := ?x Start ?b) = th" using x(2) by (intro ext) simp
  have ret: "next_phase (?x ph b) None = (th t)\<lparr> th_todo := ts, th_buf := b \<rparr>"
    and go: "next_phase (?x ph b) (Some ph') = ?x ph' b" for ph ph' b
    using x by (simp_all add: next_phase_def)
  obtain i where i: "available w = Inr i" using s by (auto simp: net_interface_read_def bind_run_eq_Inr)
  show ?thesis
  proof (cases "i = - 1")
    case True
    then have "read_exec rd w ?b len Start = Inr (w', b', None)" using i s by (simp add: net_interface_read_def)
    then have "iostep n (w, th(t := ?x Start ?b)) (w', th(t := (th t)\<lparr> th_todo := ts, th_buf := b' \<rparr>))"
      using step [where ph = Start and w = w and b = ?b and w' = w' and b' = b' and r = None] by (simp only: ret stopped.simps simp_thms)
    then show ?thesis unfolding start by (rule r_into_rtranclp)
  next
    case False
    then obtain w1 where w1: "set_busy w (nat i) True = Inr w1" "tun_read rd w1 (nat i) ?b (sint len) = Inr (out, b')"
      "set_busy w1 (nat i) False = Inr w'"
      using i s by (auto simp: net_interface_read_def bind_run_eq_Inr)
    have "iostep n (w, th(t := ?x Start ?b)) (w, th(t := ?x (Picked (nat i)) ?b))"
      using step [where ph = Start and w = w and b = ?b and w' = w and b' = ?b and r = "Some (Picked (nat i))"] i False
      by (simp add: next_phase_def)
    moreover have "iostep n (w, th(t := ?x (Picked (nat i)) ?b)) (w1, th(t := ?x (Listen (nat i)) ?b))"
      using step [where ph = "Picked (nat i)" and w = w and b = ?b and w' = w1 and b' = ?b and r = "Some (Listen (nat i))"]
      w1(1) by (simp add: next_phase_def)
    moreover have "iostep n (w1, th(t := ?x (Listen (nat i)) ?b)) (w1, th(t := ?x (Used (nat i)) b'))"
      using step [where ph = "Listen (nat i)" and w = w1 and b = ?b and w' = w1 and b' = b' and r = "Some (Used (nat i))"]
      w1(2) by (simp add: go)
    moreover have "iostep n (w1, th(t := ?x (Used (nat i)) b')) (w', th(t := (th t)\<lparr> th_todo := ts, th_buf := b' \<rparr>))"
      using step [where ph = "Used (nat i)" and w = w1 and b = b' and w' = w' and b' = b' and r = None]
      w1(3) by (simp add: ret)
    ultimately show ?thesis unfolding start by (meson converse_rtranclp_into_rtranclp r_into_rtranclp)
  qed
qed

end
