(* ===== verification/Net_Exclusive.thy ===== *)
theory Net_Exclusive
  imports Net_Solo
begin

text \<open>
  Runs in which no two threads work on the same transmit buffer at the same time: the code has no means
  to enforce this, but where it holds the threads are safe and no frame is lost.
\<close>

section \<open>Exclusive use of transmit buffers\<close>

text \<open>
  The buffer that a thread works on, from \<^verbatim>\<open>ensure_has_size\<close> to the write.  A reader uses none, and a thread
  that has only chosen a queue does not either.
\<close>

fun block_of :: "io_phase \<Rightarrow> nat option" where
  "block_of (Sized fi) = Some fi"
| "block_of (Fill fi p k) = Some fi"
| "block_of (Busy fi p) = Some fi"
| "block_of (Freed ph) = block_of ph"
| "block_of (Halted ph) = block_of ph"
| "block_of ph = None"

definition exclusive :: "nat \<Rightarrow> iostate \<Rightarrow> bool" where
  "exclusive n s \<longleftrightarrow> (\<forall>t < n. \<forall>u < n. \<forall>fi.
     block_of (th_phase (snd s t)) = Some fi \<longrightarrow> block_of (th_phase (snd s u)) = Some fi \<longrightarrow> t = u)"

text \<open>A run all of whose states are exclusive.\<close>

definition xstep :: "nat \<Rightarrow> iostate \<Rightarrow> iostate \<Rightarrow> bool" where
  "xstep n s s' \<longleftrightarrow> iostep n s s' \<and> exclusive n s'"

text \<open>The frames that a thread has still to write.\<close>

fun task_frames :: "mac \<Rightarrow> io_task \<Rightarrow> bytes list" where
  "task_frames own (Send c len d p) = [eth_frame (the d) own p (take (unat len) c)]"
| "task_frames own (Read len) = []"

definition pending :: "mac \<Rightarrow> io_thread \<Rightarrow> bytes list" where
  "pending own x = concat (map (task_frames own)
     (case th_phase x of Used fi \<Rightarrow> tl (th_todo x) | _ \<Rightarrow> th_todo x))"

text \<open>\<open>xs\<close> is a merge of the sequences \<open>fs t\<close> of the threads.\<close>

definition interleaves :: "nat \<Rightarrow> (nat \<Rightarrow> 'a list) \<Rightarrow> 'a list \<Rightarrow> bool" where
  "interleaves n fs xs \<longleftrightarrow> (\<exists>ev. xs = map snd ev \<and> (\<forall>e \<in> set ev. fst e < n) \<and>
     (\<forall>t < n. map snd (filter (\<lambda>e. fst e = t) ev) = fs t))"

lemma interleaves_empty: "interleaves n (\<lambda>t. []) []"
  unfolding interleaves_def by (rule exI [of _ "[]"]) simp

lemma interleaves_append:
  assumes "interleaves n fs xs" and "t < n"
  shows "interleaves n (fs(t := fs t @ ys)) (xs @ ys)"
proof -
  obtain ev where ev: "xs = map snd ev" "\<forall>e \<in> set ev. fst e < n"
    "\<forall>t < n. map snd (filter (\<lambda>e. fst e = t) ev) = fs t"
    using assms(1) by (auto simp: interleaves_def)
  have "filter (\<lambda>e. fst e = u) (map (Pair t) ys) = (if u = t then map (Pair t) ys else [])" for u
    by (induction ys) auto
  then show ?thesis
    unfolding interleaves_def using ev assms(2)
    by (intro exI [of _ "ev @ map (Pair t) ys"]) (auto simp: comp_def)
qed

text \<open>Calls whose arguments fit: the content has the length given, and the frame one that \<^verbatim>\<open>int\<close> holds.\<close>

fun task_ok :: "nat \<Rightarrow> io_task \<Rightarrow> bool" where
  "task_ok m (Send c len d p) \<longleftrightarrow> d \<noteq> None \<and> unat len \<le> length c \<and> eth_size + unat len < 2 ^ 31"
| "task_ok m (Read len) \<longleftrightarrow> sint len \<le> int m"

definition tasks_ok :: "io_thread \<Rightarrow> bool" where
  "tasks_ok x \<longleftrightarrow> (\<forall>tk \<in> set (th_todo x). task_ok (length (th_buf x)) tk)"

section \<open>The invariant of a thread\<close>

text \<open>The block that the pointer \<open>a\<close> points to holds the frame of the call up to statement \<open>k\<close>.\<close>

definition at_block :: "io_state \<Rightarrow> io_task \<Rightarrow> nat \<Rightarrow> nat \<Rightarrow> nat \<Rightarrow> bool" where
  "at_block w tk fi a k \<longleftrightarrow> a = buf_addr w fi \<and> (\<exists>c len d p b. tk = Send c len (Some d) p \<and>
     ni_buffers w ! fi = Some (fill_upto k (ni_mac w) c len d p b) \<and> eth_size + unat len \<le> length b)"

fun phase_inv :: "io_state \<Rightarrow> io_task \<Rightarrow> io_phase \<Rightarrow> bool" where
  "phase_inv w tk Start \<longleftrightarrow> True"
| "phase_inv w tk (Picked fi) \<longleftrightarrow> fi < TUN_QUEUES"
| "phase_inv w tk (Sized fi) \<longleftrightarrow> fi < TUN_QUEUES \<and> at_block w tk fi (buf_addr w fi) 0"
| "phase_inv w tk (Fill fi a k) \<longleftrightarrow> fi < TUN_QUEUES \<and> k \<le> 6 \<and> at_block w tk fi a k"
| "phase_inv w tk (Busy fi a) \<longleftrightarrow> fi < TUN_QUEUES \<and> at_block w tk fi a 6"
| "phase_inv w tk (Listen fi) \<longleftrightarrow> fi < TUN_QUEUES \<and> (\<exists>len. tk = Read len)"
| "phase_inv w tk (Used fi) \<longleftrightarrow> fi < TUN_QUEUES"
| "phase_inv w tk (Freed ph) \<longleftrightarrow> False"
| "phase_inv w tk (Halted ph) \<longleftrightarrow> False"

definition thread_inv :: "io_state \<Rightarrow> io_thread \<Rightarrow> bool" where
  "thread_inv w x \<longleftrightarrow> tasks_ok x \<and> (if th_todo x = [] then th_phase x = Start else phase_inv w (hd (th_todo x)) (th_phase x))"

subsection \<open>What a statement does to the state of others\<close>

definition same_block :: "nat \<Rightarrow> io_state \<Rightarrow> io_state \<Rightarrow> bool" where
  "same_block gi w w' \<longleftrightarrow> ni_buffers w' ! gi = ni_buffers w ! gi \<and> buf_addr w' gi = buf_addr w gi"

lemma same_block_refl [simp]: "same_block gi w w" "same_block gi w (emit es w)"
  by (simp_all add: same_block_def emit_def)

lemma set_busy_frame:
  "set_busy w fi b = Inr w' \<Longrightarrow> same_block gi w w' \<and> ni_mac w' = ni_mac w"
  for w :: io_state
  by (auto simp: set_busy_def same_block_def split: if_splits)

lemma ensure_frame:
  "ensure_has_size w fi sz = Inr w' \<Longrightarrow> fi \<noteq> gi \<Longrightarrow> ni_buffers w' ! gi = ni_buffers w ! gi"
  "ensure_has_size w fi sz = Inr w' \<Longrightarrow> ni_mac w' = ni_mac w"
  by (auto simp: ensure_has_size_def same_block_def simp del: buffers_update_swap split: if_splits)

lemma send_exec_frame:
  assumes "send_exec a w c len d p ph = Inr (w', r)" and "block_of ph \<noteq> Some gi" "block_of (returned r) \<noteq> Some gi"
  shows "same_block gi w w' \<and> ni_mac w' = ni_mac w"
  using assms
  by (cases ph)
     (auto simp: bind_run_eq_Inr Let_def ensure_frame set_busy_frame split: if_splits option.splits
       dest!: tun_write_emit dest: set_busy_frame simp: same_block_def emit_def)

lemma read_exec_frame:
  assumes "read_exec rd w b len ph = Inr (w', b', r)"
  shows "same_block gi w w' \<and> ni_mac w' = ni_mac w"
  using assms
  by (cases ph) (auto simp: bind_run_eq_Inr split: if_splits dest: set_busy_frame)

lemma thread_inv_frame:
  assumes "thread_inv w x" and "\<And>gi. block_of (th_phase x) = Some gi \<Longrightarrow> same_block gi w w'" and "ni_mac w' = ni_mac w"
  shows "thread_inv w' x"
  using assms by (cases "th_phase x") (auto simp: thread_inv_def at_block_def same_block_def split: if_splits)

subsection \<open>What a statement does to its own thread\<close>

lemma net_ok_buf_addr [simp]: "net_ok (w\<lparr> buf_addr := f \<rparr>) = net_ok w"
  by (simp add: net_ok_def tun_ok_def)

lemma net_ok_block:
  assumes "net_ok w" and "ni_buffers w ! fi = Some b" and "length b' = length b" and "fi < TUN_QUEUES"
  shows "net_ok (w\<lparr> ni_buffers := (ni_buffers w)[fi := Some b'] \<rparr>)"
proof -
  have all: "list_all2 buffer_ok (ni_buffers w) (ni_buffers_size w)" using assms(1) by (simp add: net_ok_def)
  then have "buffer_ok (Some b') (ni_buffers_size w ! fi)"
    using assms list_all2_nthD [of buffer_ok "ni_buffers w" "ni_buffers_size w" fi]
    by (simp add: net_ok_def buffer_ok_def)
  with all have "list_all2 buffer_ok ((ni_buffers w)[fi := Some b']) ((ni_buffers_size w)[fi := ni_buffers_size w ! fi])"
    by (rule list_all2_update_cong)
  then show ?thesis using assms(1) by (simp add: net_ok_def tun_ok_def)
qed

lemma set_busy_ok:
  "net_ok w \<Longrightarrow> fi < TUN_QUEUES \<Longrightarrow> set_busy w fi b = Inr (w\<lparr> busy_status := (busy_status w)[fi := b] \<rparr>)"
  "net_ok w \<Longrightarrow> net_ok (w\<lparr> busy_status := (busy_status w)[fi := b] \<rparr>)"
  by (simp_all add: set_busy_def net_ok_def tun_ok_def)

text \<open>The contract of a statement: it does not stop, and it writes the next pending frames \<open>new\<close>.\<close>

definition good_step :: "io_state \<Rightarrow> io_thread \<Rightarrow> (io_state, io_state \<times> io_thread) run \<Rightarrow> bool" where
  "good_step w x r \<longleftrightarrow> (\<exists>w' x' new. r = Inr (w', x') \<and> net_ok w' \<and> thread_inv w' x' \<and> ni_mac w' = ni_mac w \<and>
     frames_of (trace w') = frames_of (trace w) @ new \<and> pending (ni_mac w) x = new @ pending (ni_mac w) x')"

lemma good_stepI:
  assumes "r = Inr (w', x')" and "net_ok w'" and "thread_inv w' x'" and "ni_mac w' = ni_mac w"
    and "frames_of (trace w') = frames_of (trace w) @ new" and "pending (ni_mac w) x = new @ pending (ni_mac w) x'"
  shows "good_step w x r"
  using assms unfolding good_step_def by blast

lemma ensure_good:
  assumes "net_ok w" and "fi < TUN_QUEUES" and "eth_size + unat len < 2 ^ 31"
  obtains w' b where "ensure_has_size w fi (len + of_nat eth_size) = Inr w'" "net_ok w'" "ni_mac w' = ni_mac w"
    "trace w' = trace w" "ni_buffers w' ! fi = Some b" "eth_size + unat len \<le> length b"
    "unat (ni_buffers_size w' ! fi) = max (unat (ni_buffers_size w ! fi)) (eth_size + unat len)"
proof -
  let ?sz = "len + of_nat eth_size :: u32"
  let ?ss = "(ni_buffers_size w)[fi := max (ni_buffers_size w ! fi) ?sz]"
  note sz = total_size(1,3) [OF assms(3)]
  obtain b where ens: "ensure_has_size w fi ?sz = Inr (w\<lparr> ni_buffers := (ni_buffers w)[fi := Some b], ni_buffers_size := ?ss \<rparr>)"
    and lb: "length b = unat (max (ni_buffers_size w ! fi) ?sz)"
    using ensure_has_size_ok [OF assms(1,2) sz(2)] by blast
  have "net_ok (w\<lparr> ni_buffers := (ni_buffers w)[fi := Some b], ni_buffers_size := ?ss \<rparr>)"
    using assms(1) lb by (auto simp: net_ok_def tun_ok_def buffer_ok_def intro!: list_all2_update_cong)
  moreover have "eth_size + unat len \<le> length b"
    unfolding lb sz(1) [symmetric] by (simp add: word_le_nat_alt [symmetric])
  moreover have "(ni_buffers w)[fi := Some b] ! fi = Some b" using assms(1,2) by (simp add: net_ok_def)
  moreover have "length (ni_buffers_size w) = TUN_QUEUES" using assms(1) list_all2_lengthD by (fastforce simp: net_ok_def)
  then have "unat (?ss ! fi) = max (unat (ni_buffers_size w ! fi)) (eth_size + unat len)"
    using assms(2) sz(1) by (simp add: max_def word_le_nat_alt)
  ultimately show thesis using ens by (intro that [OF ens]) simp_all
qed

lemma thread_inv_phase:
  assumes "thread_inv w x" and "th_todo x = tk # ts"
  shows "thread_inv w' (x\<lparr> th_phase := ph \<rparr>) \<longleftrightarrow> phase_inv w' tk ph"
    and "thread_inv w' (x\<lparr> th_todo := ts, th_phase := Start \<rparr>)"
    and "phase_inv w tk (th_phase x)" and "task_ok (length (th_buf x)) tk"
  using assms by (auto simp: thread_inv_def tasks_ok_def split: if_splits)

lemma frames_sent_debug [simp]: "frames_of (sent_debug fi n h) = []"
  by (simp add: sent_debug_def)

lemma fill_good:
  assumes x: "th_todo x = Send c len d p # ts" "th_phase x = Fill fi q k" and inv: "thread_inv w x" and ok: "net_ok w"
    and k: "k < 6"
  shows "good_step w x (io_exec rd a w x)"
proof -
  note inv' = thread_inv_phase [OF inv x(1)]
  from inv'(3,4) x(2) obtain dm b where d: "d = Some dm" and q: "q = buf_addr w fi" and fi: "fi < TUN_QUEUES"
    and b: "ni_buffers w ! fi = Some (fill_upto k (ni_mac w) c len dm p b)" and big: "eth_size + unat len \<le> length b"
    and c: "unat len \<le> length c"
    by (auto simp: at_block_def)
  let ?b = "fill_upto k (ni_mac w) c len dm p b"
  obtain out where part: "fill_part fi (ni_mac w) k c len dm p ?b = Some (fill_upto (Suc k) (ni_mac w) c len dm p b, out)"
    and out: "frames_of out = []"
    using fill_part_fits(1) [of len ?b c fi "ni_mac w" k dm p] big c by (simp add: length_fill_upto cong: if_cong)
  let ?w = "emit out (w\<lparr> ni_buffers := (ni_buffers w)[fi := Some (fill_upto (Suc k) (ni_mac w) c len dm p b)] \<rparr>)"
  let ?x = "x\<lparr> th_phase := Fill fi q (k + 1) \<rparr>"
  have ex: "io_exec rd a w x = Inr (?w, ?x)"
    using k part b q d by (simp add: io_exec_send [OF x(1)] x(2) next_phase_def)
  have "net_ok ?w" using net_ok_block [OF ok b _ fi] big c by (simp add: length_fill_upto del: fill_upto.simps)
  moreover have "at_block ?w (Send c len d p) fi q (k + 1)"
    using q d big fi ok unfolding at_block_def by (auto simp: emit_def net_ok_def simp del: fill_upto.simps)
  then have "thread_inv ?w ?x" using fi k by (simp add: inv'(1))
  ultimately show ?thesis
    by (rule good_stepI [OF ex, where new = "[]"]) (use out x in \<open>simp_all add: pending_def\<close>)
qed

lemma tun_write_prefix:
  assumes "net_ok w" and "fi < TUN_QUEUES" and "n = int (length f)"
  shows "tun_write w fi (f @ rest) n = Inr (sys_write w (tun_fds w ! fi) f, emit [Wrote (tun_fds w ! fi) f] w)"
  using assms by (simp add: tun_write_def net_ok_def tun_ok_def Let_def)

lemma write_good:
  assumes x: "th_todo x = Send c len d p # ts" "th_phase x = Busy fi q" and inv: "thread_inv w x" and ok: "net_ok w"
  shows "good_step w x (io_exec rd a w x)"
proof -
  note inv' = thread_inv_phase [OF inv x(1)]
  from inv'(3,4) x(2) obtain dm b where d: "d = Some dm" and q: "q = buf_addr w fi" and fi: "fi < TUN_QUEUES"
    and b: "ni_buffers w ! fi = Some (fill_upto 6 (ni_mac w) c len dm p b)" and big: "eth_size + unat len \<le> length b"
    and c: "unat len \<le> length c" and small: "eth_size + unat len < 2 ^ 31"
    by (auto simp: at_block_def)
  let ?f = "eth_frame dm (ni_mac w) p (take (unat len) c)" and ?x = "x\<lparr> th_phase := Used fi \<rparr>"
  let ?w = "emit [Wrote (tun_fds w ! fi) ?f] w"
  have "tun_write w fi (fill_upto 6 (ni_mac w) c len dm p b) (sint (len + of_nat eth_size)) =
      Inr (sys_write w (tun_fds w ! fi) ?f, ?w)"
    unfolding fill_upto_header(2) [OF big c]
    by (rule tun_write_prefix [OF ok fi]) (use total_size(2) [OF small] c in simp)
  then have ex: "io_exec rd a w x = Inr (?w, ?x)"
    using b q by (simp add: io_exec_send [OF x(1)] x(2) next_phase_def)
  show ?thesis
    by (rule good_stepI [OF ex, where new = "[?f]"]) (use ok fi d x in \<open>simp_all add: inv'(1) pending_def\<close>)
qed

lemma size_good:
  assumes x: "th_todo x = Send c len d p # ts" "th_phase x = Picked fi" and inv: "thread_inv w x" and ok: "net_ok w"
  shows "good_step w x (io_exec rd a w x)"
proof -
  note inv' = thread_inv_phase [OF inv x(1)]
  have fi: "fi < TUN_QUEUES" and small: "eth_size + unat len < 2 ^ 31" and d: "d \<noteq> None"
    using inv'(3,4) x(2) by simp_all
  obtain w1 b where w1: "ensure_has_size w fi (len + of_nat eth_size) = Inr w1" "net_ok w1" "ni_mac w1 = ni_mac w"
    "trace w1 = trace w" "ni_buffers w1 ! fi = Some b" "eth_size + unat len \<le> length b"
    by (rule ensure_good [OF ok fi small])
  let ?w = "w1\<lparr> buf_addr := if must_grow w fi (len + of_nat eth_size) then (buf_addr w)(fi := a) else buf_addr w \<rparr>"
  have "at_block ?w (Send c len d p) fi (buf_addr ?w fi) 0" using w1(5,6) d by (auto simp: at_block_def)
  then show ?thesis
    by (intro good_stepI [where w' = ?w and new = "[]" and x' = "x\<lparr> th_phase := Sized fi \<rparr>"])
       (use w1 fi x in \<open>simp_all add: io_exec_send next_phase_def inv'(1) pending_def Let_def\<close>)
qed

lemma mark_good:
  assumes x: "th_todo x = Send c len d p # ts" and inv: "thread_inv w x" and ok: "net_ok w"
    and ph: "th_phase x = Fill fi q k" and "\<not> k < 6"
  shows "good_step w x (io_exec rd a w x)"
proof -
  note inv' = thread_inv_phase [OF inv x]
  let ?w = "w\<lparr> busy_status := (busy_status w)[fi := True] \<rparr>"
  have fi: "fi < TUN_QUEUES" "at_block ?w (Send c len d p) fi q 6"
    using inv'(3) assms(4,5) by (auto simp: at_block_def le_less simp del: fill_upto.simps)
  show ?thesis
    by (rule good_stepI [where w' = ?w and new = "[]" and x' = "x\<lparr> th_phase := Busy fi q \<rparr>"])
       (use assms(4,5) fi ok in \<open>simp_all add: io_exec_send [OF x] next_phase_def inv'(1,2) pending_def x set_busy_ok\<close>)
qed

lemma send_good:
  assumes x: "th_todo x = Send c len d p # ts" and inv: "thread_inv w x" and ok: "net_ok w"
    and free: "th_phase x = Start \<Longrightarrow> some_free w"
  shows "good_step w x (io_exec rd a w x)"
proof -
  note inv' = thread_inv_phase [OF inv x]
  obtain dm where d: "d = Some dm" and c: "unat len \<le> length c" and small: "eth_size + unat len < 2 ^ 31"
    using inv'(4) by auto
  note go = io_exec_send [OF x] next_phase_def inv'(1,2) pending_def x
  show ?thesis
  proof (cases "th_phase x")
    case Start
    have "tun_ok w" using ok by (simp add: net_ok_def)
    note av = available_free [OF this free [OF Start]]
    show ?thesis
      by (rule good_stepI [where w' = w and new = "[]" and x' = "x\<lparr> th_phase := Picked (first_free w) \<rparr>"])
         (use av d ok Start in \<open>simp_all add: go\<close>)
  next
    case (Picked fi)
    with x inv ok show ?thesis by (intro size_good)
  next
    case (Sized fi)
    then show ?thesis
      by (intro good_stepI [where w' = w and new = "[]" and x' = "x\<lparr> th_phase := Fill fi (buf_addr w fi) 0 \<rparr>"])
         (use inv'(3) ok in \<open>simp_all add: go\<close>)
  next
    case (Fill fi q k)
    with x inv ok show ?thesis by (cases "k < 6") (blast intro: fill_good mark_good)+
  next
    case (Busy fi q)
    with x inv ok show ?thesis by (intro write_good)
  next
    case (Used fi)
    let ?w = "w\<lparr> busy_status := (busy_status w)[fi := False] \<rparr>"
    show ?thesis
      by (rule good_stepI [where w' = ?w and new = "[]" and x' = "x\<lparr> th_todo := ts, th_phase := Start \<rparr>"])
         (use inv'(3) Used ok in \<open>simp_all add: go set_busy_ok\<close>)
  qed (use inv'(3) in simp_all)
qed

lemma tun_read_bounded:
  assumes "net_ok w" and "fi < TUN_QUEUES" and "bounded_read rd" and "n \<le> int (length b)"
  shows "\<exists>out b'. tun_read rd w fi b n = Inr (out, b') \<and> length b' = length b"
proof -
  have "length bs \<le> length b" if "rd (tun_fds w ! fi) n = Some bs" for bs
    using assms(3,4) that by (fastforce simp: bounded_read_def)
  then show ?thesis
    using assms(1,2) by (auto simp: tun_read_def net_ok_def tun_ok_def length_patch not_less split: option.splits)
qed

lemma read_good:
  assumes x: "th_todo x = Read len # ts" and inv: "thread_inv w x" and ok: "net_ok w" and rd: "bounded_read rd"
    and free: "th_phase x = Start \<Longrightarrow> some_free w"
  shows "good_step w x (io_exec rd a w x)"
proof -
  note inv' = thread_inv_phase [OF inv x]
  note go = io_exec_read [OF x] next_phase_def inv'(1,2) pending_def x
  show ?thesis
  proof (cases "th_phase x")
    case Start
    have "tun_ok w" using ok by (simp add: net_ok_def)
    note av = available_free [OF this free [OF Start]]
    show ?thesis
      by (rule good_stepI [where w' = w and new = "[]" and x' = "x\<lparr> th_phase := Picked (first_free w) \<rparr>"])
         (use av ok Start in \<open>simp_all add: go\<close>)
  next
    case (Picked fi)
    let ?w = "w\<lparr> busy_status := (busy_status w)[fi := True] \<rparr>"
    show ?thesis
      by (rule good_stepI [where w' = ?w and new = "[]" and x' = "x\<lparr> th_phase := Listen fi \<rparr>"])
         (use Picked inv'(3) ok in \<open>simp_all add: go set_busy_ok\<close>)
  next
    case (Listen fi)
    then have fi: "fi < TUN_QUEUES" using inv'(3) by simp
    obtain out b where r: "tun_read rd w fi (th_buf x) (sint len) = Inr (out, b)" "length b = length (th_buf x)"
      using tun_read_bounded [OF ok fi rd, of "sint len" "th_buf x"] inv'(4) by auto
    show ?thesis
      by (rule good_stepI [where w' = w and new = "[]" and x' = "x\<lparr> th_phase := Used fi, th_buf := b \<rparr>"])
         (use Listen fi r ok inv in \<open>simp_all add: go thread_inv_def tasks_ok_def\<close>)
  next
    case (Used fi)
    let ?w = "w\<lparr> busy_status := (busy_status w)[fi := False] \<rparr>"
    show ?thesis
      by (rule good_stepI [where w' = ?w and new = "[]" and x' = "x\<lparr> th_todo := ts, th_phase := Start \<rparr>"])
         (use inv'(3) Used ok in \<open>simp_all add: go set_busy_ok\<close>)
  qed (use inv'(3) in \<open>auto simp: at_block_def\<close>)
qed

lemma io_exec_good:
  assumes "thread_inv w x" and "net_ok w" and "bounded_read rd" and "active x"
    and "th_phase x = Start \<Longrightarrow> some_free w"
  shows "good_step w x (io_exec rd a w x)"
proof (cases "th_todo x")
  case (Cons tk ts)
  with assms show ?thesis by (cases tk) (auto intro: send_good read_good)
qed (use assms(4) in \<open>simp add: active_def\<close>)

section \<open>All threads\<close>

text \<open>
  What holds in every state of an exclusive run from \<open>s0\<close>: no thread has stopped, and the frames on the
  wire are a merge of those each thread has written.
\<close>

definition wire_ok :: "nat \<Rightarrow> iostate \<Rightarrow> iostate \<Rightarrow> bool" where
  "wire_ok n s0 s \<longleftrightarrow> (\<exists>fs xs. frames_of (trace (fst s)) = frames_of (trace (fst s0)) @ xs \<and> interleaves n fs xs \<and>
     (\<forall>t < n. fs t @ pending (ni_mac (fst s0)) (snd s t) = pending (ni_mac (fst s0)) (snd s0 t)))"

definition ioinv :: "nat \<Rightarrow> iostate \<Rightarrow> iostate \<Rightarrow> bool" where
  "ioinv n s0 s \<longleftrightarrow> net_ok (fst s) \<and> ni_mac (fst s) = ni_mac (fst s0) \<and> exclusive n s \<and>
     (\<forall>t < n. thread_inv (fst s) (snd s t)) \<and> wire_ok n s0 s"

lemma wire_ok_step:
  assumes "wire_ok n s0 (w, th)" and "t < n" and "frames_of (trace w') = frames_of (trace w) @ new"
    and "pending (ni_mac (fst s0)) (th t) = new @ pending (ni_mac (fst s0)) x"
  shows "wire_ok n s0 (w', th(t := x))"
proof -
  obtain fs xs where 1: "frames_of (trace w) = frames_of (trace (fst s0)) @ xs" "interleaves n fs xs"
    "\<And>u. u < n \<Longrightarrow> fs u @ pending (ni_mac (fst s0)) (th u) = pending (ni_mac (fst s0)) (snd s0 u)"
    using assms(1) unfolding wire_ok_def fst_conv snd_conv by blast
  have "interleaves n (fs(t := fs t @ new)) (xs @ new)" using 1(2) assms(2) by (rule interleaves_append)
  moreover have "(fs(t := fs t @ new)) u @ pending (ni_mac (fst s0)) ((th(t := x)) u) = pending (ni_mac (fst s0)) (snd s0 u)"
    if "u < n" for u
    using 1(3) [OF that] assms(4) by (cases "u = t") auto
  ultimately show ?thesis
    unfolding wire_ok_def fst_conv snd_conv using 1(1) assms(3)
    by (intro exI [of _ "fs(t := fs t @ new)"] exI [of _ "xs @ new"]) simp
qed

lemma io_exec_frame:
  assumes "io_exec rd a w x = Inr (w', x')" and "block_of (th_phase x) \<noteq> Some gi" "block_of (th_phase x') \<noteq> Some gi"
  shows "same_block gi w w' \<and> ni_mac w' = ni_mac w"
  using assms
  by (auto simp: io_exec_def bind_run_eq_Inr split: list.splits io_task.splits
      dest: send_exec_frame [where gi = gi] read_exec_frame [where gi = gi])

lemma others_undisturbed:
  assumes "ioinv n s0 (w, th)" and "t < n" "u < n" "u \<noteq> t" and "io_exec rd a w (th t) = Inr (w', x)"
    and "ni_mac w' = ni_mac w" and "exclusive n (w', th(t := x))"
  shows "thread_inv w' (th u)"
proof (rule thread_inv_frame)
  show "thread_inv w (th u)" using assms(1,3) by (simp add: ioinv_def)
  fix gi assume gi: "block_of (th_phase (th u)) = Some gi"
  have "exclusive n (w, th)" using assms(1) by (simp add: ioinv_def)
  then have "block_of (th_phase (th t)) \<noteq> Some gi" using gi assms(2-4) by (auto simp: exclusive_def)
  moreover have "block_of (th_phase x) \<noteq> Some gi"
    using gi assms(2-4,7) unfolding exclusive_def snd_conv by (metis fun_upd_apply)
  ultimately show "same_block gi w w'" using assms(5) by (blast dest: io_exec_frame)
qed (rule assms(6))

lemma ioinv_step:
  assumes step: "iostep n (w, th) s'" and ex: "exclusive n s'" and inv: "ioinv n s0 (w, th)"
    and free: "\<And>t. t < n \<Longrightarrow> th_phase (th t) = Start \<Longrightarrow> some_free w"
  shows "ioinv n s0 s'"
  using step
proof (cases rule: iostep.cases)
  case (exec t rd a w' x)
  have "good_step w (th t) (io_exec rd a w (th t))"
    using exec inv free by (intro io_exec_good) (auto simp: ioinv_def)
  then obtain new where new: "net_ok w'" "thread_inv w' x" "ni_mac w' = ni_mac w"
    "frames_of (trace w') = frames_of (trace w) @ new" "pending (ni_mac w) (th t) = new @ pending (ni_mac w) x"
    using exec(5) by (auto simp: good_step_def)
  have "thread_inv w' ((th(t := x)) u)" if "u < n" for u
    using that new(2) others_undisturbed [OF inv exec(2) that _ exec(5) new(3)] ex exec(1) by (cases "u = t") simp_all
  moreover have "wire_ok n s0 (w', th(t := x))"
    using inv new(4,5) exec(2) by (intro wire_ok_step) (auto simp: ioinv_def)
  ultimately show ?thesis using exec(1) new(1,3) ex inv by (simp add: ioinv_def)
next
  case (halt t rd a h)
  have "good_step w (th t) (io_exec rd a w (th t))"
    using halt inv free by (intro io_exec_good) (auto simp: ioinv_def)
  then show ?thesis using halt(5) by (simp add: good_step_def)
qed

end
