(* ===== verification/Net_Threads_Props.thy ===== *)
theory Net_Threads_Props
  imports Net_Exclusive
begin

text \<open>
  The properties of the threads in the network interface: they follow the queue protocol, one of them
  alone computes what the functions compute, exclusive runs lose nothing, every run ends, and what
  happens when two threads use one queue.
\<close>

section \<open>Runs\<close>

lemma start_finds_queue:
  assumes "ioinit s0" and "ioreachable n s0 (w, th)" and "n \<le> TUN_QUEUES" and "t < n" "th_phase (th t) = Start"
  shows "some_free w"
proof -
  have "qinv n (tun_view w, \<lambda>t. qphase (th_phase (th t)))"
    using ioreachable_qreachable [OF assms(1,2)] by (auto simp: qabs_def dest: qreachable_inv)
  from qinv_some_free [OF this assms(3,4)] assms(5) show ?thesis by simp
qed

lemma exclusive_run:
  assumes "ioinit s0" and "\<forall>t < n. tasks_ok (snd s0 t)" and "n \<le> TUN_QUEUES" and "(xstep n)\<^sup>*\<^sup>* s0 s"
  shows "ioinv n s0 s \<and> ioreachable n s0 s"
  using assms(4)
proof (induction rule: rtranclp_induct)
  case base
  have "wire_ok n s0 s0"
    unfolding wire_ok_def by (rule exI [of _ "\<lambda>t. []"], rule exI [of _ "[]"]) (simp add: interleaves_empty)
  moreover have "thread_inv (fst s0) (snd s0 t)" if "t < n" for t
    using assms(1,2) that by (simp add: ioinit_def thread_inv_def)
  moreover have "exclusive n s0" using assms(1) by (simp add: exclusive_def ioinit_def)
  ultimately show ?case using assms(1) by (simp add: ioinv_def ioinit_def ioreachable_def)
next
  case (step s s')
  obtain w th where s: "s = (w, th)" by (cases s)
  have "ioinv n s0 s'"
    using step.hyps(2) step.IH start_finds_queue [OF assms(1) _ assms(3)] unfolding s xstep_def
    by (blast intro: ioinv_step)
  moreover have "ioreachable n s0 s'"
    using step unfolding ioreachable_def xstep_def by (blast intro: rtranclp.rtrancl_into_rtrancl)
  ultimately show ?case by blast
qed

lemma thread_inv_not_stopped: "thread_inv w x \<Longrightarrow> \<not> stopped (th_phase x)"
  by (cases "th_phase x") (auto simp: thread_inv_def split: if_splits)

section \<open>Every run ends\<close>

fun rank :: "io_phase \<Rightarrow> nat" where
  "rank Start = 0"
| "rank (Picked fi) = 1"
| "rank (Sized fi) = 2"
| "rank (Fill fi p k) = 3 + min k 6"
| "rank (Busy fi p) = 10"
| "rank (Listen fi) = 10"
| "rank (Used fi) = 11"
| "rank (Freed ph) = 12"
| "rank (Halted ph) = 12"

definition work :: "io_thread \<Rightarrow> nat" where
  "work x = 12 * length (th_todo x) - rank (th_phase x)"

definition total_work :: "nat \<Rightarrow> iostate \<Rightarrow> nat" where
  "total_work n s = (\<Sum>t < n. work (snd s t))"

lemma rank_le: "rank ph \<le> 12" "\<not> stopped ph \<Longrightarrow> rank ph \<le> 11"
  by (cases ph; simp)+

lemma send_exec_rank:
  "send_exec a w c len d p ph = Inr (w', Some ph') \<Longrightarrow> \<not> stopped ph \<Longrightarrow> rank ph < rank ph'"
  by (cases ph) (auto simp: bind_run_eq_Inr Let_def split: if_splits option.splits)

lemma read_exec_rank:
  "read_exec rd w b len ph = Inr (w', b', Some ph') \<Longrightarrow> \<not> stopped ph \<Longrightarrow> rank ph < rank ph'"
  by (cases ph) (auto simp: bind_run_eq_Inr split: if_splits)

lemma work_next:
  assumes "active x" and "\<And>ph'. r = Some ph' \<Longrightarrow> rank (th_phase x) < rank ph'"
  shows "work (next_phase x r) < work x"
proof -
  have "rank (th_phase x) \<le> 11" "th_todo x \<noteq> []" using assms(1) by (simp_all add: active_def rank_le(2))
  then obtain tk ts where "th_todo x = tk # ts" "rank (th_phase x) \<le> 11" by (cases "th_todo x") auto
  then show ?thesis
    using assms(2) by (cases r) (auto simp: work_def next_phase_def intro!: diff_less_mono2)
qed

lemma io_exec_work:
  assumes "io_exec rd a w x = Inr (w', x')" and "active x"
  shows "work x' < work x"
proof (cases "th_todo x")
  case (Cons tk ts)
  have run: "\<not> stopped (th_phase x)" using assms(2) by (simp add: active_def)
  show ?thesis
  proof (cases tk)
    case (Send c len d p)
    then obtain r where "send_exec a w c len d p (th_phase x) = Inr (w', r)" "x' = next_phase x r"
      using assms(1) Cons by (auto simp: io_exec_def bind_run_eq_Inr)
    then show ?thesis using run assms(2) by (auto intro!: work_next dest: send_exec_rank)
  next
    case (Read len)
    then obtain b r where r: "read_exec rd w (th_buf x) len (th_phase x) = Inr (w', b, r)"
      "x' = next_phase (x\<lparr> th_buf := b \<rparr>) r"
      using assms(1) Cons by (auto simp: io_exec_def bind_run_eq_Inr)
    have "work (next_phase (x\<lparr> th_buf := b \<rparr>) r) < work (x\<lparr> th_buf := b \<rparr>)"
      using r(1) run assms(2) by (intro work_next) (auto simp: active_def dest: read_exec_rank)
    then show ?thesis by (simp add: r(2) work_def)
  qed
qed (use assms(2) in \<open>simp add: active_def\<close>)

lemma total_work_less:
  assumes "work x < work (th t)" and "t < n"
  shows "total_work n (w', th(t := x)) < total_work n (w, th)"
  unfolding total_work_def snd_conv using assms(2,1) by (rule sum_update_less)

lemma iostep_work: "iostep n s s' \<Longrightarrow> total_work n s' < total_work n s"
proof (induction rule: iostep.induct)
  case (exec t th rd a w w' x)
  then show ?case by (blast intro: total_work_less io_exec_work)
next
  case (halt t th rd a w h)
  then have "work ((th t)\<lparr> th_phase := Halted (th_phase (th t)) \<rparr>) < work (th t)"
    using rank_le(2) [of "th_phase (th t)"] by (cases "th_todo (th t)") (auto simp: work_def active_def)
  then show ?case using halt(1) by (rule total_work_less)
qed

interpretation iob: bounded_steps "iostep n" "total_work n" for n
  by unfold_locales (rule iostep_work)

interpretation xb: bounded_steps "xstep n" "total_work n" for n
  by unfold_locales (simp add: xstep_def iostep_work)

section \<open>Finishing\<close>

lemma send_exec_block:
  "send_exec a w c len d p ph = Inr (w', r) \<Longrightarrow> block_of ph \<noteq> None \<Longrightarrow> block_of (returned r) \<in> {block_of ph, None}"
  by (cases ph) (auto simp: bind_run_eq_Inr Let_def split: if_splits option.splits)

lemma read_exec_block:
  "read_exec rd w b len ph = Inr (w', b', r) \<Longrightarrow> block_of (returned r) \<in> {block_of ph, None}"
  by (cases ph) (auto simp: bind_run_eq_Inr split: if_splits)

lemma exec_block:
  assumes "io_exec rd a w x = Inr (w', x')" and "block_of (th_phase x) \<noteq> None"
  shows "block_of (th_phase x') \<in> {block_of (th_phase x), None}"
proof (cases "th_todo x")
  case (Cons tk ts)
  with assms show ?thesis
    by (cases tk) (auto simp: io_exec_def bind_run_eq_Inr simp del: insert_iff not_None_eq dest!: send_exec_block read_exec_block)
qed (use assms(1) in \<open>simp add: io_exec_def\<close>)

lemma exclusive_update:
  assumes "exclusive n (w, th)" and "u < n" and "block_of (th_phase x) \<in> {block_of (th_phase (th u)), None}"
  shows "exclusive n (w', th(u := x))"
proof -
  have "t = v" if "t < n" "v < n" and q: "block_of (th_phase ((th(u := x)) t)) = Some fi" "block_of (th_phase ((th(u := x)) v)) = Some fi"
    for t v fi
  proof -
    have "block_of (th_phase (th t)) = Some fi" "block_of (th_phase (th v)) = Some fi"
      using q assms(3) by (cases "t = u"; cases "v = u"; auto)+
    with assms(1) that(1,2) show "t = v" by (auto simp: exclusive_def)
  qed
  then show ?thesis unfolding exclusive_def snd_conv by blast
qed

text \<open>
  A thread that works on a buffer can take its next step, and when no thread works on one, any thread
  can: so some thread can go on without disturbing another.
\<close>

lemma exclusive_progress:
  assumes inv: "ioinv n s0 (w, th)" and free: "\<And>t. t < n \<Longrightarrow> th_phase (th t) = Start \<Longrightarrow> some_free w"
    and todo: "t < n" "th_todo (th t) \<noteq> []"
  shows "\<exists>s'. xstep n (w, th) s'"
proof -
  obtain u where u: "u < n" "th_todo (th u) \<noteq> []"
    "block_of (th_phase (th u)) \<noteq> None \<or> (\<forall>v < n. block_of (th_phase (th v)) = None)"
  proof (cases "\<forall>v < n. block_of (th_phase (th v)) = None")
    case True
    with todo show thesis by (intro that [of t]) auto
  next
    case False
    then obtain v where v: "v < n" "block_of (th_phase (th v)) \<noteq> None" by blast
    then have "th_phase (th v) \<noteq> Start" by auto
    with v(1) inv have "th_todo (th v) \<noteq> []" by (auto simp: ioinv_def thread_inv_def)
    with v show thesis by (intro that [of v]) auto
  qed
  have inv_u: "thread_inv w (th u)" "net_ok w" using inv u(1) by (simp_all add: ioinv_def)
  then have act: "active (th u)" using u(2) by (simp add: active_def thread_inv_not_stopped)
  obtain w' x where ex: "io_exec (\<lambda>fd n. None) 0 w (th u) = Inr (w', x)"
    using io_exec_good [OF inv_u no_read_bounded act free [OF u(1)], of 0] by (auto simp: good_step_def)
  have "exclusive n (w', th(u := x))"
    using u(3)
  proof
    assume "block_of (th_phase (th u)) \<noteq> None"
    from exec_block [OF ex this] inv u(1) show ?thesis by (intro exclusive_update [of n w th]) (simp_all add: ioinv_def)
  qed (auto simp: exclusive_def)
  then show ?thesis
    using iostep.exec [of u n th "\<lambda>fd n. None" 0 w w' x] u(1) act no_read_bounded ex unfolding xstep_def by blast
qed

lemma exclusive_completion:
  assumes "ioinit s0" and "\<forall>t < n. tasks_ok (snd s0 t)" and "n \<le> TUN_QUEUES" and "(xstep n)\<^sup>*\<^sup>* s0 s"
  shows "\<exists>s'. (xstep n)\<^sup>*\<^sup>* s s' \<and> (\<forall>t < n. th_todo (snd s' t) = [])"
proof (rule xb.completion [OF _ assms(4)])
  fix s1 assume s1: "(xstep n)\<^sup>*\<^sup>* s0 s1" and "\<not> (\<forall>t < n. th_todo (snd s1 t) = [])"
  then obtain t where t: "t < n" "th_todo (snd s1 t) \<noteq> []" by blast
  obtain w th where s: "s1 = (w, th)" by (cases s1)
  show "\<exists>s'. xstep n s1 s'"
    using exclusive_progress [of n s0 w th t] exclusive_run [OF assms(1-3) s1]
      start_finds_queue [OF assms(1) _ assms(3)] t unfolding s by auto
qed

section \<open>One sender\<close>

text \<open>At most one thread sends; the others only read.\<close>

definition reader :: "io_thread \<Rightarrow> bool" where
  "reader x \<longleftrightarrow> (\<forall>tk \<in> set (th_todo x). \<exists>len. tk = Read len)"

definition single_sender :: "nat \<Rightarrow> iostate \<Rightarrow> bool" where
  "single_sender n s \<longleftrightarrow> (\<exists>p. \<forall>t < n. t \<noteq> p \<longrightarrow> reader (snd s t) \<and> block_of (th_phase (snd s t)) = None)"

lemma io_exec_reader:
  assumes "io_exec rd a w x = Inr (w', x')" and "reader x" and "block_of (th_phase x) = None"
  shows "reader x' \<and> block_of (th_phase x') = None"
proof (cases "th_todo x")
  case (Cons tk ts)
  then obtain len where tk: "tk = Read len" using assms(2) by (auto simp: reader_def)
  obtain b r where r: "read_exec rd w (th_buf x) len (th_phase x) = Inr (w', b, r)" "x' = next_phase (x\<lparr> th_buf := b \<rparr>) r"
    using assms(1) Cons tk by (auto simp: io_exec_def bind_run_eq_Inr)
  have "block_of (returned r) = None" using read_exec_block [OF r(1)] assms(3) by simp
  moreover have "set (th_todo x') \<subseteq> set (th_todo x)" using r(2) Cons by (auto simp: next_phase_def split: option.splits)
  ultimately show ?thesis using r(2) assms(2) by (auto simp: reader_def)
qed (use assms in \<open>simp add: io_exec_def\<close>)

lemma single_sender_step: "iostep n s s' \<Longrightarrow> single_sender n s \<Longrightarrow> single_sender n s'"
proof (induction rule: iostep.induct)
  case (exec t th rd a w w' x)
  then obtain p where p: "\<And>t. t < n \<Longrightarrow> t \<noteq> p \<Longrightarrow> reader (th t) \<and> block_of (th_phase (th t)) = None"
    unfolding single_sender_def snd_conv by blast
  have "reader ((th(t := x)) u) \<and> block_of (th_phase ((th(t := x)) u)) = None" if "u < n" "u \<noteq> p" for u
    using p [OF that] io_exec_reader [OF exec(4)] by (cases "u = t") auto
  then show ?case unfolding single_sender_def snd_conv by blast
next
  case (halt t th rd a w h)
  then show ?case by (auto simp: single_sender_def reader_def)
qed

lemma single_sender_exclusive: "single_sender n s \<Longrightarrow> exclusive n s"
  unfolding single_sender_def exclusive_def by (metis option.distinct(1))

interpretation ss: kept_by_steps "iostep n" "single_sender n" for n
  by unfold_locales (rule single_sender_step)

lemma single_sender_run:
  assumes "single_sender n s0" and "ioreachable n s0 s"
  shows "(xstep n)\<^sup>*\<^sup>* s0 s"
proof -
  have "(\<lambda>x y. iostep n x y \<and> single_sender n y)\<^sup>*\<^sup>* s0 s"
    using ss.run_guarded assms unfolding ioreachable_def by blast
  then show ?thesis
    by (rule rtranclp_mono [THEN predicate2D, rotated]) (auto simp: xstep_def single_sender_exclusive)
qed

section \<open>Two threads on one queue\<close>

lemma available_same:
  assumes "tun_view w' = tun_view w" and "available w = Inr i"
  shows "available w' = Inr i"
proof -
  have "busy_status w' = busy_status w" using assms(1) by (metis tun_view_simps(3))
  with assms(2) show ?thesis by (auto simp: available_def split: option.splits)
qed

lemma fill_frame_view: "fill_frame w fi c len d p = Inr w' \<Longrightarrow> tun_view w' = tun_view w"
  by (auto simp: fill_frame_def Let_def split: option.splits if_splits)

text \<open>The sequence \<open>interleaved_sends\<close> is a run of two threads.\<close>

lemma interleaved_sends_run:
  assumes "interleaved_sends w len (c, d, p) (c', d', p') = Inr w'" and tu: "t < n" "u < n" "t \<noteq> u" and free: "tun_ok w" "some_free w"
    and x: "th_todo (th t) = Send c len (Some d) p # ts" "th_phase (th t) = Start"
    and y: "th_todo (th u) = Send c' len (Some d') p' # us" "th_phase (th u) = Start"
  shows "ioreachable n (w, th) (w', th(t := (th t)\<lparr> th_todo := ts \<rparr>, u := (th u)\<lparr> th_todo := us \<rparr>))"
proof -
  let ?fi = "first_free w" and ?sz = "len + of_nat eth_size :: u32"
  have av: "available w = Inr (int ?fi)" "int ?fi \<noteq> - 1" using available_free [OF free] by simp_all
  then obtain w1 w2 w3 w4 w5 where w:
    "ensure_has_size w (nat (int ?fi)) ?sz = Inr w1" "fill_frame w1 (nat (int ?fi)) c len d p = Inr w2"
    "ensure_has_size w2 (nat (int ?fi)) ?sz = Inr w3" "fill_frame w3 (nat (int ?fi)) c' len d' p' = Inr w4"
    "write_frame w4 (nat (int ?fi)) ?sz = Inr w5" "write_frame w5 (nat (int ?fi)) ?sz = Inr w'"
    using assms(1) by (auto simp: interleaved_sends_def Let_def bind_run_eq_Inr)
  have av2: "available w2 = Inr (int ?fi)"
    using w(1,2) by (intro available_same [OF _ av(1)]) (simp add: ensure_has_size_view fill_frame_view)
  let ?a = "buf_addr w (nat (int ?fi))"
  let ?F = "Fill (nat (int ?fi)) ?a 6"
  let ?x = "(th t)\<lparr> th_todo := ts, th_phase := Start \<rparr>"
  note p1 = prepare_run [where th = th and t = t, OF tu(1) x av w(1,2)]
  note p2 = prepare_run [where th = "at_phase th t ?F" and t = u, OF tu(2) _ _ av2 av(2) w(3,4)]
  have a: "buf_addr w4 = buf_addr w" "buf_addr w5 = buf_addr w4"
    using p1(2) p2(2) x y tu(3) w(5) by (simp_all add: write_frame_addr)
  have swap: "at_phase (at_phase th t ?F) u ?F = at_phase (at_phase th u ?F) t ?F"
    "(at_phase th u ?F)(t := ?x) = at_phase (th(t := ?x)) u ?F"
    using tu(3) by (simp_all add: fun_upd_twist)
  have "(iostep n)\<^sup>*\<^sup>* (w2, at_phase th t ?F) (w4, at_phase (at_phase th u ?F) t ?F)"
    unfolding swap(1) [symmetric] using p2(1) p1(2) y tu(3) by simp
  moreover have "(iostep n)\<^sup>*\<^sup>* (w4, at_phase (at_phase th u ?F) t ?F) (w5, at_phase (th(t := ?x)) u ?F)"
    unfolding swap(2) [symmetric]
    using write_run [where th = "at_phase th u ?F" and t = t and a = ?a, OF tu(1) _ w(5)] x(1) tu(3) a by simp
  moreover have "(iostep n)\<^sup>*\<^sup>* (w5, at_phase (th(t := ?x)) u ?F) (w', th(t := ?x, u := (th u)\<lparr> th_todo := us, th_phase := Start \<rparr>))"
    using write_run [where th = "th(t := ?x)" and t = u and a = ?a, OF tu(2) _ w(6)] y(1) tu(3) a by simp
  moreover have "?x = (th t)\<lparr> th_todo := ts \<rparr>" "(th u)\<lparr> th_todo := us, th_phase := Start \<rparr> = (th u)\<lparr> th_todo := us \<rparr>"
    using x(2) y(2) by simp_all
  ultimately show ?thesis
    using p1(1) unfolding ioreachable_def by (metis (no_types, lifting) rtranclp_trans)
qed

text \<open>The first thread reads the pointer, the second grows the block and moves it.\<close>

lemma freed_block_run:
  assumes ok: "net_ok w" "some_free w" and tu: "t < n" "u < n" "t \<noteq> u"
    and x: "th_todo (th t) = Send c len (Some d) p # ts" "th_phase (th t) = Start"
    and y: "th_todo (th u) = Send c' len' (Some d') p' # us" "th_phase (th u) = Start"
    and size: "eth_size + unat len' < 2 ^ 31" "unat len < unat len'"
      "unat (ni_buffers_size w ! first_free w) < eth_size + unat len'"
  shows "\<exists>w' th'. ioreachable n (w, th) (w', th') \<and> th_phase (th' t) = Freed (Fill (first_free w) (buf_addr w (first_free w)) 0)"
proof -
  let ?fi = "first_free w" and ?sz = "len + of_nat eth_size :: u32" and ?sz' = "len' + of_nat eth_size :: u32"
  let ?a = "buf_addr w ?fi"
  have small: "eth_size + unat len < 2 ^ 31" using size by simp
  have "tun_ok w" using ok(1) by (simp add: net_ok_def)
  note av = available_free [OF this ok(2)]
  obtain w1 where w1: "ensure_has_size w ?fi ?sz = Inr w1" "net_ok w1"
    "unat (ni_buffers_size w1 ! ?fi) = max (unat (ni_buffers_size w ! ?fi)) (eth_size + unat len)"
    by (rule ensure_good [OF ok(1) av(2) small])
  obtain w2 where w2: "ensure_has_size w1 ?fi ?sz' = Inr w2" by (rule ensure_good [OF w1(2) av(2) size(1)])
  have grow: "must_grow w1 ?fi ?sz'"
    using size w1(3) total_size(1) [OF size(1)] by (simp add: must_grow_def word_less_nat_alt)
  have av1: "available w1 = Inr (int ?fi)" by (rule available_same [OF ensure_has_size_view [OF w1(1)] av(1)])
  have addr: "buf_addr w1 = buf_addr w" "w1\<lparr> buf_addr := buf_addr w \<rparr> = w1"
    using ensure_has_size_addr [OF w1(1)] by simp_all
  let ?F = "Fill ?fi ?a 0" and ?w2 = "w2\<lparr> buf_addr := (buf_addr w)(?fi := ?a + 1) \<rparr>"
  let ?th1 = "at_phase th t ?F" and ?th2 = "at_phase th u (Sized ?fi)"
  have th1: "th_todo (?th1 u) = Send c' len' (Some d') p' # us" "th_todo (?th2 t) = Send c len (Some d) p # ts"
    using x(1) y(1) tu(3) by simp_all
  have start: "at_phase th t Start = th" "at_phase ?th1 u Start = ?th1"
    using x(2) y(2) tu(3) by (intro at_phase_same; simp)+
  have swap: "at_phase ?th1 u (Sized ?fi) = at_phase ?th2 t ?F"
    using tu(3) by (simp add: fun_upd_twist)
  have 1: "iostep n (w, at_phase th t Start) (w, at_phase th t (Picked ?fi))"
    "iostep n (w, at_phase th t (Picked ?fi)) (w1, at_phase th t (Sized ?fi))"
    "iostep n (w1, at_phase th t (Sized ?fi)) (w1, ?th1)"
    using av w1(1) addr by (intro send_step [where th = th and t = t and a = ?a, OF tu(1) x(1)]; simp add: Let_def)+
  have 2: "iostep n (w1, at_phase ?th1 u Start) (w1, at_phase ?th1 u (Picked ?fi))"
    "iostep n (w1, at_phase ?th1 u (Picked ?fi)) (?w2, at_phase ?th1 u (Sized ?fi))"
    using av1 w2 grow addr
    by (intro send_step [where th = ?th1 and t = u and a = "?a + 1", OF tu(2) th1(1)]; simp add: Let_def)+
  have 3: "iostep n (?w2, at_phase ?th2 t ?F) (?w2, at_phase ?th2 t (Freed ?F))"
    by (rule send_step [where th = ?th2 and t = t, OF tu(1) th1(2)]) simp_all
  have "ioreachable n (w, th) (?w2, at_phase ?th2 t (Freed ?F))"
    unfolding ioreachable_def
    using 1 [unfolded start] 2 [unfolded start swap] 3 by (meson converse_rtranclp_into_rtranclp r_into_rtranclp)
  moreover have "th_phase (at_phase ?th2 t (Freed ?F) t) = Freed ?F" by simp
  ultimately show ?thesis by blast
qed

section \<open>Properties\<close>

text \<open>
  C11. The threads inside \<^verbatim>\<open>net_interface_send\<close> and \<^verbatim>\<open>net_interface_read\<close> follow the queue protocol: from a state
  with no queue marked, every interleaving of their statements is a run of the protocol on the busy
  flags.  Hence with at most as many threads as queues (the program has ten of each) the search for a
  free queue never runs past the array: a thread that calls \<^verbatim>\<open>available\<close> gets the number of an unmarked
  queue.
\<close>

theorem threads_follow_queue_protocol:
  assumes "ioinit s0" and "ioreachable n s0 s"
  shows "qreachable n (qabs s) \<and>
    (n \<le> TUN_QUEUES \<longrightarrow> (\<forall>t < n. th_phase (snd s t) = Start \<longrightarrow>
       (\<exists>i < TUN_QUEUES. available (fst s) = Inr (int i) \<and> \<not> busy_status (fst s) ! i)))"
proof (intro conjI impI allI)
  show reach: "qreachable n (qabs s)" by (rule ioreachable_qreachable [OF assms])
  fix t assume t: "n \<le> TUN_QUEUES" "t < n" "th_phase (snd s t) = Start"
  obtain w th where s: "s = (w, th)" by (cases s)
  have "tun_ok (tun_view w)" using qreachable_inv [OF reach] by (simp add: qinv_def qabs_def s)
  moreover have "some_free w" using start_finds_queue [of s0 n w th t] assms t by (simp add: s)
  ultimately show "\<exists>i < TUN_QUEUES. available (fst s) = Inr (int i) \<and> \<not> busy_status (fst s) ! i"
    using available_free [of w] unfolding s by auto
qed

text \<open>Two threads: the first sends and then reads, the second sends.\<close>

definition sample_io :: io_state where
  "sample_io = \<lparr> tun_fds = [3..12], busy_status = replicate 10 False, sys_write = (\<lambda>fd bs. int (length bs)), trace = [],
     ni_ip = u32_of 10 0 0 4, ni_mac = MAC 2 0 0 0 0 4, ni_buffers = replicate 10 None,
     ni_buffers_size = replicate 10 0, heap_fill = (\<lambda>i. 0), buf_addr = (\<lambda>i. 0) \<rparr>"

definition sample_threads :: "bytes \<Rightarrow> nat \<Rightarrow> io_thread" where
  "sample_threads c t =
     \<lparr> th_todo = (if t = 0 then [Send [1] 1 (Some BROADCAST) ETH_P_ARP, Read 100]
                  else if t = 1 then [Send c (of_nat (length c)) (Some BROADCAST) ETH_P_ARP] else []),
       th_phase = Start, th_buf = replicate 100 0 \<rparr>"

lemma sample_io_ok: "net_ok sample_io" "some_free sample_io" "ioinit (sample_io, sample_threads c)"
proof -
  show "some_free sample_io" unfolding some_free_def by (rule exI [of _ 0]) (simp add: sample_io_def)
qed (simp_all add: sample_io_def sample_threads_def ioinit_def net_ok_def tun_ok_def buffer_ok_def
    list_all2_conv_all_nth upto.simps)

lemma sample_io_first: "first_free sample_io = 0"
  unfolding first_free_def by (rule Least_equality) (simp_all add: sample_io_def)

lemma sint_100: "sint (100 :: u32) = 100"
  by code_simp

lemma sample_tasks_ok:
  "length c < 100 \<Longrightarrow> \<forall>t < 2. tasks_ok (snd (sample_io, sample_threads c) t)"
  by (simp add: tasks_ok_def sample_threads_def sint_100 unat_of_nat)

theorem threads_follow_queue_protocol_witness:
  "qreachable 2 (qabs (sample_io, sample_threads [2])) \<and>
   (\<exists>i < TUN_QUEUES. available sample_io = Inr (int i) \<and> \<not> busy_status sample_io ! i)"
proof -
  have "ioreachable 2 (sample_io, sample_threads [2]) (sample_io, sample_threads [2])" by (simp add: ioreachable_def)
  from threads_follow_queue_protocol [OF sample_io_ok(3) this] show ?thesis
    by (simp add: sample_threads_def) (metis zero_less_numeral)
qed



text \<open>
  C9. No frame is lost or mixed up as long as no two threads work on the same transmit buffer at the same
  time, in particular in all runs in which one thread sends and the others read.  For calls whose
  contents have the lengths given, in every state of such a run no thread has stopped (no access outside
  a block or to a freed one, no failed assertion), the interface is intact, and the frames written since
  the start are a merge of sequences \<open>fs t\<close>, where \<open>fs t\<close> are the frames of the calls of thread \<open>t\<close> so
  far, complete and in order, and \<open>pending\<close> are those still to come.
\<close>

theorem exclusive_runs_lose_nothing:
  assumes "ioinit s0" and "\<forall>t < n. tasks_ok (snd s0 t)" and "n \<le> TUN_QUEUES"
    and "(xstep n)\<^sup>*\<^sup>* s0 s \<or> single_sender n s0 \<and> ioreachable n s0 s"
  shows "(\<forall>t < n. \<not> stopped (th_phase (snd s t))) \<and> net_ok (fst s) \<and>
    (\<exists>fs xs. frames_of (trace (fst s)) = frames_of (trace (fst s0)) @ xs \<and> interleaves n fs xs \<and>
       (\<forall>t < n. fs t @ pending (ni_mac (fst s0)) (snd s t) = pending (ni_mac (fst s0)) (snd s0 t)))"
proof -
  have "(xstep n)\<^sup>*\<^sup>* s0 s" using assms(4) single_sender_run by blast
  from exclusive_run [OF assms(1-3) this] show ?thesis
    unfolding ioinv_def wire_ok_def using thread_inv_not_stopped by blast
qed

lemma sample_xstep: "xstep 2 (sample_io, sample_threads [2]) (sample_io, at_phase (sample_threads [2]) 0 (Picked 0))"
proof -
  have "iostep 2 (sample_io, at_phase (sample_threads [2]) 0 Start) (sample_io, at_phase (sample_threads [2]) 0 (Picked 0))"
    using available_free [OF _ sample_io_ok(2)] sample_io_ok(1) sample_io_first
    by (intro send_step) (auto simp: sample_threads_def net_ok_def)
  moreover have "at_phase (sample_threads [2]) 0 Start = sample_threads [2]"
    by (rule at_phase_same) (simp add: sample_threads_def)
  ultimately show ?thesis by (simp add: xstep_def exclusive_def sample_threads_def)
qed

theorem exclusive_runs_lose_nothing_witness:
  "net_ok sample_io \<and> \<not> stopped (th_phase (at_phase (sample_threads [2]) 0 (Picked 0) 0)) \<and>
   (xstep 2)\<^sup>*\<^sup>* (sample_io, sample_threads [2]) (sample_io, at_phase (sample_threads [2]) 0 (Picked 0))"
proof -
  have run: "(xstep 2)\<^sup>*\<^sup>* (sample_io, sample_threads [2]) (sample_io, at_phase (sample_threads [2]) 0 (Picked 0))"
    using sample_xstep by (rule r_into_rtranclp)
  show ?thesis
    using exclusive_runs_lose_nothing [OF sample_io_ok(3) sample_tasks_ok _ disjI1 [OF run]] run by simp
qed

text \<open>
  C10. The threads come to an end.  Every run of the statements of \<open>n\<close> threads, exclusive or not, has at
  most twelve steps for each call; and from every state of an exclusive run the threads can finish all
  their calls without disturbing one another, after which exactly the frames of all calls are on the
  wire, those of each thread in order.
\<close>

theorem io_threads_finish:
  assumes "ioinit s0" and "\<forall>t < n. tasks_ok (snd s0 t)" and "n \<le> TUN_QUEUES"
  shows "(\<forall>k s. (iostep n ^^ k) s0 s \<longrightarrow> k \<le> 12 * (\<Sum>t < n. length (th_todo (snd s0 t)))) \<and>
    (\<forall>s. (xstep n)\<^sup>*\<^sup>* s0 s \<longrightarrow> (\<exists>s' xs. (xstep n)\<^sup>*\<^sup>* s s' \<and> (\<forall>t < n. th_todo (snd s' t) = []) \<and>
       frames_of (trace (fst s')) = frames_of (trace (fst s0)) @ xs \<and>
       interleaves n (\<lambda>t. pending (ni_mac (fst s0)) (snd s0 t)) xs))"
proof (intro conjI allI impI)
  fix k s assume "(iostep n ^^ k) s0 s"
  then have "total_work n s + k \<le> total_work n s0" by (rule iob.run_bound)
  moreover have "total_work n s0 = 12 * (\<Sum>t < n. length (th_todo (snd s0 t)))"
    using assms(1) by (simp add: total_work_def work_def ioinit_def sum_distrib_left)
  ultimately show "k \<le> 12 * (\<Sum>t < n. length (th_todo (snd s0 t)))" by simp
next
  fix s assume s: "(xstep n)\<^sup>*\<^sup>* s0 s"
  obtain s' where s': "(xstep n)\<^sup>*\<^sup>* s s'" "\<forall>t < n. th_todo (snd s' t) = []"
    using exclusive_completion [OF assms s] by blast
  have "ioinv n s0 s'" using exclusive_run [OF assms rtranclp_trans [OF s s'(1)]] by blast
  moreover from this s'(2) have "pending own (snd s' t) = []" if "t < n" for own t
    using that by (simp add: ioinv_def thread_inv_def pending_def)
  ultimately obtain fs xs where "frames_of (trace (fst s')) = frames_of (trace (fst s0)) @ xs" "interleaves n fs xs"
    "\<forall>t < n. fs t = pending (ni_mac (fst s0)) (snd s0 t)"
    unfolding ioinv_def wire_ok_def by fastforce
  moreover from this have "interleaves n (\<lambda>t. pending (ni_mac (fst s0)) (snd s0 t)) xs"
    by (simp add: interleaves_def)
  ultimately show "\<exists>s' xs. (xstep n)\<^sup>*\<^sup>* s s' \<and> (\<forall>t < n. th_todo (snd s' t) = []) \<and>
       frames_of (trace (fst s')) = frames_of (trace (fst s0)) @ xs \<and>
       interleaves n (\<lambda>t. pending (ni_mac (fst s0)) (snd s0 t)) xs"
    using s' by blast
qed

theorem io_threads_finish_witness:
  "\<exists>s' xs. (xstep 2)\<^sup>*\<^sup>* (sample_io, sample_threads [2]) s' \<and>
    th_todo (snd s' 0) = [] \<and> th_todo (snd s' 1) = [] \<and> frames_of (trace (fst s')) = xs \<and>
    interleaves 2 (\<lambda>t. pending (MAC 2 0 0 0 0 4) (sample_threads [2] t)) xs"
proof -
  have "ni_mac (fst (sample_io, sample_threads [2])) = MAC 2 0 0 0 0 4"
    "frames_of (trace (fst (sample_io, sample_threads [2]))) = []" by (simp_all add: sample_io_def)
  with io_threads_finish [OF sample_io_ok(3) sample_tasks_ok, of "[2]"] show ?thesis
    by (simp del: split_paired_Ex) (metis One_nat_def one_less_numeral_iff zero_less_numeral rtranclp.rtrancl_refl semiring_norm(76))
qed

text \<open>
  C31. Without that restriction frames are lost: two threads that send contents of the same length, with a
  queue free, can both finish their calls so that the frame of the first is never written and the frame
  of the second is written twice.
\<close>

theorem shared_queue_loses_frame:
  assumes "net_ok w" and "some_free w" and "t < n" "u < n" "t \<noteq> u"
    and "th_todo (th t) = Send c len (Some d) p # ts" "th_phase (th t) = Start"
    and "th_todo (th u) = Send c' len (Some d') p' # us" "th_phase (th u) = Start"
    and "unat len = length c" "length c' = length c" "eth_size + length c < 2 ^ 31"
  shows "\<exists>w'. ioreachable n (w, th) (w', th(t := (th t)\<lparr> th_todo := ts \<rparr>, u := (th u)\<lparr> th_todo := us \<rparr>)) \<and>
    frames_of (trace w') = frames_of (trace w) @
      [eth_frame d' (ni_mac w) p' c', eth_frame d' (ni_mac w) p' c']"
proof -
  have "tun_ok w" using assms(1) by (simp add: net_ok_def)
  obtain w' where "interleaved_sends w len (c, d, p) (c', d', p') = Inr w'"
    "frames_of (trace w') = frames_of (trace w) @ [eth_frame d' (ni_mac w) p' c', eth_frame d' (ni_mac w) p' c']"
    using interleaved_sends_lose_frame [OF assms(1,2,10-12)] by blast
  with interleaved_sends_run [OF _ assms(3-5) \<open>tun_ok w\<close> assms(2), of len c d p c' d' p' w' th ts us] assms(6-9)
  show ?thesis by blast
qed

lemma sample_thread_simps:
  "th_todo (sample_threads c 0) = Send [1] 1 (Some BROADCAST) ETH_P_ARP # [Read 100]"
  "th_todo (sample_threads c (Suc 0)) = Send c (of_nat (length c)) (Some BROADCAST) ETH_P_ARP # []"
  "th_phase (sample_threads c t) = Start"
  by (simp_all add: sample_threads_def)

theorem shared_queue_loses_frame_witness:
  "\<exists>w'. ioreachable 2 (sample_io, sample_threads [2]) (w', (sample_threads [2])
      (0 := (sample_threads [2] 0)\<lparr> th_todo := [Read 100] \<rparr>, Suc 0 := (sample_threads [2] (Suc 0))\<lparr> th_todo := [] \<rparr>)) \<and>
    frames_of (trace w') = [eth_frame BROADCAST (MAC 2 0 0 0 0 4) ETH_P_ARP [2], eth_frame BROADCAST (MAC 2 0 0 0 0 4) ETH_P_ARP [2]]"
  using shared_queue_loses_frame [where n = 2 and w = sample_io and th = "sample_threads [2]" and t = 0 and u = "Suc 0"
      and c = "[1]" and len = 1 and c' = "[2]" and d = BROADCAST and d' = BROADCAST and p = ETH_P_ARP and p' = ETH_P_ARP
      and ts = "[Read 100]" and us = "[]"] sample_io_ok(1,2)
  by (simp add: sample_thread_simps sample_io_def)

text \<open>
  C32. A transmit buffer can be used after it was freed: when two threads choose the same queue and the
  second sends a frame that does not fit into its buffer, \<^verbatim>\<open>realloc\<close> may move the block after the first
  thread has read the pointer, and the first thread writes its header through the old pointer.
\<close>

theorem transmit_buffer_used_after_free:
  assumes "net_ok w" "some_free w" and "t < n" "u < n" "t \<noteq> u"
    and "th_todo (th t) = Send c len (Some d) p # ts" "th_phase (th t) = Start"
    and "th_todo (th u) = Send c' len' (Some d') p' # us" "th_phase (th u) = Start"
    and "eth_size + unat len' < 2 ^ 31" "unat len < unat len'"
    and "unat (ni_buffers_size w ! first_free w) < eth_size + unat len'"
  shows "\<exists>w' th'. ioreachable n (w, th) (w', th') \<and>
    th_phase (th' t) = Freed (Fill (first_free w) (buf_addr w (first_free w)) 0)"
  using assms by (rule freed_block_run)

theorem transmit_buffer_used_after_free_witness:
  "\<exists>w' th'. ioreachable 2 (sample_io, sample_threads [2, 3]) (w', th') \<and> th_phase (th' 0) = Freed (Fill 0 0 0)"
  using transmit_buffer_used_after_free [where n = 2 and w = sample_io and th = "sample_threads [2, 3]" and t = 0
      and u = "Suc 0" and c = "[1]" and len = 1 and c' = "[2, 3]" and len' = 2 and d = BROADCAST and d' = BROADCAST
      and p = ETH_P_ARP and p' = ETH_P_ARP and ts = "[Read 100]" and us = "[]"] sample_io_ok(1,2)
  by (simp add: sample_thread_simps sample_io_first) (simp add: sample_io_def)

end
