(* ===== verification/Arp_Threads.thy ===== *)
theory Arp_Threads
  imports Arp_Props Step_Systems
begin

text \<open>
  The threads of \<^verbatim>\<open>main.c\<close> sharing the cache of \<^verbatim>\<open>protocols/arp.c\<close>.  \<^verbatim>\<open>is_in_arp_cache\<close> and the calls of
  \<^verbatim>\<open>hashmap_put\<close> hold \<^verbatim>\<open>cache_mutex\<close>; the calls of \<^verbatim>\<open>hashmap_get\<close> and the copies of hardware addresses do
  not.  A copy is one step per byte, a put is two steps, between which the mutex is held, and reading
  the map while another thread changes it is a data race.
\<close>

section \<open>The step relation\<close>

text \<open>
  What one call of the program does to the cache: \<^verbatim>\<open>arp_receive\<close> learns an address (the flag says
  whether the packet is for the stack), \<^verbatim>\<open>arp_resolve_ipv4\<close> looks one up.
\<close>

datatype cache_task =
    Learn u16 u32 mac bool
  | Resolve u32

fun task_pro :: "cache_task \<Rightarrow> u16" where
  "task_pro (Learn pro ip x us) = pro"
| "task_pro (Resolve ip) = ARP_IPV4"

fun task_ip :: "cache_task \<Rightarrow> u32" where
  "task_ip (Learn pro ip x us) = ip"
| "task_ip (Resolve ip) = ip"

definition task_key :: "cache_task \<Rightarrow> u64" where
  "task_key tk = to_key (task_pro tk) (task_ip tk)"

datatype cphase =
    CStart
  | CFound
  | CMissing
  | CGot nat nat
  | CReady nat
  | CPutting arp_key nat
  | CResolved nat
  | CDone
  | CRaced
  | CFailed

text \<open>After \<^verbatim>\<open>is_in_arp_cache\<close>, and after \<^verbatim>\<open>hashmap_get\<close> with its assertion in \<^verbatim>\<open>set_in_arp_cache\<close>.\<close>

fun after_look :: "cache_task \<Rightarrow> bool \<Rightarrow> cphase" where
  "after_look (Learn pro ip x us) known = (if known then CFound else if us then CMissing else CDone)"
| "after_look (Resolve ip) known = (if known then CFound else CDone)"

fun after_get :: "cache_task \<Rightarrow> nat \<Rightarrow> cphase" where
  "after_get (Learn pro ip x us) a = (if a = 0 then CFailed else CGot a 0)"
| "after_get (Resolve ip) a = CResolved a"

definition copy_byte :: "mac \<Rightarrow> nat \<Rightarrow> mac \<Rightarrow> mac" where
  "copy_byte c i x = mac_of ((mac_bytes c)[i := mac_bytes x ! i])"

type_synonym cstate = "arp_state \<times> nat option \<times> (nat \<Rightarrow> cphase)"

inductive cstep :: "(nat \<Rightarrow> cache_task) \<Rightarrow> nat \<Rightarrow> cstate \<Rightarrow> cstate \<Rightarrow> bool" for task n where
  look: "t < n \<Longrightarrow> pc t = CStart \<Longrightarrow> is_in_arp_cache w (task_pro (task t)) (task_ip (task t)) = Inr b \<Longrightarrow>
    cstep task n (w, None, pc) (w, None, pc(t := after_look (task t) b))"
| get: "t < n \<Longrightarrow> pc t = CFound \<Longrightarrow> hashmap_get (the (arp_cache w)) (StackKey (task_key (task t))) = Some a \<Longrightarrow>
    cstep task n (w, None, pc) (w, None, pc(t := after_get (task t) a))"
| race: "t < n \<Longrightarrow> pc t = CFound \<Longrightarrow> cstep task n (w, Some u, pc) (w, Some u, pc(t := CRaced))"
| copy: "t < n \<Longrightarrow> pc t = CGot a i \<Longrightarrow> i < 6 \<Longrightarrow> task t = Learn pro ip x us \<Longrightarrow> 0 < a \<Longrightarrow> a \<le> length (arp_cells w) \<Longrightarrow>
    cstep task n (w, mx, pc)
      (w\<lparr> arp_cells := (arp_cells w)[a - 1 := copy_byte (arp_cells w ! (a - 1)) i x] \<rparr>, mx, pc(t := CGot a (i + 1)))"
| alloc: "t < n \<Longrightarrow> pc t = CMissing \<Longrightarrow> task t = Learn pro ip x us \<Longrightarrow>
    cstep task n (w, mx, pc)
      (w\<lparr> arp_cells := arp_cells w @ [x] \<rparr>, mx, pc(t := CReady (length (arp_cells w) + 1)))"
| lock_set: "t < n \<Longrightarrow> pc t = CGot a 6 \<Longrightarrow>
    cstep task n (w, None, pc) (w, Some t, pc(t := CPutting (StackKey (task_key (task t))) a))"
| lock_add: "t < n \<Longrightarrow> pc t = CReady a \<Longrightarrow>
    cstep task n (w, None, pc) (w, Some t, pc(t := CPutting (HeapKey (task_key (task t))) a))"
| put: "t < n \<Longrightarrow> pc t = CPutting k a \<Longrightarrow> hashmap_put (the (arp_cache w)) k a = Some m \<Longrightarrow>
    cstep task n (w, Some t, pc) (w\<lparr> arp_cache := Some m \<rparr>, None, pc(t := CDone))"

inductive_cases cstepE: "cstep task n s s'"

definition creachable :: "(nat \<Rightarrow> cache_task) \<Rightarrow> nat \<Rightarrow> arp_state \<Rightarrow> cstate \<Rightarrow> bool" where
  "creachable task n w s \<longleftrightarrow> (cstep task n)\<^sup>*\<^sup>* (w, None, \<lambda>t. CStart) s"

section \<open>The invariant\<close>

text \<open>
  Each cell in use belongs to one key (\<open>own\<close>), whichever thread writes it, and holds only bytes that
  \<open>B\<close> allows for that key.
\<close>

definition valid_cell :: "(nat \<Rightarrow> u64 option) \<Rightarrow> arp_state \<Rightarrow> u64 \<Rightarrow> nat \<Rightarrow> bool" where
  "valid_cell own w k a \<longleftrightarrow> 0 < a \<and> a \<le> length (arp_cells w) \<and> own a = Some k"

definition known_key :: "arp_state \<Rightarrow> u64 \<Rightarrow> bool" where
  "known_key w k \<longleftrightarrow> hm_lookup (the (arp_cache w)) (StackKey k) \<noteq> None"

definition is_learn :: "cache_task \<Rightarrow> bool" where
  "is_learn tk \<longleftrightarrow> (\<exists>pro ip x us. tk = Learn pro ip x us)"

fun phase_ok :: "(nat \<Rightarrow> u64 option) \<Rightarrow> arp_state \<Rightarrow> nat option \<Rightarrow> nat \<Rightarrow> cache_task \<Rightarrow> cphase \<Rightarrow> bool" where
  "phase_ok own w mx t tk CStart \<longleftrightarrow> True"
| "phase_ok own w mx t tk CFound \<longleftrightarrow> known_key w (task_key tk)"
| "phase_ok own w mx t tk CMissing \<longleftrightarrow> is_learn tk"
| "phase_ok own w mx t tk (CGot a i) \<longleftrightarrow> is_learn tk \<and> i \<le> 6 \<and> known_key w (task_key tk) \<and> valid_cell own w (task_key tk) a"
| "phase_ok own w mx t tk (CReady a) \<longleftrightarrow> is_learn tk \<and> valid_cell own w (task_key tk) a"
| "phase_ok own w mx t tk (CPutting k a) \<longleftrightarrow> is_learn tk \<and> valid_cell own w (task_key tk) a \<and> mx = Some t \<and>
     (k = HeapKey (task_key tk) \<or> k = StackKey (task_key tk) \<and> known_key w (task_key tk))"
| "phase_ok own w mx t tk (CResolved a) \<longleftrightarrow> valid_cell own w (task_key tk) a"
| "phase_ok own w mx t tk CDone \<longleftrightarrow> (\<forall>pro ip x. tk = Learn pro ip x True \<longrightarrow> known_key w (task_key tk))"
| "phase_ok own w mx t tk CRaced \<longleftrightarrow> True"
| "phase_ok own w mx t tk CFailed \<longleftrightarrow> False"

definition map_ok :: "(nat \<Rightarrow> u64 option) \<Rightarrow> arp_state \<Rightarrow> bool" where
  "map_ok own w \<longleftrightarrow> (\<exists>m. arp_cache w = Some m \<and> hm_inv m \<and> hm_hash m = arp_hash \<and> hm_equals m = arp_equals \<and>
     stored_keys m \<subseteq> range HeapKey \<and> (\<forall>k a. hm_lookup m k = Some a \<longrightarrow> valid_cell own w (key_word k) a))"

definition bytes_ok :: "(u64 \<Rightarrow> nat \<Rightarrow> u8 set) \<Rightarrow> (nat \<Rightarrow> u64 option) \<Rightarrow> arp_state \<Rightarrow> bool" where
  "bytes_ok B own w \<longleftrightarrow> (\<forall>a k i. valid_cell own w k a \<longrightarrow> i < 6 \<longrightarrow> mac_bytes (arp_cells w ! (a - 1)) ! i \<in> B k i)"

definition cinv ::
  "(u64 \<Rightarrow> nat \<Rightarrow> u8 set) \<Rightarrow> (nat \<Rightarrow> cache_task) \<Rightarrow> nat \<Rightarrow> (nat \<Rightarrow> u64 option) \<Rightarrow> cstate \<Rightarrow> bool" where
  "cinv B task n own s = (case s of (w, mx, pc) \<Rightarrow>
     net_ok w \<and> map_ok own w \<and> bytes_ok B own w \<and>
     (\<forall>a. own a \<noteq> None \<longrightarrow> a \<le> length (arp_cells w)) \<and>
     (\<forall>t < n. phase_ok own w mx t (task t) (pc t)) \<and>
     (\<forall>t. mx = Some t \<longrightarrow> t < n \<and> (\<exists>k a. pc t = CPutting k a)))"

text \<open>The tasks announce only bytes that \<open>B\<close> allows.\<close>

definition allowed :: "(u64 \<Rightarrow> nat \<Rightarrow> u8 set) \<Rightarrow> (nat \<Rightarrow> cache_task) \<Rightarrow> nat \<Rightarrow> bool" where
  "allowed B task n \<longleftrightarrow> (\<forall>t < n. \<forall>pro ip x us. task t = Learn pro ip x us \<longrightarrow>
     (\<forall>i < 6. mac_bytes x ! i \<in> B (to_key pro ip) i))"

text \<open>What the other threads rely on: known keys and valid cells stay so.\<close>

lemma phase_ok_mono:
  assumes "phase_ok own w mx t tk ph"
    and "\<And>k. known_key w k \<Longrightarrow> known_key w' k" and "\<And>k a. valid_cell own w k a \<Longrightarrow> valid_cell own' w' k a"
    and "mx = Some t \<Longrightarrow> mx' = Some t"
  shows "phase_ok own' w' mx' t tk ph"
  using assms by (cases ph) auto

text \<open>A step of thread \<open>t\<close> keeps the invariant if it keeps the shared part, what the others rely on, and
  leaves \<open>t\<close> in a good phase.\<close>

lemma cinv_step_thread:
  assumes inv: "cinv B task n own (w, mx, pc)" and t: "t < n"
    and shared: "net_ok w'" "map_ok own' w'" "bytes_ok B own' w'"
      "\<And>a. own' a \<noteq> None \<Longrightarrow> a \<le> length (arp_cells w')"
    and known: "\<And>k. known_key w k \<Longrightarrow> known_key w' k"
    and valid: "\<And>k a. valid_cell own w k a \<Longrightarrow> valid_cell own' w' k a"
    and phase: "phase_ok own' w' mx' t (task t) ph"
    and mutex: "mx' = mx \<and> mx \<noteq> Some t \<or> mx = None \<and> mx' = Some t \<and> (\<exists>k a. ph = CPutting k a) \<or> mx = Some t \<and> mx' = None"
  shows "cinv B task n own' (w', mx', pc(t := ph))"
proof -
  have "phase_ok own' w' mx' u (task u) (pc u)" if "u < n" "u \<noteq> t" for u
  proof (rule phase_ok_mono [OF _ known valid])
    show "phase_ok own w mx u (task u) (pc u)" using inv that(1) by (simp add: cinv_def)
    show "mx = Some u \<Longrightarrow> mx' = Some u" using mutex that(2) by auto
  qed
  moreover have "u < n \<and> (\<exists>k a. (pc(t := ph)) u = CPutting k a)" if "mx' = Some u" for u
    using that mutex t inv by (auto simp: cinv_def)
  ultimately show ?thesis using shared phase by (auto simp: cinv_def)
qed

lemma cinvD:
  assumes "cinv B task n own (w, mx, pc)"
  shows "net_ok w" "map_ok own w" "bytes_ok B own w" "\<And>a. own a \<noteq> None \<Longrightarrow> a \<le> length (arp_cells w)"
    "\<And>t. t < n \<Longrightarrow> phase_ok own w mx t (task t) (pc t)" "\<And>t. mx = Some t \<Longrightarrow> t < n \<and> (\<exists>k a. pc t = CPutting k a)"
  using assms by (auto simp: cinv_def)

lemma map_ok_cache_ok: "map_ok own w \<Longrightarrow> cache_ok (the (arp_cache w)) (arp_cells w) \<and> arp_cache w \<noteq> None"
  by (auto simp: map_ok_def cache_ok_def valid_cell_def) (metis option.inject)

lemma cinv_arp_ok: "cinv B task n own (w, mx, pc) \<Longrightarrow> arp_ok w"
  using map_ok_cache_ok by (fastforce simp: cinv_def arp_ok_def)

lemma known_key_table: "arp_ok w \<Longrightarrow> known_key w (to_key pro ip) \<longleftrightarrow> arp_table w (pro, ip) \<noteq> None"
  by (auto simp: known_key_def arp_table_def arp_ok_def)

lemma mac_bytes_copy: "mac_bytes (copy_byte c i x) = (mac_bytes c)[i := mac_bytes x ! i]"
  by (simp add: copy_byte_def macaddr.enc_dec)

lemma valid_cell_get:
  assumes "map_ok own w" and "hashmap_get (the (arp_cache w)) (StackKey k) = Some a" and "known_key w k"
  shows "valid_cell own w k a"
  using assms by (fastforce simp: map_ok_def known_key_def hashmap_get_def hm.get_law)

lemma look_inv:
  assumes inv: "cinv B task n own (w, None, pc)" and t: "t < n"
    and b: "is_in_arp_cache w (task_pro (task t)) (task_ip (task t)) = Inr b"
  shows "cinv B task n own (w, None, pc(t := after_look (task t) b))"
proof (rule cinv_step_thread [OF inv t cinvD(1-4) [OF inv]])
  have "b \<longleftrightarrow> known_key w (task_key (task t))"
    using b is_in_arp_cache_table [OF cinv_arp_ok [OF inv]] known_key_table [OF cinv_arp_ok [OF inv]]
    by (simp add: task_key_def)
  then show "phase_ok own w None t (task t) (after_look (task t) b)"
    by (cases "task t") (auto simp: is_learn_def)
qed simp_all

lemma get_inv:
  assumes inv: "cinv B task n own (w, None, pc)" and t: "t < n" "pc t = CFound"
    and a: "hashmap_get (the (arp_cache w)) (StackKey (task_key (task t))) = Some a"
  shows "cinv B task n own (w, None, pc(t := after_get (task t) a))"
proof (rule cinv_step_thread [OF inv t(1) cinvD(1-4) [OF inv]])
  have k: "known_key w (task_key (task t))" using cinvD(5) [OF inv t(1)] t(2) by simp
  have "valid_cell own w (task_key (task t)) a" using valid_cell_get [OF cinvD(2) [OF inv] a k] .
  then show "phase_ok own w None t (task t) (after_get (task t) a)"
    using k by (cases "task t") (auto simp: is_learn_def valid_cell_def)
qed simp_all

lemma copy_inv:
  assumes inv: "cinv B task n own (w, mx, pc)" and t: "t < n" "pc t = CGot a i" and i: "i < 6"
    and tk: "task t = Learn pro ip x us" and B: "allowed B task n"
  shows "cinv B task n own (w\<lparr> arp_cells := (arp_cells w)[a - 1 := copy_byte (arp_cells w ! (a - 1)) i x] \<rparr>, mx,
    pc(t := CGot a (i + 1)))" (is "cinv B task n own (?w, _, _)")
proof -
  define w' where "w' = ?w"
  have cells: "arp_cells w' = (arp_cells w)[a - 1 := copy_byte (arp_cells w ! (a - 1)) i x]" "arp_cache w' = arp_cache w"
    "net_ok w' = net_ok w" by (simp_all add: w'_def net_ok_def tun_ok_def)
  have valid: "valid_cell own w' = valid_cell own w" by (simp add: valid_cell_def fun_eq_iff cells)
  have known: "known_key w' = known_key w" by (simp add: known_key_def fun_eq_iff cells)
  have ph: "known_key w (task_key (task t))" "valid_cell own w (task_key (task t)) a"
    using cinvD(5) [OF inv t(1)] t(2) by simp_all
  have x: "mac_bytes x ! j \<in> B (task_key (task t)) j" if "j < 6" for j
    using B t(1) tk that by (simp add: allowed_def task_key_def)
  have "bytes_ok B own w'"
    unfolding bytes_ok_def valid
  proof (intro allI impI)
    fix b k and j :: nat
    assume b: "valid_cell own w k b" and j: "j < 6"
    have old: "mac_bytes (arp_cells w ! (b - 1)) ! j \<in> B k j" using cinvD(3) [OF inv] b j by (simp add: bytes_ok_def)
    show "mac_bytes (arp_cells w' ! (b - 1)) ! j \<in> B k j"
    proof (cases "b = a")
      case True
      then have "k = task_key (task t)" using b ph(2) by (simp add: valid_cell_def)
      then show ?thesis using True b old x [OF i] j
        by (cases "j = i") (auto simp: mac_bytes_copy valid_cell_def cells)
    next
      case False
      then have "b - 1 \<noteq> a - 1" using b ph(2) by (auto simp: valid_cell_def)
      then show ?thesis using old by (simp add: cells)
    qed
  qed
  moreover have "net_ok w'" "map_ok own w'" using cinvD(1,2) [OF inv]
    by (simp_all add: map_ok_def valid cells)
  moreover have "mx \<noteq> Some t" using cinvD(6) [OF inv] t(2) by auto
  ultimately show ?thesis
    unfolding w'_def [symmetric] using cinv_step_thread [OF inv t(1), of w' own mx "CGot a (i + 1)"] cinvD(4) [OF inv] ph i tk
    by (simp add: valid known is_learn_def cells)
qed

lemma alloc_inv:
  assumes inv: "cinv B task n own (w, mx, pc)" and t: "t < n" "pc t = CMissing"
    and tk: "task t = Learn pro ip x us" and B: "allowed B task n"
  shows "cinv B task n (own(length (arp_cells w) + 1 \<mapsto> task_key (task t)))
    (w\<lparr> arp_cells := arp_cells w @ [x] \<rparr>, mx, pc(t := CReady (length (arp_cells w) + 1)))"
    (is "cinv B task n ?own (?w, _, pc(t := CReady ?a))")
proof -
  define w' own' where "w' = ?w" and "own' = ?own"
  have cells: "arp_cells w' = arp_cells w @ [x]" "arp_cache w' = arp_cache w" "net_ok w' = net_ok w"
    by (simp_all add: w'_def net_ok_def tun_ok_def)
  have new: "own ?a = None" using cinvD(4) [OF inv, of ?a] by fastforce
  have valid: "valid_cell own' w' k b \<longleftrightarrow> valid_cell own w k b \<or> b = ?a \<and> k = task_key (task t)" for k b
    using new cinvD(4) [OF inv, of b] by (auto simp: valid_cell_def cells own'_def)
  have x: "mac_bytes x ! j \<in> B (task_key (task t)) j" if "j < 6" for j
    using B t(1) tk that by (simp add: allowed_def task_key_def)
  have "bytes_ok B own' w'"
    unfolding bytes_ok_def valid using cinvD(3) [OF inv] x
    by (auto simp: bytes_ok_def valid_cell_def nth_append cells)
  moreover have "net_ok w'" "map_ok own' w'" using cinvD(1,2) [OF inv]
    by (auto simp: map_ok_def valid cells)
  moreover have "b \<le> length (arp_cells w')" if "own' b \<noteq> None" for b
    using that cinvD(4) [OF inv, of b] by (auto simp: cells own'_def split: if_splits)
  moreover have "mx \<noteq> Some t" using cinvD(6) [OF inv] t(2) by auto
  moreover have "known_key w' = known_key w" by (simp add: known_key_def fun_eq_iff cells)
  ultimately show ?thesis
    unfolding w'_def [symmetric] own'_def [symmetric]
    by (intro cinv_step_thread [OF inv t(1)]) (auto simp: valid tk is_learn_def)
qed

lemma put_inv:
  assumes inv: "cinv B task n own (w, Some t, pc)" and t: "t < n" "pc t = CPutting k a"
    and m: "hashmap_put (the (arp_cache w)) k a = Some m"
  shows "cinv B task n own (w\<lparr> arp_cache := Some m \<rparr>, None, pc(t := CDone))" (is "cinv B task n own (?w, _, _)")
proof -
  let ?m = "the (arp_cache w)" and ?k = "task_key (task t)"
  have ph: "valid_cell own w ?k a" "k = HeapKey ?k \<or> k = StackKey ?k \<and> known_key w ?k" "key_word k = ?k"
    using cinvD(5) [OF inv t(1)] t(2) by auto
  have ok: "hm_inv ?m" "hm_hash ?m = arp_hash" "hm_equals ?m = arp_equals" "stored_keys ?m \<subseteq> range HeapKey"
    "\<And>l b. hm_lookup ?m l = Some b \<Longrightarrow> valid_cell own w (key_word l) b"
    using cinvD(2) [OF inv] by (auto simp: map_ok_def)
  have u: "updates ?m k a m" using hashmap_put_updates [OF ok(1), of k a] m by simp
  have lookup: "hm_lookup m l = (if key_word l = ?k then Some a else hm_lookup ?m l)" for l
    using u ph(3) by (simp add: updates_def ok(3) arp_equals_def)
  have "stored_keys m \<subseteq> range HeapKey"
    using u ok(4) ph(2) by (auto simp: updates_def known_key_def split: if_splits)
  moreover have "valid_cell own ?w (key_word l) b" if "hm_lookup m l = Some b" for l b
    using that ok(5) [of l b] ph(1) by (auto simp: lookup valid_cell_def split: if_splits)
  ultimately have "map_ok own ?w" using u ok(2,3) by (simp add: map_ok_def updates_def)
  moreover have "known_key ?w l \<longleftrightarrow> known_key w l \<or> l = ?k" for l by (auto simp: known_key_def lookup)
  moreover have "valid_cell own ?w = valid_cell own w" by (simp add: valid_cell_def fun_eq_iff)
  moreover have "net_ok ?w" "bytes_ok B own ?w" using cinvD(1,3) [OF inv]
    by (simp_all add: net_ok_def tun_ok_def bytes_ok_def valid_cell_def)
  ultimately show ?thesis
    using cinv_step_thread [OF inv t(1), of ?w own None CDone] cinvD(4) [OF inv] by simp
qed

text \<open>Cells keep their owners.\<close>

lemma cinv_step:
  assumes "cstep task n s s'" and "cinv B task n own s" and "allowed B task n"
  shows "\<exists>own'. own \<subseteq>\<^sub>m own' \<and> cinv B task n own' s'"
  using assms
proof (induction rule: cstep.induct)
  case (race t pc w u)
  then have "Some u \<noteq> Some t" using cinvD(6) [OF race(3)] by auto
  then show ?case
    using cinv_step_thread [OF race(3,1) cinvD(1-4) [OF race(3)], of "Some u" CRaced] by (auto intro!: exI [of _ own])
next
  case (lock_set t pc a w)
  then show ?case
    using cinv_step_thread [OF lock_set(3,1) cinvD(1-4) [OF lock_set(3)], of "Some t" "CPutting (StackKey (task_key (task t))) a"]
      cinvD(5) [OF lock_set(3,1)] by (auto intro!: exI [of _ own])
next
  case (lock_add t pc a w)
  then show ?case
    using cinv_step_thread [OF lock_add(3,1) cinvD(1-4) [OF lock_add(3)], of "Some t" "CPutting (HeapKey (task_key (task t))) a"]
      cinvD(5) [OF lock_add(3,1)] by (auto intro!: exI [of _ own])
next
  case (alloc t pc pro ip x us w mx)
  have "own (length (arp_cells w) + 1) = None" using cinvD(4) [OF alloc(4), of "length (arp_cells w) + 1"] by fastforce
  then have "own \<subseteq>\<^sub>m own(length (arp_cells w) + 1 \<mapsto> task_key (task t))" by (auto simp: map_le_def)
  then show ?case using alloc_inv [OF alloc(4,1,2,3,5)] by blast
qed (blast intro: look_inv get_inv copy_inv put_inv map_le_refl)+

section \<open>Reachable states\<close>

text \<open>\<open>P pro ip i b\<close>: byte \<open>i\<close> of the hardware address of \<open>ip\<close> may be \<open>b\<close>.\<close>

definition for_keys :: "(u16 \<Rightarrow> u32 \<Rightarrow> nat \<Rightarrow> u8 \<Rightarrow> bool) \<Rightarrow> u64 \<Rightarrow> nat \<Rightarrow> u8 set" where
  "for_keys P k i = {b. \<forall>pro ip. k = to_key pro ip \<longrightarrow> P pro ip i b}"

lemma for_keys_to_key [simp]: "b \<in> for_keys P (to_key pro ip) i \<longleftrightarrow> P pro ip i b"
  by (auto simp: for_keys_def)

lemma cinv_start:
  assumes ok: "arp_ok w" and T: "\<And>pro ip x i. arp_table w (pro, ip) = Some x \<Longrightarrow> i < 6 \<Longrightarrow> P pro ip i (mac_bytes x ! i)"
  shows "\<exists>own. cinv (for_keys P) task n own (w, None, \<lambda>t. CStart)"
proof -
  obtain m where m: "arp_cache w = Some m" "cache_ok m (arp_cells w)" "net_ok w" using ok by (rule arp_okE)
  define pick where "pick a = (SOME k. hm_lookup m k = Some a)" for a
  define own where "own a = (if \<exists>k. hm_lookup m k = Some a then Some (key_word (pick a)) else None)" for a
  have pick: "hm_lookup m (pick a) = Some a" if "hm_lookup m k = Some a" for k a
    unfolding pick_def using that by (rule someI)
  have own: "own a = Some (key_word k)" if "hm_lookup m k = Some a" for k a
    using cache_okD(6) [OF m(2) pick [OF that] that] that unfolding own_def by auto
  have owned: "\<exists>k. hm_lookup m k = Some a \<and> key_word k = kw" if "own a = Some kw" for a kw
    using that pick unfolding own_def by (auto split: if_splits)
  have "valid_cell own w (key_word k) a" if "hm_lookup m k = Some a" for k a
    using cache_okD(5) [OF m(2) that] own [OF that] by (simp add: valid_cell_def)
  then have map: "map_ok own w" using m(1) cache_okD(1-4) [OF m(2)] by (simp add: map_ok_def)
  have "bytes_ok (for_keys P) own w"
    unfolding bytes_ok_def
  proof (intro allI impI)
    fix a k and i :: nat
    assume a: "valid_cell own w k a" and i: "i < 6"
    obtain l where l: "hm_lookup m l = Some a" "key_word l = k" using owned a by (auto simp: valid_cell_def)
    have "hm_lookup m (StackKey k) = Some a"
      using hm_lookup_cong [OF cache_okD(1) [OF m(2)], of "StackKey k" l] l cache_okD(2) [OF m(2)]
      by (simp add: arp_equals_def)
    then show "mac_bytes (arp_cells w ! (a - 1)) ! i \<in> for_keys P k i"
      using T i m(1) by (auto simp: for_keys_def arp_table_def cell_mac_def)
  qed
  moreover have "a \<le> length (arp_cells w)" if "own a \<noteq> None" for a
    using that owned cache_okD(5) [OF m(2)] by fastforce
  ultimately show ?thesis using map m(3) by (auto simp: cinv_def)
qed

lemma creachable_inv:
  assumes "creachable task n w s" and "arp_ok w"
    and "\<And>pro ip x i. arp_table w (pro, ip) = Some x \<Longrightarrow> i < 6 \<Longrightarrow> P pro ip i (mac_bytes x ! i)"
    and "\<And>t pro ip x us i. t < n \<Longrightarrow> task t = Learn pro ip x us \<Longrightarrow> i < 6 \<Longrightarrow> P pro ip i (mac_bytes x ! i)"
  shows "\<exists>own. cinv (for_keys P) task n own s"
proof -
  have B: "allowed (for_keys P) task n" using assms(4) by (auto simp: allowed_def)
  show ?thesis
    using assms(1) [unfolded creachable_def]
  proof (induction rule: rtranclp_induct)
    case base
    show ?case by (rule cinv_start [OF assms(2)]) (rule assms(3))
  next
    case (step s s')
    then show ?case using cinv_step B by blast
  qed
qed

lemma known_key_step:
  assumes "cstep task n s s'" and "cinv B task n own s" and "known_key (fst s) k"
  shows "known_key (fst s') k"
  using assms
proof (induction rule: cstep.induct)
  case (put t pc l a w m)
  have ok: "hm_inv (the (arp_cache w))" "hm_equals (the (arp_cache w)) = arp_equals"
    using cinvD(2) [OF put(4)] by (auto simp: map_ok_def)
  then have "updates (the (arp_cache w)) l a m" using hashmap_put_updates [OF ok(1), of l a] put(3) by simp
  then show ?case using put(5) by (auto simp: known_key_def updates_def)
qed (auto simp: known_key_def)

lemma creachable_known:
  assumes "creachable task n w s" and "arp_ok w" and "known_key w k"
  shows "known_key (fst s) k"
proof -
  have "(cstep task n)\<^sup>*\<^sup>* (w, None, \<lambda>t. CStart) s \<Longrightarrow> known_key (fst s) k"
  proof (induction rule: rtranclp_induct)
    case (step s s')
    then have "\<exists>own. cinv (for_keys (\<lambda>_ _ _ _. True)) task n own s"
      using creachable_inv [of task n w s "\<lambda>_ _ _ _. True"] assms(2) by (simp add: creachable_def)
    then show ?case using step known_key_step by blast
  qed (use assms(3) in simp)
  then show ?thesis using assms(1) by (simp add: creachable_def)
qed

lemma cinv_table_bytes:
  assumes inv: "cinv (for_keys P) task n own (w, mx, pc)" and x: "arp_table w (pro, ip) = Some x" and i: "i < 6"
  shows "P pro ip i (mac_bytes x ! i)"
proof -
  obtain m a where m: "arp_cache w = Some m" "hm_lookup m (StackKey (to_key pro ip)) = Some a" "x = cell_mac (arp_cells w) a"
    using x by (auto simp: arp_table_def split: option.splits)
  then have "valid_cell own w (to_key pro ip) a" using cinvD(2) [OF inv] by (fastforce simp: map_ok_def)
  then have "mac_bytes x ! i \<in> for_keys P (to_key pro ip) i"
    using cinvD(3) [OF inv] i m(3) unfolding bytes_ok_def cell_mac_def by blast
  then show ?thesis by simp
qed

lemma mac_eqI: "(\<And>i. i < 6 \<Longrightarrow> mac_bytes x ! i = mac_bytes y ! i) \<Longrightarrow> x = y"
  using nth_equalityI [of "mac_bytes x" "mac_bytes y"] macaddr.dec_enc [of x "[]"] macaddr.dec_enc [of y "[]"] by fastforce

end
