(* ===== verification/Arp_Threads_Props.thy ===== *)
theory Arp_Threads_Props
  imports Arp_Threads
begin

text \<open>
  Properties of the threads that share the ARP cache: what every interleaving keeps, that all of them
  end, and the two things the missing locks allow.
\<close>

section \<open>Progress\<close>

fun rank :: "cphase \<Rightarrow> nat" where
  "rank CStart = 11"
| "rank CFound = 10"
| "rank CMissing = 4"
| "rank (CGot a i) = 9 - i"
| "rank (CReady a) = 2"
| "rank (CPutting k a) = 1"
| "rank ph = 0"

definition finished :: "cphase \<Rightarrow> bool" where
  "finished ph \<longleftrightarrow> ph = CDone \<or> ph = CRaced \<or> (\<exists>a. ph = CResolved a)"

lemma rank_after_look: "rank (after_look tk b) < 11"
  by (cases tk) auto

lemma rank_after_get: "rank (after_get tk a) < 10"
  by (cases tk) auto

definition total_rank :: "nat \<Rightarrow> (nat \<Rightarrow> cphase) \<Rightarrow> nat" where
  "total_rank n pc = (\<Sum>t < n. rank (pc t))"

lemma total_rank_less:
  assumes "t < n" and "rank ph < rank (pc t)"
  shows "total_rank n (pc(t := ph)) < total_rank n pc"
  unfolding total_rank_def using assms by (rule sum_update_less)

lemma cstep_rank: "cstep task n s s' \<Longrightarrow> total_rank n (snd (snd s')) < total_rank n (snd (snd s))"
proof (induction rule: cstep.induct)
  case (look t pc w b)
  show ?case unfolding snd_conv
    using look(1,2) rank_after_look by (intro total_rank_less) simp_all
next
  case (get t pc w a)
  show ?case unfolding snd_conv
    using get(1,2) rank_after_get by (intro total_rank_less) simp_all
qed (auto intro!: total_rank_less simp del: fun_upd_apply)

interpretation cb: bounded_steps "cstep task n" "\<lambda>s. total_rank n (snd (snd s))" for task n
  by unfold_locales (rule cstep_rank)

lemma holder_can_put:
  assumes inv: "cinv B task n own (w, Some u, pc)"
  shows "\<exists>s. cstep task n (w, Some u, pc) s"
proof -
  obtain k a where u: "u < n" "pc u = CPutting k a" using cinvD(6) [OF inv, of u] by auto
  have "hm_inv (the (arp_cache w))" using cinvD(2) [OF inv] by (auto simp: map_ok_def)
  then obtain m where "hashmap_put (the (arp_cache w)) k a = Some m" using hashmap_put_updates by blast
  then show ?thesis using cstep.put [of u n pc k a w m task] u by blast
qed

lemma thread_can_step:
  assumes inv: "cinv B task n own (w, None, pc)" and t: "t < n" "\<not> finished (pc t)"
  shows "\<exists>s. cstep task n (w, None, pc) s"
proof -
  have ok: "arp_ok w" using cinv_arp_ok [OF inv] .
  have ph: "phase_ok own w None t (task t) (pc t)" using cinvD(5) [OF inv t(1)] .
  have hm: "hm_inv (the (arp_cache w))" using cinvD(2) [OF inv] by (auto simp: map_ok_def)
  show ?thesis
  proof (cases "pc t")
    case CStart
    then show ?thesis using cstep.look [OF t(1)] is_in_arp_cache_table [OF ok] by blast
  next
    case CFound
    then show ?thesis using cstep.get [OF t(1)] hm.get_law [OF hm] by (fastforce simp: hashmap_get_def)
  next
    case CMissing
    then show ?thesis using ph cstep.alloc [OF t(1)] by (fastforce simp: is_learn_def)
  next
    case (CGot a i)
    show ?thesis
    proof (cases "i < 6")
      case True
      obtain pro ip x us where tk: "task t = Learn pro ip x us" using CGot ph by (auto simp: is_learn_def)
      have "0 < a" "a \<le> length (arp_cells w)" using CGot ph by (simp_all add: valid_cell_def)
      then show ?thesis using cstep.copy [where task = task and pc = pc and w = w, OF t(1) CGot True tk] by blast
    next
      case False
      then show ?thesis using CGot ph cstep.lock_set [OF t(1), of pc a] by fastforce
    qed
  next
    case (CReady a)
    then show ?thesis using cstep.lock_add [OF t(1)] by blast
  qed (use ph t(2) in \<open>simp_all add: finished_def\<close>)
qed

section \<open>Single runs\<close>

text \<open>A thread that copies \<open>j\<close> bytes, from byte \<open>i\<close> on, without interruption.\<close>

fun copy_bytes :: "mac \<Rightarrow> nat \<Rightarrow> nat \<Rightarrow> mac \<Rightarrow> mac" where
  "copy_bytes c i 0 x = c"
| "copy_bytes c i (Suc j) x = copy_bytes (copy_byte c i x) (i + 1) j x"

lemma copy_run:
  assumes "t < n" and "task t = Learn pro ip x us" and "0 < a"
  shows "pc t = CGot a i \<Longrightarrow> i + j \<le> 6 \<Longrightarrow> a \<le> length (arp_cells w) \<Longrightarrow>
    (cstep task n)\<^sup>*\<^sup>* (w, mx, pc)
      (w\<lparr> arp_cells := (arp_cells w)[a - 1 := copy_bytes (arp_cells w ! (a - 1)) i j x] \<rparr>, mx, pc(t := CGot a (i + j)))"
proof (induction j arbitrary: i w pc)
  case 0
  then show ?case by (simp add: fun_upd_idem)
next
  case (Suc j)
  let ?w = "w\<lparr> arp_cells := (arp_cells w)[a - 1 := copy_byte (arp_cells w ! (a - 1)) i x] \<rparr>"
  have "cstep task n (w, mx, pc) (?w, mx, pc(t := CGot a (i + 1)))"
    using Suc.prems by (intro cstep.copy [where task = task and pro = pro and ip = ip and us = us] assms) simp_all
  moreover have "(cstep task n)\<^sup>*\<^sup>* (?w, mx, pc(t := CGot a (i + 1)))
     (?w\<lparr> arp_cells := (arp_cells ?w)[a - 1 := copy_bytes (arp_cells ?w ! (a - 1)) (i + 1) j x] \<rparr>, mx,
      (pc(t := CGot a (i + 1)))(t := CGot a (i + 1 + j)))"
    using Suc.prems by (intro Suc.IH) simp_all
  moreover have "?w\<lparr> arp_cells := (arp_cells ?w)[a - 1 := copy_bytes (arp_cells ?w ! (a - 1)) (i + 1) j x] \<rparr> =
      w\<lparr> arp_cells := (arp_cells w)[a - 1 := copy_bytes (arp_cells w ! (a - 1)) i (Suc j) x] \<rparr>"
    using Suc.prems(3) assms(3) by simp
  moreover have "(pc(t := CGot a (i + 1)))(t := CGot a (i + 1 + j)) = pc(t := CGot a (i + Suc j))" by simp
  ultimately show ?case by (metis (lifting) converse_rtranclp_into_rtranclp)
qed

text \<open>A thread that puts back the cell that the map already has for its key changes no entry.\<close>

definition cell_of :: "arp_state \<Rightarrow> u64 \<Rightarrow> nat option" where
  "cell_of w k = hm_lookup (the (arp_cache w)) (StackKey k)"

lemma put_run:
  assumes ok: "arp_ok w" and t: "t < n" "pc t = CGot a 6" and a: "cell_of w (task_key (task t)) = Some a"
  shows "\<exists>w'. (cstep task n)\<^sup>*\<^sup>* (w, None, pc) (w', None, pc(t := CDone)) \<and> arp_ok w' \<and>
    cell_of w' = cell_of w \<and> arp_cells w' = arp_cells w"
proof -
  let ?k = "StackKey (task_key (task t))"
  obtain m where m: "arp_cache w = Some m" "cache_ok m (arp_cells w)" using ok by (rule arp_okE)
  obtain m' where m': "hashmap_put m ?k a = Some m'" "updates m ?k a m'"
    using hashmap_put_updates [OF cache_okD(1) [OF m(2)]] by blast
  have look: "hm_lookup m ?k = Some a" using a m(1) by (simp add: cell_of_def)
  have eq: "hm_lookup m' l = hm_lookup m l" for l
    using m'(2) look hm_lookup_cong [OF cache_okD(1) [OF m(2)], of l ?k] by (simp add: updates_def)
  have "hm_inv m'" "hm_hash m' = hm_hash m" "hm_equals m' = hm_equals m" "stored_keys m' = stored_keys m"
    using m'(2) look by (simp_all add: updates_def)
  moreover have "hm_lookup m' = hm_lookup m" using eq by blast
  ultimately have "cache_ok m' (arp_cells w) = cache_ok m (arp_cells w)"
    using cache_okD(1) [OF m(2)] unfolding cache_ok_def by (simp only: simp_thms)
  then have "cache_ok m' (arp_cells w)" using m(2) by simp
  then have "arp_ok (w\<lparr> arp_cache := Some m' \<rparr>)" using ok by (simp add: arp_ok_def net_ok_def tun_ok_def)
  moreover have "cstep task n (w, None, pc) (w, Some t, pc(t := CPutting ?k a))" using t by (rule cstep.lock_set)
  moreover have "cstep task n (w, Some t, pc(t := CPutting ?k a))
      (w\<lparr> arp_cache := Some m' \<rparr>, None, (pc(t := CPutting ?k a))(t := CDone))"
    using t(1) m(1) m'(1) by (intro cstep.put) simp_all
  ultimately show ?thesis
    using m(1) by (intro exI [of _ "w\<lparr> arp_cache := Some m' \<rparr>"])
      (auto simp: cell_of_def eq fun_eq_iff intro: converse_rtranclp_into_rtranclp)
qed

text \<open>A thread that runs alone does what the functions of \<^verbatim>\<open>arp.c\<close> do.\<close>

lemma look_alone:
  assumes "arp_ok w" and "t < n" and "pc t = CStart"
  shows "cstep task n (w, None, pc)
    (w, None, pc(t := after_look (task t) (arp_table w (task_pro (task t), task_ip (task t)) \<noteq> None)))"
  using assms by (intro cstep.look) (simp_all add: is_in_arp_cache_table)

lemma add_alone:
  assumes ok: "arp_ok w" and t: "t < n" "pc t = CStart" "task t = Learn pro ip x True"
    and none: "arp_table w (pro, ip) = None"
  shows "\<exists>w'. (cstep task n)\<^sup>*\<^sup>* (w, None, pc) (w', None, pc(t := CDone)) \<and> add_to_arp_cache w pro ip x = Inr w'"
proof -
  obtain m where m: "arp_cache w = Some m" "cache_ok m (arp_cells w)" using ok by (rule arp_okE)
  let ?k = "HeapKey (to_key pro ip)" and ?a = "length (arp_cells w) + 1"
  let ?w = "w\<lparr> arp_cells := arp_cells w @ [x] \<rparr>"
  obtain m' where m': "hashmap_put m ?k ?a = Some m'"
    using hashmap_put_updates [OF cache_okD(1) [OF m(2)]] by blast
  have key: "task_key (task t) = to_key pro ip" using t(3) by (simp add: task_key_def)
  have 1: "cstep task n (w, None, pc) (w, None, pc(t := CMissing))"
    using look_alone [where pc = pc and task = task, OF ok t(1,2)] t(3) none by simp
  have 2: "cstep task n (w, None, pc(t := CMissing)) (?w, None, (pc(t := CMissing))(t := CReady ?a))"
    by (rule cstep.alloc [where task = task, OF t(1) _ t(3)]) simp
  have 3: "cstep task n (?w, None, pc(t := CReady ?a)) (?w, Some t, (pc(t := CReady ?a))(t := CPutting ?k ?a))"
    using cstep.lock_add [OF t(1), of "pc(t := CReady ?a)" ?a task ?w] by (simp only: key fun_upd_same simp_thms)
  have 4: "cstep task n (?w, Some t, pc(t := CPutting ?k ?a))
      (?w\<lparr> arp_cache := Some m' \<rparr>, None, (pc(t := CPutting ?k ?a))(t := CDone))"
    by (rule cstep.put [OF t(1)]) (use m m' in simp_all)
  have "(cstep task n)\<^sup>*\<^sup>* (w, None, pc) (?w\<lparr> arp_cache := Some m' \<rparr>, None, pc(t := CDone))"
    using 1 2 3 4 unfolding fun_upd_upd
    by (meson converse_rtranclp_into_rtranclp r_into_rtranclp)
  moreover have "add_to_arp_cache w pro ip x = Inr (?w\<lparr> arp_cache := Some m' \<rparr>)"
    using m(1) m' by (simp add: add_to_arp_cache_def)
  ultimately show ?thesis by blast
qed

lemma copy_bytes_all: "copy_bytes c 0 6 x = x"
  by (cases c; cases x) (simp add: numeral_eq_Suc copy_byte_def mac_of_def)

lemma get_alone:
  assumes ok: "arp_ok w" and t: "t < n" "pc t = CStart" and a: "cell_of w (task_key (task t)) = Some a"
  shows "(cstep task n)\<^sup>*\<^sup>* (w, None, pc) (w, None, pc(t := after_get (task t) a))"
proof -
  obtain m where m: "arp_cache w = Some m" "cache_ok m (arp_cells w)" using ok by (rule arp_okE)
  have known: "arp_table w (task_pro (task t), task_ip (task t)) \<noteq> None"
    using a m(1) by (simp add: cell_of_def arp_table_def task_key_def)
  have 1: "cstep task n (w, None, pc) (w, None, pc(t := CFound))"
    using look_alone [where pc = pc and task = task, OF ok t] known by (cases "task t") auto
  have 2: "cstep task n (w, None, pc(t := CFound)) (w, None, (pc(t := CFound))(t := after_get (task t) a))"
    using a m(1) hm.get_law [OF cache_okD(1) [OF m(2)]]
    by (intro cstep.get t) (simp_all add: hashmap_get_def cell_of_def)
  show ?thesis using 1 2 unfolding fun_upd_upd by (meson converse_rtranclp_into_rtranclp r_into_rtranclp)
qed

lemma arp_ok_cells: "length cs = length (arp_cells w) \<Longrightarrow> arp_ok (w\<lparr> arp_cells := cs \<rparr>) \<longleftrightarrow> arp_ok w"
  by (simp add: arp_ok_def cache_ok_def net_ok_def tun_ok_def)

lemma table_cell: "arp_ok w \<Longrightarrow> arp_table w (pro, ip) = map_option (cell_mac (arp_cells w)) (cell_of w (to_key pro ip))"
  by (auto simp: arp_ok_def arp_table_def cell_of_def)

lemma cell_of_bounds: "arp_ok w \<Longrightarrow> cell_of w k = Some a \<Longrightarrow> 0 < a \<and> a \<le> length (arp_cells w)"
  by (auto simp: arp_ok_def cache_ok_def cell_of_def)

lemma copy_bytes_mix: "copy_bytes y 3 3 x = mac_of (take 3 (mac_bytes y) @ drop 3 (mac_bytes x))"
  by (cases x; cases y) (simp add: numeral_eq_Suc copy_byte_def mac_of_def)

text \<open>Two threads that copy into the same cell: three bytes of the first, all of the second, the rest of
  the first.\<close>

lemma torn_copies:
  assumes n: "0 < n" "1 < n" and x: "task 0 = Learn pro ip x us" and y: "task 1 = Learn pro ip y vs"
    and a: "0 < a" "a \<le> length (arp_cells w)" and pc: "pc 0 = CGot a 0" "pc 1 = CGot a 0"
  shows "(cstep task n)\<^sup>*\<^sup>* (w, None, pc)
    (w\<lparr> arp_cells := (arp_cells w)[a - 1 := mac_of (take 3 (mac_bytes y) @ drop 3 (mac_bytes x))] \<rparr>, None,
     pc(0 := CGot a 6, 1 := CGot a 6))"
proof -
  let ?c = "arp_cells w ! (a - 1)"
  let ?w1 = "w\<lparr> arp_cells := (arp_cells w)[a - 1 := copy_bytes ?c 0 3 x] \<rparr>"
  let ?w2 = "w\<lparr> arp_cells := (arp_cells w)[a - 1 := y] \<rparr>"
  have 1: "(cstep task n)\<^sup>*\<^sup>* (w, None, pc) (?w1, None, pc(0 := CGot a 3))"
    using copy_run [where task = task and pc = pc and w = w and t = 0 and i = 0 and j = 3, OF n(1) x a(1) pc(1)] a by simp
  have 2: "(cstep task n)\<^sup>*\<^sup>* (?w1, None, pc(0 := CGot a 3)) (?w2, None, pc(0 := CGot a 3, 1 := CGot a 6))"
    using copy_run [where task = task and pc = "pc(0 := CGot a 3)" and w = ?w1 and t = 1 and i = 0 and j = 6, OF n(2) y a(1)]
      a pc by (simp add: copy_bytes_all)
  have 3: "(cstep task n)\<^sup>*\<^sup>* (?w2, None, pc(0 := CGot a 3, 1 := CGot a 6))
      (w\<lparr> arp_cells := (arp_cells w)[a - 1 := copy_bytes y 3 3 x] \<rparr>, None,
       pc(0 := CGot a 3, 1 := CGot a 6, 0 := CGot a 6))"
    using copy_run [where task = task and pc = "pc(0 := CGot a 3, 1 := CGot a 6)" and w = ?w2 and t = 0 and i = 3 and j = 3,
      OF n(1) x a(1)] a by simp
  have pc3: "pc(0 := CGot a 3, 1 := CGot a 6, 0 := CGot a 6) = pc(0 := CGot a 6, 1 := CGot a 6)" by (auto simp: fun_upd_def)
  show ?thesis using rtranclp_trans [OF rtranclp_trans [OF 1 2] 3] unfolding copy_bytes_mix pc3 .
qed

section \<open>Properties\<close>

text \<open>The bytes announced for \<open>ip\<close>, by the entry at the start or by one of the packets.\<close>

definition announced ::
  "(nat \<Rightarrow> cache_task) \<Rightarrow> nat \<Rightarrow> (u16 \<times> u32 \<Rightarrow> mac option) \<Rightarrow> u16 \<Rightarrow> u32 \<Rightarrow> nat \<Rightarrow> u8 \<Rightarrow> bool" where
  "announced task n T pro ip i b \<longleftrightarrow>
     (\<exists>x. T (pro, ip) = Some x \<and> b = mac_bytes x ! i) \<or>
     (\<exists>t < n. \<exists>x us. task t = Learn pro ip x us \<and> b = mac_bytes x ! i)"


text \<open>A new cache, and packets of two hosts and a lookup.\<close>

definition sample_tasks :: "nat \<Rightarrow> cache_task" where
  "sample_tasks t = (if t = 0 then Learn ARP_IPV4 (u32_of 10 0 0 1) (MAC 2 0 0 0 0 1) True
     else if t = 1 then Learn ARP_IPV4 (u32_of 10 0 0 2) (MAC 2 0 0 0 0 2) True else Resolve (u32_of 10 0 0 1))"

lemma sample_run:
  "\<exists>w pc. creachable sample_tasks 3 sample_arp (w, None, pc) \<and> pc 0 = CDone"
proof -
  have "sample_tasks 0 = Learn ARP_IPV4 (u32_of 10 0 0 1) (MAC 2 0 0 0 0 1) True" by (simp add: sample_tasks_def)
  from add_alone [where pc = "\<lambda>t. CStart" and task = sample_tasks and n = 3 and t = 0, OF sample_arp_ok(1) _ _ this]
  show ?thesis unfolding creachable_def sample_arp_ok(3) by fastforce
qed




lemma unfinished_can_step:
  assumes "creachable task n w0 s" and "arp_ok w0" and "\<not> (fst (snd s) = None \<and> (\<forall>t < n. finished (snd (snd s) t)))"
  shows "\<exists>s'. cstep task n s s'"
proof -
  obtain w mx pc where s: "s = (w, mx, pc)" by (cases s)
  obtain own where inv: "cinv (for_keys (\<lambda>_ _ _ _. True)) task n own (w, mx, pc)"
    using creachable_inv [OF assms(1) [unfolded s] assms(2), of "\<lambda>_ _ _ _. True"] by auto
  show ?thesis
  proof (cases mx)
    case None
    then obtain t where "t < n" "\<not> finished (pc t)" using assms(3) s by auto
    with None inv show ?thesis unfolding s by (blast intro: thread_can_step)
  next
    case (Some u)
    with inv show ?thesis unfolding s by (blast intro: holder_can_put)
  qed
qed




text \<open>The cache after a packet of 10.0.0.1.\<close>

lemma sample_known_host: "\<exists>w :: arp_state. arp_ok w \<and> arp_table w = [(ARP_IPV4, u32_of 10 0 0 1) \<mapsto> MAC 2 0 0 0 0 1]"
  using add_to_arp_cache_updates [OF sample_arp_ok(1), of ARP_IPV4 "u32_of 10 0 0 1" "MAC 2 0 0 0 0 1"]
  by (auto simp: sample_arp_ok(3))


text \<open>
  C37. The copy of a hardware address is not locked either: when two packets announce different
  addresses \<open>x\<close> and \<open>y\<close> for a known host, both threads can finish and leave an entry with the first half
  of \<open>y\<close> and the second half of \<open>x\<close>, an address nobody announced.
\<close>

theorem cache_entry_can_be_torn:
  assumes "arp_ok w0" and "2 \<le> n" and "arp_table w0 (pro, ip) \<noteq> None"
    and "task 0 = Learn pro ip x us" and "task 1 = Learn pro ip y vs"
  shows "\<exists>w pc. creachable task n w0 (w, None, pc) \<and> pc 0 = CDone \<and> pc 1 = CDone \<and>
    arp_table w (pro, ip) = Some (mac_of (take 3 (mac_bytes y) @ drop 3 (mac_bytes x)))"
proof -
  let ?pc = "\<lambda>t :: nat. CStart" and ?mix = "mac_of (take 3 (mac_bytes y) @ drop 3 (mac_bytes x))"
  have n: "0 < n" "1 < n" using assms(2) by simp_all
  have key: "task_key (task 0) = to_key pro ip" "task_key (task 1) = to_key pro ip"
    using assms(4,5) by (simp_all add: task_key_def)
  obtain a where a: "cell_of w0 (to_key pro ip) = Some a" using assms(3) table_cell [OF assms(1)] by auto
  have b: "0 < a" "a \<le> length (arp_cells w0)" using cell_of_bounds [OF assms(1) a] by simp_all
  let ?w1 = "w0\<lparr> arp_cells := (arp_cells w0)[a - 1 := ?mix] \<rparr>"
  have 1: "(cstep task n)\<^sup>*\<^sup>* (w0, None, ?pc) (w0, None, ?pc(0 := CGot a 0))"
    using get_alone [where pc = ?pc and task = task, OF assms(1) n(1)] a b key assms(4) by simp
  have 2: "(cstep task n)\<^sup>*\<^sup>* (w0, None, ?pc(0 := CGot a 0)) (w0, None, ?pc(0 := CGot a 0, 1 := CGot a 0))"
    using get_alone [where pc = "?pc(0 := CGot a 0)" and task = task, OF assms(1) n(2)] a b key assms(5) by simp
  let ?pc2 = "?pc(0 := CGot a 0, 1 := CGot a 0)"
  have 3: "(cstep task n)\<^sup>*\<^sup>* (w0, None, ?pc2) (?w1, None, ?pc2(0 := CGot a 6, 1 := CGot a 6))"
    by (rule torn_copies [OF n assms(4,5) b]) simp_all
  have ok1: "arp_ok ?w1" "cell_of ?w1 = cell_of w0" using assms(1) arp_ok_cells [of "(arp_cells w0)[a - 1 := ?mix]" w0]
    by (simp_all add: cell_of_def fun_eq_iff)
  obtain w2 where w2: "(cstep task n)\<^sup>*\<^sup>* (?w1, None, ?pc2(0 := CGot a 6, 1 := CGot a 6))
      (w2, None, ?pc2(0 := CGot a 6, 1 := CGot a 6, 0 := CDone))" "arp_ok w2" "cell_of w2 = cell_of ?w1" "arp_cells w2 = arp_cells ?w1"
    using put_run [where t = 0 and pc = "?pc2(0 := CGot a 6, 1 := CGot a 6)" and a = a, OF ok1(1) n(1), of task] ok1(2) a key by auto
  obtain w3 where w3: "(cstep task n)\<^sup>*\<^sup>* (w2, None, ?pc2(0 := CGot a 6, 1 := CGot a 6, 0 := CDone))
      (w3, None, ?pc2(0 := CGot a 6, 1 := CGot a 6, 0 := CDone, 1 := CDone))" "arp_ok w3" "cell_of w3 = cell_of w2" "arp_cells w3 = arp_cells w2"
    using put_run [where t = 1 and pc = "?pc2(0 := CGot a 6, 1 := CGot a 6, 0 := CDone)" and a = a, OF w2(2) n(2), of task]
      w2(3) ok1(2) a key by auto
  have "creachable task n w0 (w3, None, ?pc2(0 := CGot a 6, 1 := CGot a 6, 0 := CDone, 1 := CDone))"
    unfolding creachable_def using 1 2 3 w2(1) w3(1) by (meson rtranclp_trans)
  moreover have "arp_table w3 (pro, ip) = Some ?mix"
    using table_cell [OF w3(2), of pro ip] w3(3,4) w2(3,4) ok1(2) a b by (simp add: cell_mac_def)
  ultimately show ?thesis by fastforce
qed

theorem cache_entry_can_be_torn_witness:
  "\<exists>w0 w pc. arp_ok w0 \<and> creachable (\<lambda>t. Learn ARP_IPV4 (u32_of 10 0 0 1) (if t = 0 then MAC 1 1 1 1 1 1 else MAC 2 2 2 2 2 2) True)
     10 w0 (w, None, pc) \<and> arp_table w (ARP_IPV4, u32_of 10 0 0 1) = Some (MAC 2 2 2 1 1 1)"
proof -
  obtain w0 :: arp_state where w0: "arp_ok w0" "arp_table w0 = [(ARP_IPV4, u32_of 10 0 0 1) \<mapsto> MAC 2 0 0 0 0 1]"
    using sample_known_host by blast
  have mix: "mac_of (take 3 (mac_bytes (MAC 2 2 2 2 2 2)) @ drop 3 (mac_bytes (MAC 1 1 1 1 1 1))) = MAC 2 2 2 1 1 1"
    by (simp add: mac_of_def numeral_eq_Suc)
  show ?thesis
    using cache_entry_can_be_torn [OF w0(1), of 10 ARP_IPV4 "u32_of 10 0 0 1"
      "\<lambda>t. Learn ARP_IPV4 (u32_of 10 0 0 1) (if t = 0 then MAC 1 1 1 1 1 1 else MAC 2 2 2 2 2 2) True"] w0 mix by fastforce
qed

end
