(* ===== verification/Arp_Exit.thy ===== *)
theory Arp_Exit
  imports Arp_Threads_Props
begin

text \<open>
  \<^verbatim>\<open>exit\<close> while the other threads go on: \<^verbatim>\<open>ip_send_packet\<close> calls it in one thread, and its handler runs
  \<^verbatim>\<open>arp_destroy\<close>, which takes no mutex, statement by statement between the steps of the threads that use
  the cache.
\<close>

section \<open>The handler\<close>

text \<open>
  Where the handler is in \<^verbatim>\<open>arp_destroy\<close>: before its first statement, at the head of its loop, after
  \<^verbatim>\<open>hashmap_it_next\<close>, before \<^verbatim>\<open>free(*key)\<close>, before \<^verbatim>\<open>free(*cell)\<close>, before \<^verbatim>\<open>free_hashmap\<close>, at its end.
  \<open>ERaced\<close>: it reads the map while a thread changes it.  \<open>EBad\<close>: a failed assertion, an access outside an
  object or to a freed one.
\<close>

datatype ephase =
    EBefore
  | ELoop "(arp_key, nat) hashmap_iterator"
  | EFound arp_key nat "(arp_key, nat) hashmap_iterator"
  | EKey arp_key nat "(arp_key, nat) hashmap_iterator"
  | ECell nat "(arp_key, nat) hashmap_iterator"
  | EFree
  | EGone
  | ERaced
  | EBad

text \<open>
  The threads as in \<open>cstep\<close>, the handler, the blocks freed so far, and the threads that have used a freed
  block.  An allocated key is named by the word in it: the map has at most one key for a word, and a
  freed key stays in its element of the array.
\<close>

record exit_state =
  ex_w :: arp_state
  ex_mutex :: "nat option"
  ex_pc :: "nat \<Rightarrow> cphase"
  ex_phase :: ephase
  ex_keys :: "u64 list"
  ex_cells :: "nat list"
  ex_map :: bool
  ex_faults :: "nat set"

definition exit_start :: "arp_state \<Rightarrow> exit_state" where
  "exit_start w = \<lparr> ex_w = w, ex_mutex = None, ex_pc = \<lambda>t. CStart, ex_phase = EBefore, ex_keys = [], ex_cells = [],
     ex_map = False, ex_faults = {} \<rparr>"

definition read_map :: "exit_state \<Rightarrow> ((arp_key, nat) hashmap \<Rightarrow> exit_state) \<Rightarrow> exit_state" where
  "read_map s f = (case arp_cache (ex_w s) of
     None \<Rightarrow> s\<lparr> ex_phase := EBad \<rparr>
   | Some m \<Rightarrow> if ex_mutex s \<noteq> None then s\<lparr> ex_phase := ERaced \<rparr> else f m)"

fun exit_exec :: "bool option \<Rightarrow> ephase \<Rightarrow> exit_state \<Rightarrow> exit_state" where
  "exit_exec oob EBefore s = read_map s (\<lambda>m.
     s\<lparr> ex_w := emit (LOG_DEBUG (''[ARP] Dumping cache '' @ show_int (hashmap_size m) @ '' :'' @ newline)) (ex_w s),
        ex_phase := ELoop (hashmap_it_set_map hashmap_it_alloc m) \<rparr>)"
| "exit_exec oob (ELoop it) s = read_map s (\<lambda>m.
     case hashmap_it_has_next oob (it\<lparr> it_map := Some m \<rparr>) of
       Inl e \<Rightarrow> s\<lparr> ex_phase := EBad \<rparr>
     | Inr (found, it) \<Rightarrow>
         if \<not> found then s\<lparr> ex_phase := EFree \<rparr>
         else (case hashmap_it_next oob it of
           Inr (Some (key, cell), it) \<Rightarrow> s\<lparr> ex_phase := EFound key cell it \<rparr>
         | _ \<Rightarrow> s\<lparr> ex_phase := EBad \<rparr>))"
| "exit_exec oob (EFound key cell it) s =
     (if key_word key \<in> set (ex_keys s) \<or> cell \<in> set (ex_cells s) \<or> cell = 0 \<or> length (arp_cells (ex_w s)) < cell
      then s\<lparr> ex_phase := EBad \<rparr>
      else s\<lparr> ex_w := emit (cache_line (key_word key) (arp_cells (ex_w s) ! (cell - 1))) (ex_w s),
              ex_phase := EKey key cell it \<rparr>)"
| "exit_exec oob (EKey key cell it) s =
     (if key_word key \<in> set (ex_keys s) \<or> key \<notin> range HeapKey then s\<lparr> ex_phase := EBad \<rparr>
      else s\<lparr> ex_keys := ex_keys s @ [key_word key], ex_phase := ECell cell it \<rparr>)"
| "exit_exec oob (ECell cell it) s =
     (if cell \<in> set (ex_cells s) then s\<lparr> ex_phase := EBad \<rparr>
      else s\<lparr> ex_cells := ex_cells s @ [cell], ex_phase := ELoop it \<rparr>)"
| "exit_exec oob EFree s = read_map s (\<lambda>m. s\<lparr> ex_map := True, ex_phase := EGone \<rparr>)"
| "exit_exec oob ph s = s"

section \<open>The threads\<close>

text \<open>The keys that \<^verbatim>\<open>hashmap_indexof\<close> compares; a table with room has a free element within its capacity.\<close>

fun probed_keys :: "nat \<Rightarrow> (arp_key, nat) hashmap \<Rightarrow> arp_key \<Rightarrow> nat \<Rightarrow> arp_key list" where
  "probed_keys 0 m key index = []"
| "probed_keys (Suc n) m key index =
     (if el_used (hm_array m ! index)
      then el_key (hm_array m ! index) #
        (if hm_equals m key (el_key (hm_array m ! index)) then []
         else probed_keys n m key ((index + 1) AND (hm_capacity m - 1)))
      else [])"

definition compared_keys :: "(arp_key, nat) hashmap \<Rightarrow> arp_key \<Rightarrow> arp_key list" where
  "compared_keys m key = probed_keys (hm_capacity m) m key (unat (hm_hash m key) AND (hm_capacity m - 1))"

text \<open>The blocks that the next step of a thread reads or writes: keys, cells, and whether the map.\<close>

fun blocks_used :: "(arp_key, nat) hashmap \<Rightarrow> cache_task \<Rightarrow> cphase \<Rightarrow> arp_key list \<times> nat list \<times> bool" where
  "blocks_used m tk CStart = (compared_keys m (StackKey (task_key tk)), [], True)"
| "blocks_used m tk CFound = (compared_keys m (StackKey (task_key tk)), [], True)"
| "blocks_used m tk (CPutting key a) =
     (if hashmap_load_factor m > 70 then map el_key (filter el_used (hm_array m)) else compared_keys m key, [], True)"
| "blocks_used m tk (CGot a i) = ([], if i < 6 then [a] else [], False)"
| "blocks_used m tk (CResolved a) = ([], [a], False)"
| "blocks_used m tk ph = ([], [], False)"

definition uses_freed :: "(nat \<Rightarrow> cache_task) \<Rightarrow> exit_state \<Rightarrow> nat \<Rightarrow> bool" where
  "uses_freed task s t \<longleftrightarrow> (case blocks_used (the (arp_cache (ex_w s))) (task t) (ex_pc s t) of (keys, cells, reads_map) \<Rightarrow>
     reads_map \<and> ex_map s \<or> (\<exists>k \<in> set keys. k \<in> range HeapKey \<and> key_word k \<in> set (ex_keys s)) \<or>
     (\<exists>a \<in> set cells. a \<in> set (ex_cells s)))"

definition waits :: "exit_state \<Rightarrow> nat \<Rightarrow> bool" where
  "waits s t \<longleftrightarrow> ex_pc s t = CStart \<and> ex_mutex s \<noteq> None"

text \<open>A step changes the phase of the thread that makes it.\<close>

inductive estep :: "bool option \<Rightarrow> (nat \<Rightarrow> cache_task) \<Rightarrow> nat \<Rightarrow> exit_state \<Rightarrow> exit_state \<Rightarrow> bool" for oob task n where
  thread: "cstep task n (ex_w s, ex_mutex s, ex_pc s) (w, mx, pc) \<Longrightarrow> pc t \<noteq> ex_pc s t \<Longrightarrow>
    t \<notin> ex_faults s \<Longrightarrow> \<not> uses_freed task s t \<Longrightarrow>
    estep oob task n s (s\<lparr> ex_w := w, ex_mutex := mx, ex_pc := pc \<rparr>)"
| fault: "t < n \<Longrightarrow> t \<notin> ex_faults s \<Longrightarrow> \<not> waits s t \<Longrightarrow> uses_freed task s t \<Longrightarrow>
    estep oob task n s (s\<lparr> ex_faults := insert t (ex_faults s) \<rparr>)"
| handler: "ex_phase s \<notin> {EGone, ERaced, EBad} \<Longrightarrow> estep oob task n s (exit_exec oob (ex_phase s) s)"

section \<open>The handler on its own\<close>

definition lone :: "bool option \<Rightarrow> exit_state \<Rightarrow> exit_state \<Rightarrow> bool" where
  "lone oob s s' \<longleftrightarrow> ex_phase s \<notin> {EGone, ERaced, EBad} \<and> s' = exit_exec oob (ex_phase s) s"

lemma lone_estep: "(lone oob)\<^sup>*\<^sup>* s s' \<Longrightarrow> (estep oob task n)\<^sup>*\<^sup>* s s'"
  by (erule rtranclp_mono [THEN predicate2D, rotated]) (auto simp: lone_def intro: handler)

lemma it_map_same: "it_map it = Some m \<Longrightarrow> it\<lparr> it_map := Some m \<rparr> = it"
  by (cases it) simp

text \<open>One round: the statements from \<^verbatim>\<open>hashmap_it_has_next\<close> to \<^verbatim>\<open>free(*cell)\<close>.\<close>

lemma lone_round:
  assumes s: "ex_phase s = ELoop it" "ex_mutex s = None" "arp_cache (ex_w s) = Some m"
    and it: "it_map it = Some m" "it_index it < hm_capacity m" "used_from m (it_pos it) = j # js"
    and e: "entry m j = (HeapKey k, a)" "0 < a" "a \<le> length (arp_cells (ex_w s))" "k \<notin> set (ex_keys s)" "a \<notin> set (ex_cells s)"
  shows "\<exists>it'. it_map it' = Some m \<and> it_index it' < hm_capacity m \<and> used_from m (it_pos it') = js \<and>
    (lone (Some b))\<^sup>*\<^sup>* s (s\<lparr> ex_w := emit (cache_line k (cell_mac (arp_cells (ex_w s)) a)) (ex_w s),
      ex_keys := ex_keys s @ [k], ex_cells := ex_cells s @ [a], ex_phase := ELoop it' \<rparr>)"
proof -
  note j = used_from_skip [OF it(3)]
  let ?it = "it\<lparr>it_index := j, it_consumed := False\<rparr>"
  let ?it2 = "?it\<lparr>it_index := j, it_consumed := True\<rparr>"
  have pos: "it_map ?it = Some m" "it_index ?it < hm_capacity m" "used_from m (it_pos ?it) = j # js"
    using it j by (auto simp: it_pos_def used_from_Cons)
  have 1: "exit_exec (Some b) (ELoop it) s = s\<lparr> ex_phase := EFound (HeapKey k) a ?it2 \<rparr>"
    using s it(1) e(1) it_next_some(2) [OF it] it_next_some(1) [OF pos] by (simp add: read_map_def it_map_same)
  let ?s = "s\<lparr> ex_w := emit (cache_line k (cell_mac (arp_cells (ex_w s)) a)) (ex_w s) \<rparr>"
  have 2: "lone (Some b) (s\<lparr> ex_phase := EFound (HeapKey k) a ?it2 \<rparr>) (?s\<lparr> ex_phase := EKey (HeapKey k) a ?it2 \<rparr>)"
    using e by (simp add: lone_def cell_mac_def)
  have 3: "lone (Some b) (?s\<lparr> ex_phase := EKey (HeapKey k) a ?it2 \<rparr>)
      (?s\<lparr> ex_keys := ex_keys s @ [k], ex_phase := ECell a ?it2 \<rparr>)"
    using e by (simp add: lone_def)
  have 4: "lone (Some b) (?s\<lparr> ex_keys := ex_keys s @ [k], ex_phase := ECell a ?it2 \<rparr>)
      (?s\<lparr> ex_keys := ex_keys s @ [k], ex_cells := ex_cells s @ [a], ex_phase := ELoop ?it2 \<rparr>)"
    using e by (simp add: lone_def)
  have "lone (Some b) s (s\<lparr> ex_phase := EFound (HeapKey k) a ?it2 \<rparr>)" using s(1) 1 by (simp add: lone_def)
  from this 2 3 4 have "(lone (Some b))\<^sup>*\<^sup>* s (?s\<lparr> ex_keys := ex_keys s @ [k], ex_cells := ex_cells s @ [a], ex_phase := ELoop ?it2 \<rparr>)"
    by (meson converse_rtranclp_into_rtranclp r_into_rtranclp)
  moreover have "it_map ?it2 = Some m" "it_index ?it2 < hm_capacity m" "used_from m (it_pos ?it2) = js"
    using it(1) j by (simp_all add: it_pos_def)
  ultimately show ?thesis by (intro exI [of _ ?it2]) simp
qed

lemma lone_loop:
  assumes "ex_phase s = ELoop it" "ex_mutex s = None" "arp_cache (ex_w s) = Some m"
    and "it_map it = Some m" "it_index it < hm_capacity m"
    and "map (entry m) (used_from m (it_pos it)) = map (\<lambda>(k, a). (HeapKey k, a)) kas"
    and "\<forall>a \<in> snd ` set kas. 0 < a \<and> a \<le> length (arp_cells (ex_w s))"
    and "distinct (ex_keys s @ map fst kas)" "distinct (ex_cells s @ map snd kas)"
  shows "(lone (Some b))\<^sup>*\<^sup>* s (s\<lparr> ex_w := emit (concat (map (\<lambda>(k, a). cache_line k (cell_mac (arp_cells (ex_w s)) a)) kas)) (ex_w s),
    ex_keys := ex_keys s @ map fst kas, ex_cells := ex_cells s @ map snd kas, ex_phase := EFree \<rparr>)"
  using assms
proof (induction kas arbitrary: s it)
  case Nil
  then have "exit_exec (Some b) (ELoop it) s = s\<lparr> ex_phase := EFree \<rparr>"
    using it_next_none(2) [OF Nil(4,5), of b] by (simp add: read_map_def it_map_same)
  then have "lone (Some b) s (s\<lparr> ex_phase := EFree \<rparr>)" using Nil(1) by (simp add: lone_def)
  then show ?case by (simp add: emit_def r_into_rtranclp)
next
  case (Cons ka kas)
  obtain k a where ka: "ka = (k, a)" by (cases ka)
  then obtain j js where j: "used_from m (it_pos it) = j # js" "entry m j = (HeapKey k, a)"
    "map (entry m) js = map (\<lambda>(k, a). (HeapKey k, a)) kas" using Cons.prems(6) by auto
  let ?s = "\<lambda>it. s\<lparr> ex_w := emit (cache_line k (cell_mac (arp_cells (ex_w s)) a)) (ex_w s),
      ex_keys := ex_keys s @ [k], ex_cells := ex_cells s @ [a], ex_phase := ELoop it \<rparr>"
  obtain it' where it': "it_map it' = Some m" "it_index it' < hm_capacity m" "used_from m (it_pos it') = js"
    "(lone (Some b))\<^sup>*\<^sup>* s (?s it')"
    using lone_round [OF Cons.prems(1-5) j(1,2), of b] Cons.prems(7-9) ka by auto
  note it'(4)
  also have "(lone (Some b))\<^sup>*\<^sup>* (?s it') (s\<lparr> ex_w := emit (concat (map (\<lambda>(k, a). cache_line k (cell_mac (arp_cells (ex_w s)) a)) (ka # kas))) (ex_w s),
    ex_keys := ex_keys s @ map fst (ka # kas), ex_cells := ex_cells s @ map snd (ka # kas), ex_phase := EFree \<rparr>)"
    using Cons.IH [of "?s it'" it'] Cons.prems(2,3,7-9) it'(1-3) j(3) ka by (simp add: emit_def)
  finally show ?case .
qed

text \<open>All steps: the handler does what \<^verbatim>\<open>arp_destroy\<close> does.\<close>

lemma lone_handler:
  assumes ok: "arp_ok (ex_w s)" and s: "ex_phase s = EBefore" "ex_mutex s = None" "ex_keys s = []" "ex_cells s = []"
  shows "\<exists>freed array w'. arp_destroy (Some b) (ex_w s) = Inr (freed, array, w') \<and>
    (lone (Some b))\<^sup>*\<^sup>* s (s\<lparr> ex_w := w', ex_keys := map (key_word \<circ> fst) freed, ex_cells := map snd freed,
      ex_map := True, ex_phase := EGone \<rparr>)"
proof -
  obtain m where m: "arp_cache (ex_w s) = Some m" and c: "cache_ok m (arp_cells (ex_w s))" using ok by (rule arp_okE)
  define freed kas where "freed = map (entry m) (used_from m 0)" and "kas = map (\<lambda>(k, a). (key_word k, a)) freed"
  let ?it = "hashmap_it_set_map hashmap_it_alloc m"
  let ?log = "LOG_DEBUG (''[ARP] Dumping cache '' @ show_int (hashmap_size m) @ '' :'' @ newline)"
  let ?w = "emit ?log (ex_w s)"
  note e = cache_entries [OF c, folded freed_def]
  have it: "it_map ?it = Some m" "it_index ?it < hm_capacity m" "it_pos ?it = 0"
    using hm_shapeD(2) [OF hm_invD(2) [OF cache_okD(1) [OF c]]]
    by (simp_all add: hashmap_it_set_map_def hashmap_it_reset_def it_pos_def)
  have heap: "map (\<lambda>(k, a). (HeapKey k, a)) kas = freed"
    unfolding kas_def map_map using e(1) by (intro map_idI) auto
  have cells: "0 < a \<and> a \<le> length (arp_cells (ex_w s))" if "a \<in> snd ` set kas" for a
    using that cache_okD(5) [OF c entry_lookup(1) [OF cache_okD(1) [OF c]]] by (auto simp: kas_def freed_def split_beta)
  have keys: "map fst kas = map (key_word \<circ> fst) freed" "map snd kas = map snd freed"
    by (simp_all add: kas_def split_beta comp_def)
  define s1 where "s1 = s\<lparr> ex_w := ?w, ex_phase := ELoop ?it \<rparr>"
  define s2 where "s2 = s1\<lparr>
      ex_w := emit (concat (map (\<lambda>(k, a). cache_line k (cell_mac (arp_cells (ex_w s1)) a)) kas)) (ex_w s1),
      ex_keys := ex_keys s1 @ map fst kas, ex_cells := ex_cells s1 @ map snd kas, ex_phase := EFree \<rparr>"
  have "lone (Some b) s s1" using s m by (simp add: lone_def read_map_def s1_def)
  moreover have "(lone (Some b))\<^sup>*\<^sup>* s1 s2"
    unfolding s2_def using s m it e(2,3) cells heap keys
    by (intro lone_loop [where m = m and it = ?it]) (simp_all add: s1_def emit_def freed_def)
  moreover have "lone (Some b) s2 (s2\<lparr> ex_map := True, ex_phase := EGone \<rparr>)"
    using s m by (simp add: lone_def read_map_def s1_def s2_def emit_def)
  ultimately have "(lone (Some b))\<^sup>*\<^sup>* s (s2\<lparr> ex_map := True, ex_phase := EGone \<rparr>)"
    by (meson converse_rtranclp_into_rtranclp rtranclp.rtrancl_into_rtrancl)
  then show ?thesis
    using arp_destroy_entries [OF m c, of b] s keys
    by (simp add: s1_def s2_def emit_def kas_def freed_def split_beta comp_def)
qed

section \<open>Threads before the handler\<close>

lemma cstep_moves: "cstep task n s s' \<Longrightarrow> \<exists>t. snd (snd s') t \<noteq> snd (snd s) t"
  using cstep_rank [of task n s s'] by (metis less_irrefl ext)

lemma threads_estep:
  assumes "(cstep task n)\<^sup>*\<^sup>* c c'" and "c = (ex_w s, ex_mutex s, ex_pc s)"
    and "ex_keys s = []" "ex_cells s = []" "\<not> ex_map s" "ex_faults s = {}"
  shows "(estep oob task n)\<^sup>*\<^sup>* s (s\<lparr> ex_w := fst c', ex_mutex := fst (snd c'), ex_pc := snd (snd c') \<rparr>)"
  using assms(1)
proof (induction rule: rtranclp_induct)
  case base
  then show ?case using assms(2) by simp
next
  case (step c1 c2)
  let ?s = "\<lambda>c. s\<lparr> ex_w := fst c, ex_mutex := fst (snd c), ex_pc := snd (snd c) \<rparr>"
  obtain t where "snd (snd c2) t \<noteq> snd (snd c1) t" using cstep_moves [OF step(2)] by blast
  then have "estep oob task n (?s c1) (?s c1\<lparr> ex_w := fst c2, ex_mutex := fst (snd c2), ex_pc := snd (snd c2) \<rparr>)"
    using step(2) assms(3-6) by (intro estep.thread [where t = t]) (auto simp: uses_freed_def split: prod.splits)
  with step(3) show ?case by (simp add: rtranclp.rtrancl_into_rtrancl)
qed

end
