(* ===== verification/Arp_Exit_Props.thy ===== *)
theory Arp_Exit_Props
  imports Arp_Exit
begin

text \<open>What \<^verbatim>\<open>exit\<close> does to the cache while the other threads go on.\<close>

section \<open>The invariant of the handler\<close>

text \<open>The freed keys are in used elements of the array before the one the iterator comes to.\<close>

definition freed_in :: "(arp_key, nat) hashmap \<Rightarrow> u64 list \<Rightarrow> nat \<Rightarrow> bool" where
  "freed_in m ks p \<longleftrightarrow> (\<forall>k \<in> set ks. \<exists>i < p. i \<in> used_set m \<and> key_word (key_at m i) = k)"

text \<open>The pair that the handler has read: the key of the element it came to and a cell of that key.\<close>

definition at_pair ::
  "(nat \<Rightarrow> u64 option) \<Rightarrow> arp_state \<Rightarrow> u64 list \<Rightarrow> arp_key \<Rightarrow> nat \<Rightarrow> (arp_key, nat) hashmap_iterator \<Rightarrow> bool" where
  "at_pair own w ks key cell it \<longleftrightarrow> (let m = the (arp_cache w) in
     it_consumed it \<and> it_index it \<in> used_set m \<and> key_at m (it_index it) = key \<and>
     freed_in m ks (it_index it) \<and> valid_cell own w (key_word key) cell)"

fun hand_ok :: "(nat \<Rightarrow> u64 option) \<Rightarrow> arp_state \<Rightarrow> u64 list \<Rightarrow> nat list \<Rightarrow> ephase \<Rightarrow> bool" where
  "hand_ok own w ks cs EBefore \<longleftrightarrow> ks = [] \<and> cs = []"
| "hand_ok own w ks cs (ELoop it) \<longleftrightarrow> freed_in (the (arp_cache w)) ks (it_pos it) \<and> map own cs = map Some ks"
| "hand_ok own w ks cs (EFound key cell it) \<longleftrightarrow> at_pair own w ks key cell it \<and> map own cs = map Some ks"
| "hand_ok own w ks cs (EKey key cell it) \<longleftrightarrow> at_pair own w ks key cell it \<and> map own cs = map Some ks"
| "hand_ok own w ks cs (ECell cell it) \<longleftrightarrow>
     freed_in (the (arp_cache w)) ks (it_pos it) \<and> map own (cs @ [cell]) = map Some ks"
| "hand_ok own w ks cs EBad \<longleftrightarrow> False"
| "hand_ok own w ks cs ph \<longleftrightarrow> map own cs = map Some ks"

definition einv :: "(nat \<Rightarrow> cache_task) \<Rightarrow> nat \<Rightarrow> exit_state \<Rightarrow> bool" where
  "einv task n s \<longleftrightarrow> (\<exists>own. cinv (\<lambda>k i. UNIV) task n own (ex_w s, ex_mutex s, ex_pc s) \<and>
     hand_ok own (ex_w s) (ex_keys s) (ex_cells s) (ex_phase s)) \<and> distinct (ex_keys s)"

text \<open>A put that does not grow the array leaves the used elements their keys.\<close>

definition slots_kept :: "(arp_key, nat) hashmap \<Rightarrow> (arp_key, nat) hashmap \<Rightarrow> bool" where
  "slots_kept m m' \<longleftrightarrow> used_set m \<subseteq> used_set m' \<and> (\<forall>i \<in> used_set m. key_at m' i = key_at m i)"

lemma put_keeps_slots:
  assumes inv: "hm_inv m" and put: "hashmap_put m k a = Some m'" and cap: "hm_capacity m' = hm_capacity m"
  shows "slots_kept m m'"
proof -
  have "\<not> hashmap_load_factor m > 70"
  proof
    assume "hashmap_load_factor m > 70"
    then obtain m1 where "hashmap_expand m = Some m1" "put_element m1 k a = Some m'"
      using put by (auto simp: hashmap_put_unfold bind_eq_Some_conv)
    then have "hm_capacity m' = 2 * hm_capacity m"
      using hashmap_expand_correct [OF inv] by (auto simp: put_element_def Let_def)
    then show False using cap hm_shapeD(2) [OF hm_invD(2) [OF inv]] by simp
  qed
  then have "put_element m k a = Some m'" using put by (simp add: hashmap_put_unfold)
  then obtain i where "hashmap_indexof m k = Some i" "m' = (let el = (hm_array m ! i)\<lparr>el_value := a\<rparr> in
       if \<not> el_used el
       then m\<lparr>hm_array := (hm_array m)[i := el\<lparr>el_key := k, el_used := True\<rparr>],
              hm_size := hm_size m + 1\<rparr>
       else m\<lparr>hm_array := (hm_array m)[i := el]\<rparr>)" by (auto simp: put_element_def)
  moreover have "(hm_array m)[i := e] ! j = (if i = j then e else hm_array m ! j)" if "j < hm_capacity m" for e j
    using that hm_shapeD(1) [OF hm_invD(2) [OF inv]] by (cases "i = j") simp_all
  ultimately show ?thesis by (auto simp: slots_kept_def used_set_def Let_def split: if_splits)
qed

lemma cstep_keeps_slots:
  assumes "cstep task n s s'" and "cinv B task n own s"
    and "hm_capacity (the (arp_cache (fst s'))) = hm_capacity (the (arp_cache (fst s)))"
  shows "slots_kept (the (arp_cache (fst s))) (the (arp_cache (fst s'))) \<and>
    length (arp_cells (fst s)) \<le> length (arp_cells (fst s'))"
  using assms
proof (induction rule: cstep.induct)
  case (put t pc k a w m)
  have "hm_inv (the (arp_cache w))" using cinvD(2) [OF put(4)] by (auto simp: map_ok_def)
  from put_keeps_slots [OF this put(3)] put(5) show ?case by simp
qed (simp_all add: slots_kept_def)

lemma hand_ok_mono:
  assumes "hand_ok own w ks cs ph" and "own \<subseteq>\<^sub>m own'" and "slots_kept (the (arp_cache w)) (the (arp_cache w'))"
    and "length (arp_cells w) \<le> length (arp_cells w')"
  shows "hand_ok own' w' ks cs ph"
proof -
  have own: "map own' as = map Some ls" if "map own as = map Some ls" for as ls
  proof -
    have "own a \<noteq> None" if "a \<in> set as" for a
      using that \<open>map own as = map Some ls\<close> by (metis image_iff list.set_map option.distinct(1))
    then have "map own' as = map own as" using assms(2) by (auto simp: map_le_def dom_def)
    with that show ?thesis by simp
  qed
  have freed: "freed_in (the (arp_cache w')) ks p" if "freed_in (the (arp_cache w)) ks p" for p
    using that assms(3) unfolding freed_in_def slots_kept_def by fastforce
  have pair: "at_pair own' w' ks key cell it" if "at_pair own w ks key cell it" for key cell it
    using that freed assms(2-4) by (auto simp: at_pair_def Let_def slots_kept_def valid_cell_def map_le_def dom_def)
  show ?thesis using assms(1) own [of "cs @ [_]"] own [of cs] freed pair by (cases ph) auto
qed

lemma einv_thread:
  assumes step: "cstep task n (ex_w s, ex_mutex s, ex_pc s) (w, mx, pc)" and inv: "einv task n s"
    and cap: "hm_capacity (the (arp_cache w)) = hm_capacity (the (arp_cache (ex_w s)))"
  shows "einv task n (s\<lparr> ex_w := w, ex_mutex := mx, ex_pc := pc \<rparr>)"
proof -
  obtain own where own: "cinv (\<lambda>k i. UNIV) task n own (ex_w s, ex_mutex s, ex_pc s)"
    "hand_ok own (ex_w s) (ex_keys s) (ex_cells s) (ex_phase s)" "distinct (ex_keys s)" using inv by (auto simp: einv_def)
  have "allowed (\<lambda>k i. UNIV) task n" by (simp add: allowed_def)
  then obtain own' where own': "own \<subseteq>\<^sub>m own'" "cinv (\<lambda>k i. UNIV) task n own' (w, mx, pc)"
    using cinv_step [OF step own(1)] by blast
  have "hand_ok own' w (ex_keys s) (ex_cells s) (ex_phase s)"
    using cstep_keeps_slots [OF step own(1)] cap by (intro hand_ok_mono [OF own(2) own'(1)]) simp_all
  with own' own(3) show ?thesis by (auto simp: einv_def)
qed

lemma cinv_emit [simp]: "cinv B task n own (emit es w, mx, pc) = cinv B task n own (w, mx, pc)"
proof -
  have "phase_ok own (emit es w) mx t tk ph = phase_ok own w mx t tk ph" for t tk ph
    by (cases ph) (simp_all add: emit_def known_key_def valid_cell_def)
  then show ?thesis
    by (simp add: cinv_def map_ok_def bytes_ok_def valid_cell_def net_ok_def tun_ok_def emit_def)
qed

lemma at_pair_emit [simp]: "at_pair own (emit es w) ks key cell it = at_pair own w ks key cell it"
  by (simp add: emit_def at_pair_def valid_cell_def)

lemma hand_ok_emit [simp]: "hand_ok own (emit es w) ks cs ph = hand_ok own w ks cs ph"
proof -
  have "arp_cache (emit es w) = arp_cache w" by (simp add: emit_def)
  then show ?thesis by (cases ph) simp_all
qed

lemma pair_new:
  assumes "hm_inv m" "hm_equals m = arp_equals" and "freed_in m ks i" "i \<in> used_set m"
  shows "key_word (key_at m i) \<notin> set ks"
proof
  assume "key_word (key_at m i) \<in> set ks"
  then obtain j where j: "j < i" "j \<in> used_set m" "key_word (key_at m j) = key_word (key_at m i)"
    using assms(3) by (auto simp: freed_in_def)
  then have "j = i" using assms(1,2,4) by (simp add: hm_inv_def arp_equals_def)
  with j(1) show False by simp
qed

lemma cell_new: "map own cs = map Some ks \<Longrightarrow> own a = Some k \<Longrightarrow> k \<notin> set ks \<Longrightarrow> a \<notin> set cs"
  by (metis image_eqI image_iff list.set_map option.inject)

text \<open>The pair that the handler has read is not freed yet.\<close>

lemma pair_freed:
  assumes ok: "map_ok own w" and pair: "at_pair own w ks key cell it" and cs: "map own cs = map Some ks"
  shows "key_word key \<notin> set ks" "cell \<notin> set cs" "key \<in> range HeapKey" "0 < cell" "cell \<le> length (arp_cells w)"
    "own cell = Some (key_word key)" "freed_in (the (arp_cache w)) (ks @ [key_word key]) (it_pos it)"
proof -
  let ?m = "the (arp_cache w)"
  have m: "hm_inv ?m" "hm_equals ?m = arp_equals" "stored_keys ?m \<subseteq> range HeapKey" using ok by (auto simp: map_ok_def)
  have p: "it_consumed it" "it_index it \<in> used_set ?m" "key_at ?m (it_index it) = key" "freed_in ?m ks (it_index it)"
    "valid_cell own w (key_word key) cell" using pair by (simp_all add: at_pair_def Let_def)
  show k: "key_word key \<notin> set ks" using pair_new [OF m(1,2) p(4,2)] p(3) by simp
  show c: "0 < cell" "cell \<le> length (arp_cells w)" "own cell = Some (key_word key)" using p(5) by (simp_all add: valid_cell_def)
  show "cell \<notin> set cs" by (rule cell_new [OF cs c(3) k])
  show "key \<in> range HeapKey" using m(3) p(2,3) by (auto simp: stored_keys_def)
  show "freed_in ?m (ks @ [key_word key]) (it_pos it)"
    using p(1-4) by (auto simp: freed_in_def it_pos_def less_Suc_eq)
qed

text \<open>The loop head: the iterator comes to the next used element, or to the end.\<close>

lemma loop_step:
  assumes inv: "hm_inv m" and m: "arp_cache (ex_w s) = Some m" and ok: "map_ok own (ex_w s)"
    and free: "ex_mutex s = None" and freed: "freed_in m (ex_keys s) (it_pos it)"
  shows "exit_exec (Some b) (ELoop it) s = s\<lparr> ex_phase := EFree \<rparr> \<or>
    (\<exists>key cell it'. exit_exec (Some b) (ELoop it) s = s\<lparr> ex_phase := EFound key cell it' \<rparr> \<and>
       at_pair own (ex_w s) (ex_keys s) key cell it')"
proof -
  let ?it = "it\<lparr> it_map := Some m \<rparr>"
  have it: "it_map ?it = Some m" "it_pos ?it = it_pos it" by (simp_all add: it_pos_def)
  consider (over) "hm_capacity m \<le> it_index ?it" | (none) "it_index ?it < hm_capacity m" "used_from m (it_pos ?it) = []"
    | (some) j js where "it_index ?it < hm_capacity m" "used_from m (it_pos ?it) = j # js"
    by (metis list.exhaust not_le)
  then show ?thesis
  proof cases
    case over
    then show ?thesis using it_exhausted [OF it(1) over] m free by (simp add: read_map_def)
  next
    case none
    then show ?thesis using it_next_none(2) [OF it(1) none] m free by (simp add: read_map_def)
  next
    case (some j js)
    note j = used_from_skip [OF some(2)]
    let ?it1 = "?it\<lparr>it_index := j, it_consumed := False\<rparr>"
    let ?it2 = "?it1\<lparr>it_index := j, it_consumed := True\<rparr>"
    have pos: "it_map ?it1 = Some m" "it_index ?it1 < hm_capacity m" "used_from m (it_pos ?it1) = j # js"
      using j by (auto simp: it_pos_def used_from_Cons)
    have run: "exit_exec (Some b) (ELoop it) s = s\<lparr> ex_phase := EFound (fst (entry m j)) (snd (entry m j)) ?it2 \<rparr>"
      using m free it_next_some(2) [OF it(1) some] it_next_some(1) [OF pos] by (simp add: read_map_def split_beta)
    have "j \<in> set (used_from m (it_pos ?it))" using some(2) by simp
    then have ge: "it_pos it \<le> j" and us: "j \<in> set (used_from m 0)" by (auto simp: used_from_def it(2))
    have "valid_cell own (ex_w s) (key_word (fst (entry m j))) (snd (entry m j))"
      using ok m entry_lookup(1) [OF inv us] by (auto simp: map_ok_def)
    moreover have "freed_in m (ex_keys s) j" using freed ge unfolding freed_in_def by (meson le_trans less_le_trans)
    moreover have "j \<in> used_set m" using us by (simp add: used_from_def used_set_def)
    ultimately have "at_pair own (ex_w s) (ex_keys s) (fst (entry m j)) (snd (entry m j)) ?it2"
      using m by (simp add: at_pair_def entry_def)
    with run show ?thesis by blast
  qed
qed

lemma einv_handler:
  assumes inv: "einv task n s"
  shows "einv task n (exit_exec (Some b) (ex_phase s) s)"
proof -
  obtain own where own: "cinv (\<lambda>k i. UNIV) task n own (ex_w s, ex_mutex s, ex_pc s)"
    "hand_ok own (ex_w s) (ex_keys s) (ex_cells s) (ex_phase s)" and dist: "distinct (ex_keys s)"
    using inv by (auto simp: einv_def)
  have ok: "map_ok own (ex_w s)" by (rule cinvD(2) [OF own(1)])
  then obtain m where m: "arp_cache (ex_w s) = Some m" "hm_inv m" "hm_equals m = arp_equals" "stored_keys m \<subseteq> range HeapKey"
    by (auto simp: map_ok_def)
  have einvI: "einv task n s'" if "cinv (\<lambda>k i. UNIV) task n own (ex_w s', ex_mutex s', ex_pc s')"
    "hand_ok own (ex_w s') (ex_keys s') (ex_cells s') (ex_phase s')" "distinct (ex_keys s')" for s'
    using that by (auto simp: einv_def)
  note new = pair_freed [OF ok, where ks = "ex_keys s" and cs = "ex_cells s"]
  show ?thesis
  proof (cases "ex_phase s")
    case (ELoop it)
    show ?thesis
    proof (cases "ex_mutex s")
      case None
      have "freed_in m (ex_keys s) (it_pos it)" using own(2) ELoop m(1) by simp
      from loop_step [OF m(2,1) ok None this, of b] show ?thesis
        unfolding ELoop using own dist ELoop by (auto intro!: einvI)
    next
      case (Some u)
      then show ?thesis using own dist ELoop m(1) by (intro einvI) (simp_all add: read_map_def)
    qed
  next
    case (EFound key cell it)
    with new [of key cell it] own dist show ?thesis by (intro einvI) auto
  next
    case (EKey key cell it)
    with new [of key cell it] own dist m(1) show ?thesis by (intro einvI) auto
  next
    case (ECell cell it)
    then have "distinct (map own (ex_cells s @ [cell]))" using own(2) dist by (simp add: distinct_map)
    then have "cell \<notin> set (ex_cells s)" unfolding distinct_map by simp
    with ECell own dist show ?thesis by (intro einvI) simp_all
  qed (use own dist m(1) in \<open>auto intro!: einvI simp: read_map_def freed_in_def hashmap_it_set_map_def\<close>)
qed

section \<open>Runs in which the map does not grow\<close>

definition fixed_step :: "bool option \<Rightarrow> (nat \<Rightarrow> cache_task) \<Rightarrow> nat \<Rightarrow> exit_state \<Rightarrow> exit_state \<Rightarrow> bool" where
  "fixed_step oob task n s s' \<longleftrightarrow> estep oob task n s s' \<and>
     hm_capacity (the (arp_cache (ex_w s'))) = hm_capacity (the (arp_cache (ex_w s)))"

lemma einv_step: "estep (Some b) task n s s' \<Longrightarrow> einv task n s \<Longrightarrow>
  hm_capacity (the (arp_cache (ex_w s'))) = hm_capacity (the (arp_cache (ex_w s))) \<Longrightarrow> einv task n s'"
proof (induction rule: estep.induct)
  case (thread s w mx pc t)
  from einv_thread [OF thread(1,5)] thread(6) show ?case by simp
next
  case (fault t s)
  then show ?case by (simp add: einv_def)
next
  case (handler s)
  from einv_handler [OF handler(2)] show ?case .
qed

interpretation ek: kept_by_steps "fixed_step (Some b) task n" "einv task n" for b task n
  by unfold_locales (auto simp: fixed_step_def intro: einv_step)

lemma einv_start:
  assumes "arp_ok w"
  shows "einv task n (exit_start w)"
proof -
  have "for_keys (\<lambda>pro ip i b. True) = (\<lambda>k i. UNIV)" by (simp add: for_keys_def fun_eq_iff)
  with cinv_start [OF assms, where P = "\<lambda>pro ip i b. True" and task = task and n = n] show ?thesis
    by (simp add: einv_def exit_start_def)
qed

lemma einv_once:
  assumes "einv task n s"
  shows "arp_ok (ex_w s) \<and> distinct (ex_keys s) \<and> distinct (ex_cells s) \<and> ex_phase s \<noteq> EBad"
proof -
  obtain own where own: "cinv (\<lambda>k i. UNIV) task n own (ex_w s, ex_mutex s, ex_pc s)"
    "hand_ok own (ex_w s) (ex_keys s) (ex_cells s) (ex_phase s)" and d: "distinct (ex_keys s)"
    using assms by (auto simp: einv_def)
  have d': "distinct (map Some (ex_keys s))" using d by (simp add: distinct_map)
  have "distinct (map own (ex_cells s))"
  proof (cases "ex_phase s")
    case (ECell cell it)
    then have "map own (ex_cells s @ [cell]) = map Some (ex_keys s)" using own(2) by simp
    then show ?thesis using d' by (metis distinct_append map_append)
  qed (use own(2) d' in auto)
  then show ?thesis using own d cinv_arp_ok [OF own(1)] by (auto simp: distinct_map)
qed

lemma exit_exec_cache: "arp_cache (ex_w (exit_exec oob ph s)) = arp_cache (ex_w s)"
  by (cases ph) (auto simp: read_map_def emit_def split: option.splits sum.splits)

lemma lone_fixed: "(lone oob)\<^sup>*\<^sup>* s s' \<Longrightarrow> (fixed_step oob task n)\<^sup>*\<^sup>* s s'"
  by (erule rtranclp_mono [THEN predicate2D, rotated])
     (auto simp: lone_def fixed_step_def exit_exec_cache intro: estep.handler)

lemma freed_cells:
  assumes "arp_ok w" and "arp_destroy (Some b) w = Inr (freed, array, w')" and "cell_of w k = Some a"
  shows "(HeapKey k, a) \<in> set freed"
proof -
  obtain m where m: "arp_cache w = Some m" "cache_ok m (arp_cells w)" using assms(1) by (rule arp_okE)
  have "freed = map (entry m) (used_from m 0)" using arp_destroy_entries [OF m, of b] assms(2) by simp
  then show ?thesis using cache_entries(4) [OF m(2), of k a] assms(3) m(1) by (simp add: cell_of_def)
qed

section \<open>Properties\<close>



text \<open>
  C38. \<^verbatim>\<open>exit\<close> frees memory in use: when a thread of the stack looks up a known host, it can have fetched the
  pointer to the hardware address when another thread calls \<^verbatim>\<open>exit\<close>; the handler then runs through (it does
  what \<^verbatim>\<open>arp_destroy\<close> does on its own), and the thread reads or writes the freed block.
\<close>

theorem exit_frees_cache_in_use:
  assumes "arp_ok w" and "t < n" and "arp_table w (task_pro (task t), task_ip (task t)) \<noteq> None"
  shows "\<exists>s freed array a. (estep (Some b) task n)\<^sup>*\<^sup>* (exit_start w) s \<and> ex_phase s = EGone \<and>
    arp_destroy (Some b) w = Inr (freed, array, ex_w s) \<and> ex_keys s = map (key_word \<circ> fst) freed \<and> ex_cells s = map snd freed \<and>
    t \<in> ex_faults s \<and> ex_pc s t \<in> {CGot a 0, CResolved a} \<and> a \<in> set (ex_cells s)"
proof -
  obtain a where a: "cell_of w (task_key (task t)) = Some a"
    using assms(3) table_cell [OF assms(1)] by (auto simp: task_key_def)
  have pos: "0 < a" using cell_of_bounds [OF assms(1) a] by simp
  let ?pc = "(\<lambda>t. CStart)(t := after_get (task t) a)"
  let ?s1 = "(exit_start w)\<lparr> ex_pc := ?pc \<rparr>"
  have "(cstep task n)\<^sup>*\<^sup>* (w, None, \<lambda>t. CStart) (w, None, ?pc)"
    using get_alone [where pc = "\<lambda>t. CStart" and task = task, OF assms(1,2) _ a] by simp
  from threads_estep [OF this, of "exit_start w" "Some b"]
  have 1: "(estep (Some b) task n)\<^sup>*\<^sup>* (exit_start w) ?s1" by (simp add: exit_start_def)
  obtain freed array w' where d: "arp_destroy (Some b) w = Inr (freed, array, w')"
    and run: "(lone (Some b))\<^sup>*\<^sup>* ?s1 (?s1\<lparr> ex_w := w', ex_keys := map (key_word \<circ> fst) freed, ex_cells := map snd freed,
      ex_map := True, ex_phase := EGone \<rparr>)" (is "rtranclp _ _ ?s2")
    using lone_handler [of ?s1 b] assms(1) by (auto simp: exit_start_def)
  have "a \<in> set (map snd freed)" using freed_cells [OF assms(1) d a] by force
  then have "uses_freed task ?s2 t" using pos by (cases "task t") (simp_all add: uses_freed_def)
  then have "estep (Some b) task n ?s2 (?s2\<lparr> ex_faults := insert t (ex_faults ?s2) \<rparr>)"
    using assms(2) pos by (intro estep.fault; cases "task t") (simp_all add: waits_def exit_start_def)
  with 1 lone_estep [OF run] have "(estep (Some b) task n)\<^sup>*\<^sup>* (exit_start w) (?s2\<lparr> ex_faults := insert t (ex_faults ?s2) \<rparr>)"
    by (meson rtranclp.rtrancl_into_rtrancl rtranclp_trans)
  with d \<open>a \<in> set (map snd freed)\<close> pos show ?thesis
    by (intro exI [of _ "?s2\<lparr> ex_faults := insert t (ex_faults ?s2) \<rparr>"] exI [of _ freed] exI [of _ array] exI [of _ a]; cases "task t") simp_all
qed

theorem exit_frees_cache_in_use_witness:
  "\<exists>w s. arp_ok w \<and> (estep (Some False) (\<lambda>t. Resolve (u32_of 10 0 0 1)) 10)\<^sup>*\<^sup>* (exit_start w) s \<and> 3 \<in> ex_faults s"
proof -
  obtain w :: arp_state where w: "arp_ok w" "arp_table w = [(ARP_IPV4, u32_of 10 0 0 1) \<mapsto> MAC 2 0 0 0 0 1]"
    using sample_known_host by blast
  then show ?thesis
    using exit_frees_cache_in_use [OF w(1), where t = 3 and n = 10 and task = "\<lambda>t. Resolve (u32_of 10 0 0 1)" and b = False]
    by auto
qed

end
