(* ===== verification/Linked_List.thy ===== *)
theory Linked_List
  imports Net_Prelude
begin

text \<open>
  The doubly linked list of \<^verbatim>\<open>collections/linked_list.c\<close>.  Nodes and list heads live in a memory of
  cells reached through addresses, so that lists can share nodes and pointers can dangle: \<open>None\<close> is
  \<^verbatim>\<open>NULL\<close>, a freed cell is absent, and an access to an absent cell stops the run.  \<^verbatim>\<open>malloc\<close> returns a
  fresh address; the program sets every field of a new cell before it reads it.
\<close>

type_synonym addr = nat

record 'c node =
  n_content :: 'c
  n_next :: "addr option"
  n_prev :: "addr option"

record linked_list =
  ll_size :: int
  ll_head :: "addr option"
  ll_tail :: "addr option"

record 'c ll_mem =
  ll_nodes :: "addr \<Rightarrow> 'c node option"
  ll_lists :: "addr \<Rightarrow> linked_list option"
  ll_fresh :: addr

section \<open>Accesses to the cells\<close>

definition assert_run :: "'w \<Rightarrow> bool \<Rightarrow> ('w, unit) run" where
  "assert_run w b = (if b then Inr () else Inl (AssertFail w))"

definition get_node :: "'c ll_mem \<Rightarrow> addr option \<Rightarrow> ('c ll_mem, 'c node) run" where
  "get_node m p = (case Option.bind p (ll_nodes m) of
     None \<Rightarrow> Inl (OutOfBounds m) | Some n \<Rightarrow> Inr n)"

definition upd_node ::
  "'c ll_mem \<Rightarrow> addr option \<Rightarrow> ('c node \<Rightarrow> 'c node) \<Rightarrow> ('c ll_mem, 'c ll_mem) run" where
  "upd_node m p f = bind_run (get_node m p) (\<lambda>n.
     Inr (m\<lparr>ll_nodes := (ll_nodes m)(the p \<mapsto> f n)\<rparr>))"

definition free_node :: "'c ll_mem \<Rightarrow> addr option \<Rightarrow> ('c ll_mem, 'c ll_mem) run" where
  "free_node m p = bind_run (get_node m p) (\<lambda>_. Inr (m\<lparr>ll_nodes := (ll_nodes m)(the p := None)\<rparr>))"

definition alloc_node :: "'c ll_mem \<Rightarrow> 'c node \<Rightarrow> addr option \<times> 'c ll_mem" where
  "alloc_node m n = (Some (ll_fresh m),
     m\<lparr>ll_nodes := (ll_nodes m)(ll_fresh m \<mapsto> n), ll_fresh := ll_fresh m + 1\<rparr>)"

definition get_list :: "'c ll_mem \<Rightarrow> addr option \<Rightarrow> ('c ll_mem, linked_list) run" where
  "get_list m p = (case Option.bind p (ll_lists m) of
     None \<Rightarrow> Inl (OutOfBounds m) | Some l \<Rightarrow> Inr l)"

definition upd_list ::
  "'c ll_mem \<Rightarrow> addr option \<Rightarrow> (linked_list \<Rightarrow> linked_list) \<Rightarrow> ('c ll_mem, 'c ll_mem) run" where
  "upd_list m p f = bind_run (get_list m p) (\<lambda>l.
     Inr (m\<lparr>ll_lists := (ll_lists m)(the p \<mapsto> f l)\<rparr>))"

section \<open>Operations\<close>

definition linked_list_alloc :: "'c ll_mem \<Rightarrow> addr option \<times> 'c ll_mem" where
  "linked_list_alloc m = (Some (ll_fresh m),
     m\<lparr>ll_lists := (ll_lists m)(ll_fresh m \<mapsto> \<lparr>ll_size = 0, ll_head = None, ll_tail = None\<rparr>),
       ll_fresh := ll_fresh m + 1\<rparr>)"

definition linked_list_is_empty :: "'c ll_mem \<Rightarrow> addr option \<Rightarrow> ('c ll_mem, bool) run" where
  "linked_list_is_empty m lst = bind_run (assert_run m (lst \<noteq> None)) (\<lambda>_.
     bind_run (get_list m lst) (\<lambda>l. Inr (ll_size l = 0)))"

definition linked_list_size :: "'c ll_mem \<Rightarrow> addr option \<Rightarrow> ('c ll_mem, int) run" where
  "linked_list_size m lst = bind_run (assert_run m (lst \<noteq> None)) (\<lambda>_.
     bind_run (get_list m lst) (\<lambda>l. Inr (ll_size l)))"

definition linked_list_pop_tail :: "'c ll_mem \<Rightarrow> addr option \<Rightarrow> ('c ll_mem, 'c \<times> 'c ll_mem) run" where
  "linked_list_pop_tail m lst =
     bind_run (assert_run m (lst \<noteq> None)) (\<lambda>_.
     bind_run (linked_list_is_empty m lst) (\<lambda>e. bind_run (assert_run m (\<not> e)) (\<lambda>_.
     bind_run (get_list m lst) (\<lambda>l.
     bind_run (get_node m (ll_tail l)) (\<lambda>t.
     let new_tail = n_prev t; content = n_content t in
     bind_run (free_node m (ll_tail l)) (\<lambda>m.
     bind_run (if new_tail \<noteq> None then upd_node m new_tail (n_next_update (\<lambda>_. None)) else Inr m) (\<lambda>m.
     bind_run (upd_list m lst (ll_tail_update (\<lambda>_. new_tail))) (\<lambda>m.
     bind_run (upd_list m lst (ll_size_update (\<lambda>n. wrap64 (n - 1)))) (\<lambda>m.
     bind_run (get_list m lst) (\<lambda>l.
     bind_run (if ll_size l = 0 then upd_list m lst (ll_head_update (\<lambda>_. None)) else Inr m) (\<lambda>m.
     Inr (content, m))))))))))))"

definition linked_list_push_tail :: "'c ll_mem \<Rightarrow> addr option \<Rightarrow> 'c \<Rightarrow> ('c ll_mem, 'c ll_mem) run" where
  "linked_list_push_tail m lst content =
     bind_run (assert_run m (lst \<noteq> None)) (\<lambda>_.
     bind_run (get_list m lst) (\<lambda>l.
     let (new_tail, m) = alloc_node m \<lparr>n_content = content, n_next = None, n_prev = ll_tail l\<rparr> in
     bind_run (if ll_tail l \<noteq> None then upd_node m (ll_tail l) (n_next_update (\<lambda>_. new_tail)) else Inr m) (\<lambda>m.
     bind_run (if ll_head l = None then upd_list m lst (ll_head_update (\<lambda>_. new_tail)) else Inr m) (\<lambda>m.
     bind_run (upd_list m lst (ll_tail_update (\<lambda>_. new_tail))) (\<lambda>m.
     upd_list m lst (ll_size_update (\<lambda>n. wrap64 (n + 1))))))))"

definition linked_list_pop_head :: "'c ll_mem \<Rightarrow> addr option \<Rightarrow> ('c ll_mem, 'c \<times> 'c ll_mem) run" where
  "linked_list_pop_head m lst =
     bind_run (assert_run m (lst \<noteq> None)) (\<lambda>_.
     bind_run (linked_list_is_empty m lst) (\<lambda>e. bind_run (assert_run m (\<not> e)) (\<lambda>_.
     bind_run (get_list m lst) (\<lambda>l.
     bind_run (get_node m (ll_head l)) (\<lambda>h.
     let new_head = n_next h; content = n_content h in
     bind_run (free_node m (ll_head l)) (\<lambda>m.
     bind_run (if new_head \<noteq> None then upd_node m new_head (n_prev_update (\<lambda>_. None)) else Inr m) (\<lambda>m.
     bind_run (upd_list m lst (ll_head_update (\<lambda>_. new_head))) (\<lambda>m.
     bind_run (upd_list m lst (ll_size_update (\<lambda>n. wrap64 (n - 1)))) (\<lambda>m.
     bind_run (get_list m lst) (\<lambda>l.
     bind_run (if ll_size l = 0 then upd_list m lst (ll_tail_update (\<lambda>_. None)) else Inr m) (\<lambda>m.
     Inr (content, m))))))))))))"

definition linked_list_push_head :: "'c ll_mem \<Rightarrow> addr option \<Rightarrow> 'c \<Rightarrow> ('c ll_mem, 'c ll_mem) run" where
  "linked_list_push_head m lst content =
     bind_run (assert_run m (lst \<noteq> None)) (\<lambda>_.
     bind_run (get_list m lst) (\<lambda>l.
     let (new_head, m) = alloc_node m \<lparr>n_content = content, n_next = ll_head l, n_prev = None\<rparr> in
     bind_run (if ll_head l \<noteq> None then upd_node m (ll_head l) (n_prev_update (\<lambda>_. new_head)) else Inr m) (\<lambda>m.
     bind_run (if ll_tail l = None then upd_list m lst (ll_tail_update (\<lambda>_. new_head)) else Inr m) (\<lambda>m.
     bind_run (upd_list m lst (ll_head_update (\<lambda>_. new_head))) (\<lambda>m.
     upd_list m lst (ll_size_update (\<lambda>n. wrap64 (n + 1))))))))"

definition linked_list_concat ::
  "'c ll_mem \<Rightarrow> addr option \<Rightarrow> addr option \<Rightarrow> ('c ll_mem, 'c ll_mem) run" where
  "linked_list_concat m a b =
     bind_run (assert_run m (a \<noteq> None \<and> b \<noteq> None)) (\<lambda>_.
     bind_run (linked_list_is_empty m a) (\<lambda>empty_a.
     if empty_a then bind_run (get_list m b) (\<lambda>lb. upd_list m a (\<lambda>_. lb))
     else bind_run (linked_list_is_empty m b) (\<lambda>empty_b.
       if \<not> empty_b then
         bind_run (get_list m a) (\<lambda>la. bind_run (get_list m b) (\<lambda>lb.
         bind_run (upd_node m (ll_tail la) (n_next_update (\<lambda>_. ll_head lb))) (\<lambda>m.
         bind_run (upd_list m a (ll_size_update (\<lambda>n. wrap64 (n + ll_size lb)))) (\<lambda>m.
         bind_run (get_list m b) (\<lambda>lb. upd_list m a (ll_tail_update (\<lambda>_. ll_tail lb)))))))
       else Inr m)))"

text \<open>
  \<^verbatim>\<open>free_linked_list\<close> calls a function \<^verbatim>\<open>linked_list_pop\<close> that the sources do not define; it is the
  parameter \<open>pop\<close>.  A loop that does not end is \<open>None\<close>.
\<close>

partial_function (option) free_loop ::
  "('c ll_mem \<Rightarrow> addr option \<Rightarrow> ('c ll_mem, 'c \<times> 'c ll_mem) run) \<Rightarrow> 'c ll_mem \<Rightarrow> addr option
    \<Rightarrow> ('c ll_mem, 'c ll_mem) run option" where
  "free_loop pop m lst = (case linked_list_is_empty m lst of
     Inl e \<Rightarrow> Some (Inl e)
   | Inr e \<Rightarrow> if e then Some (Inr m)
       else (case pop m lst of Inl e \<Rightarrow> Some (Inl e) | Inr (_, m) \<Rightarrow> free_loop pop m lst))"

definition free_linked_list ::
  "('c ll_mem \<Rightarrow> addr option \<Rightarrow> ('c ll_mem, 'c \<times> 'c ll_mem) run) \<Rightarrow> 'c ll_mem \<Rightarrow> addr option
    \<Rightarrow> ('c ll_mem, 'c ll_mem) run" where
  "free_linked_list pop m lst =
     bind_run (assert_run m (lst \<noteq> None)) (\<lambda>_.
     bind_run (bind_run (returning m (free_loop pop m lst)) id) (\<lambda>m.
     bind_run (get_list m lst) (\<lambda>_. Inr (m\<lparr>ll_lists := (ll_lists m)(the lst := None)\<rparr>))))"

section \<open>The iterator\<close>

text \<open>
  An iterator is passed by value and returned updated, so \<^verbatim>\<open>assert(it != NULL)\<close> holds.  \<open>it_list\<close> of
  a new iterator is uninitialised memory, the argument of \<open>linked_list_it_alloc\<close>.  The argument
  \<open>out\<close> is the cell behind \<^verbatim>\<open>content\<close>, \<open>None\<close> if \<^verbatim>\<open>content\<close> is \<^verbatim>\<open>NULL\<close>.
\<close>

record linked_list_iterator =
  lit_consumed :: bool
  lit_cursor :: "addr option"
  lit_list :: "addr option"

definition linked_list_it_alloc :: "addr option \<Rightarrow> linked_list_iterator" where
  "linked_list_it_alloc garbage = \<lparr>lit_consumed = False, lit_cursor = None, lit_list = garbage\<rparr>"

definition linked_list_it_reset ::
  "'c ll_mem \<Rightarrow> linked_list_iterator \<Rightarrow> ('c ll_mem, linked_list_iterator) run" where
  "linked_list_it_reset m it = bind_run (get_list m (lit_list it)) (\<lambda>l.
     Inr (it\<lparr>lit_consumed := False, lit_cursor := ll_head l\<rparr>))"

definition linked_list_it_set_list ::
  "'c ll_mem \<Rightarrow> linked_list_iterator \<Rightarrow> addr option \<Rightarrow> ('c ll_mem, linked_list_iterator) run" where
  "linked_list_it_set_list m it lst =
     bind_run (assert_run m (lst \<noteq> None)) (\<lambda>_.
     bind_run (get_list m lst) (\<lambda>l.
     linked_list_it_reset m (it\<lparr>lit_list := lst, lit_cursor := ll_head l\<rparr>)))"

text \<open>What the iterator functions start with when the cursor is not \<^verbatim>\<open>NULL\<close>.\<close>

definition it_advance ::
  "'c ll_mem \<Rightarrow> linked_list_iterator \<Rightarrow> ('c ll_mem, linked_list_iterator) run" where
  "it_advance m it =
     (if lit_consumed it
      then bind_run (get_node m (lit_cursor it)) (\<lambda>n. Inr (it\<lparr>lit_consumed := False, lit_cursor := n_next n\<rparr>))
      else Inr it)"

definition linked_list_it_has_next ::
  "'c ll_mem \<Rightarrow> linked_list_iterator \<Rightarrow> ('c ll_mem, bool \<times> linked_list_iterator) run" where
  "linked_list_it_has_next m it =
     (if lit_cursor it = None then Inr (False, it)
      else bind_run (it_advance m it) (\<lambda>it. Inr (lit_cursor it \<noteq> None, it)))"

definition linked_list_it_remove ::
  "'c ll_mem \<Rightarrow> linked_list_iterator \<Rightarrow> ('c ll_mem, bool \<times> linked_list_iterator \<times> 'c ll_mem) run" where
  "linked_list_it_remove m it =
     (if lit_cursor it = None then Inr (False, it, m)
      else bind_run (it_advance m it) (\<lambda>it.
        if lit_cursor it = None then Inr (False, it, m)
        else bind_run (get_node m (lit_cursor it)) (\<lambda>c.
          bind_run (if n_prev c \<noteq> None then upd_node m (n_prev c) (n_next_update (\<lambda>_. n_next c))
                    else upd_list m (lit_list it) (ll_head_update (\<lambda>_. n_next c))) (\<lambda>m.
          bind_run (get_node m (lit_cursor it)) (\<lambda>c.
          bind_run (if n_next c = None then upd_list m (lit_list it) (ll_tail_update (\<lambda>_. n_prev c)) else Inr m) (\<lambda>m.
          bind_run (free_node m (lit_cursor it)) (\<lambda>m.
          Inr (True, it\<lparr>lit_cursor := n_prev c, lit_consumed := True\<rparr>, m))))))))"

definition linked_list_it_next ::
  "'c ll_mem \<Rightarrow> linked_list_iterator \<Rightarrow> 'c option
    \<Rightarrow> ('c ll_mem, bool \<times> 'c option \<times> linked_list_iterator) run" where
  "linked_list_it_next m it out =
     (if lit_cursor it = None then Inr (False, out, it)
      else bind_run (it_advance m it) (\<lambda>it.
        if lit_cursor it = None then Inr (False, out, it)
        else bind_run (get_node m (lit_cursor it)) (\<lambda>c.
          Inr (True, map_option (\<lambda>_. n_content c) out, it\<lparr>lit_consumed := True\<rparr>))))"

text \<open>The loop of \<^verbatim>\<open>linked_list_it_skip\<close>, run while \<^verbatim>\<open>n > 0\<close>; the result is \<^verbatim>\<open>n == 0\<close>.\<close>

fun it_skip_loop ::
  "'c ll_mem \<Rightarrow> linked_list_iterator \<Rightarrow> 'c option \<Rightarrow> nat
    \<Rightarrow> ('c ll_mem, bool \<times> 'c option \<times> linked_list_iterator) run" where
  "it_skip_loop m it out 0 = Inr (True, out, it)"
| "it_skip_loop m it out (Suc n) =
     bind_run (linked_list_it_has_next m it) (\<lambda>(more, it).
       if more
       then bind_run (linked_list_it_next m it out) (\<lambda>(_, out, it). it_skip_loop m it out n)
       else Inr (False, out, it))"

definition linked_list_it_skip ::
  "'c ll_mem \<Rightarrow> linked_list_iterator \<Rightarrow> 'c option \<Rightarrow> int
    \<Rightarrow> ('c ll_mem, bool \<times> 'c option \<times> linked_list_iterator) run" where
  "linked_list_it_skip m it out n = (if n < 0 then Inr (False, out, it) else it_skip_loop m it out (nat n))"

end
