(* ===== verification/Linked_List_Correct.thy ===== *)
theory Linked_List_Correct
  imports Linked_List
begin

text \<open>
  Correctness of the linked list: the memory holds several lists with nodes of their own, and the
  four operations at the ends refine those of double-ended queues.
\<close>

lemmas cell_defs = assert_run_def get_node_def upd_node_def free_node_def alloc_node_def get_list_def upd_list_def

section \<open>Segments of doubly linked nodes\<close>

text \<open>
  \<open>dseg h p f ys l n\<close>: the nodes \<open>ys\<close>, given by address and content, follow each other in \<open>h\<close> from \<open>f\<close>
  on; the first has \<open>p\<close> before it, the pointer after the last is \<open>n\<close>, and \<open>l\<close> points to the last.
\<close>

fun dseg ::
  "(addr \<Rightarrow> 'c node option) \<Rightarrow> addr option \<Rightarrow> addr option \<Rightarrow> (addr \<times> 'c) list \<Rightarrow> addr option \<Rightarrow> addr option \<Rightarrow> bool" where
  "dseg h p f [] l n \<longleftrightarrow> f = n \<and> p = l"
| "dseg h p f ((a, x) # ys) l n \<longleftrightarrow> f = Some a \<and> (case h a of None \<Rightarrow> False
     | Some c \<Rightarrow> n_content c = x \<and> n_prev c = p \<and> dseg h (Some a) (n_next c) ys l n)"

definition addrs :: "(addr \<times> 'c) list \<Rightarrow> addr set" where
  "addrs ys = fst ` set ys"

lemma addrs_simps [simp]:
  "addrs [] = {}" "addrs ((a, x) # ys) = insert a (addrs ys)" "addrs (ys @ zs) = addrs ys \<union> addrs zs"
  "fst ` set ys = addrs ys"
  by (auto simp: addrs_def)

lemma dseg_append:
  "dseg h p f (ys @ zs) l n \<longleftrightarrow> (\<exists>q g. dseg h p f ys q g \<and> dseg h q g zs l n)"
  by (induction h p f ys l n rule: dseg.induct) (auto split: option.splits)

lemma dseg_upd [simp]: "a \<notin> addrs ys \<Longrightarrow> dseg (h(a := v)) p f ys l n = dseg h p f ys l n"
  by (induction h p f ys l n rule: dseg.induct) (auto split: option.splits)

lemma dseg_cong: "(\<And>a. a \<in> addrs ys \<Longrightarrow> h' a = h a) \<Longrightarrow> dseg h' p f ys l n = dseg h p f ys l n"
  by (induction h p f ys l n rule: dseg.induct) (auto split: option.splits)

text \<open>The ends of a list that is not empty: the node, and the segment after or before it.\<close>

lemma dseg_first:
  "dseg h p f ((a, x) # ys) l n \<longleftrightarrow>
   f = Some a \<and> (\<exists>g. h a = Some \<lparr>n_content = x, n_next = g, n_prev = p\<rparr> \<and> dseg h (Some a) g ys l n)"
  by (auto split: option.splits) (metis node.surjective unit.exhaust)

lemma dseg_last:
  "dseg h p f (ys @ [(a, x)]) l n \<longleftrightarrow>
   l = Some a \<and> (\<exists>q. h a = Some \<lparr>n_content = x, n_next = n, n_prev = q\<rparr> \<and> dseg h p f ys q (Some a))"
  unfolding dseg_append dseg_first by auto

lemma dseg_tail_not_null: "dseg h p f ys l n \<Longrightarrow> ys \<noteq> [] \<Longrightarrow> l \<noteq> None"
  by (cases ys rule: rev_cases) (auto simp: dseg_last)

lemma dseg_last_two:
  "dseg h p f (ys @ [(a, x), (b, y)]) l n \<longleftrightarrow>
   l = Some b \<and> (\<exists>q. h b = Some \<lparr>n_content = y, n_next = n, n_prev = q\<rparr> \<and> dseg h p f (ys @ [(a, x)]) q (Some b))"
  using dseg_last [of h p f "ys @ [(a, x)]" b y l n] by simp

section \<open>Memories that hold lists\<close>

definition list_ok :: "(addr \<Rightarrow> 'c node option) \<Rightarrow> linked_list \<Rightarrow> (addr \<times> 'c) list \<Rightarrow> bool" where
  "list_ok h l ys \<longleftrightarrow> ll_size l = int (length ys) \<and> distinct (map fst ys) \<and>
     dseg h None (ll_head l) ys (ll_tail l) None"

text \<open>
  \<open>mem_ok m F\<close>: the lists of the memory are those of \<open>F\<close>, no two share a node, every node belongs
  to one of them, and no cell lies beyond the fresh address.
\<close>

definition mem_ok :: "'c ll_mem \<Rightarrow> (addr \<Rightarrow> (addr \<times> 'c) list option) \<Rightarrow> bool" where
  "mem_ok m F \<longleftrightarrow>
     (\<forall>a ys. F a = Some ys \<longrightarrow> (\<exists>l. ll_lists m a = Some l \<and> list_ok (ll_nodes m) l ys)) \<and>
     (\<forall>a b ys zs. F a = Some ys \<longrightarrow> F b = Some zs \<longrightarrow> a \<noteq> b \<longrightarrow> addrs ys \<inter> addrs zs = {}) \<and>
     dom (ll_nodes m) = (\<Union>ys \<in> ran F. addrs ys) \<and> dom (ll_lists m) = dom F \<and>
     (\<forall>a \<in> dom (ll_nodes m) \<union> dom (ll_lists m). a < ll_fresh m)"

definition lists_ok :: "'c ll_mem \<Rightarrow> (addr \<Rightarrow> 'c list option) \<Rightarrow> bool" where
  "lists_ok m S \<longleftrightarrow> (\<exists>F. mem_ok m F \<and> S = (\<lambda>a. map_option (map snd) (F a)))"

lemma mem_ok_bound: "mem_ok m F \<Longrightarrow> a \<in> dom (ll_nodes m) \<union> dom (ll_lists m) \<Longrightarrow> a < ll_fresh m"
  unfolding mem_ok_def by (elim conjE) (rule bspec)

lemma mem_okD:
  assumes "mem_ok m F" and "F a = Some ys"
  shows mem_ok_list: "\<exists>l. ll_lists m a = Some l \<and> list_ok (ll_nodes m) l ys"
    and mem_ok_disjoint: "\<And>b zs. F b = Some zs \<Longrightarrow> a \<noteq> b \<Longrightarrow> addrs ys \<inter> addrs zs = {}"
    and mem_ok_dom: "addrs ys \<subseteq> dom (ll_nodes m)"
    and mem_ok_fresh: "\<And>b. b \<in> addrs ys \<Longrightarrow> b < ll_fresh m"
proof -
  show "\<exists>l. ll_lists m a = Some l \<and> list_ok (ll_nodes m) l ys"
    "\<And>b zs. F b = Some zs \<Longrightarrow> a \<noteq> b \<Longrightarrow> addrs ys \<inter> addrs zs = {}"
    using assms by (simp_all add: mem_ok_def)
  have "ys \<in> ran F" using assms(2) by (rule ranI)
  then show dom: "addrs ys \<subseteq> dom (ll_nodes m)" using assms(1) by (auto simp: mem_ok_def)
  show "b < ll_fresh m" if "b \<in> addrs ys" for b using that dom mem_ok_bound [OF assms(1)] by blast
qed

lemma ran_upd_Union:
  assumes ok: "mem_ok m F" and a: "F a = Some ys"
  shows "(\<Union>zs \<in> ran (F(a \<mapsto> ys')). addrs zs) = (\<Union>zs \<in> ran F. addrs zs) - addrs ys \<union> addrs ys'"
proof -
  define R where "R = (\<Union>b \<in> dom F - {a}. addrs (the (F b)))"
  have split: "(\<Union>zs \<in> ran (F(a \<mapsto> zs')). addrs zs) = addrs zs' \<union> R" for zs'
    by (auto simp: R_def ran_def split: if_splits)
  have "R \<inter> addrs ys = {}" using mem_ok_disjoint [OF ok a] by (fastforce simp: R_def)
  moreover have "F(a \<mapsto> ys) = F" using a by auto
  ultimately show ?thesis using split [of ys] split [of ys'] by auto
qed

text \<open>
  Every operation replaces the nodes of one list: those of \<open>ys\<close> by those of \<open>ys'\<close>, each of them old
  or fresh, and leaves the other nodes alone.
\<close>

lemma mem_ok_replace:
  assumes ok: "mem_ok m F" and a: "F a = Some ys" and l: "list_ok h l ys'"
    and dom: "dom h = dom (ll_nodes m) - addrs ys \<union> addrs ys'"
    and own: "addrs ys' \<subseteq> addrs ys \<union> {ll_fresh m ..< k}" and k: "ll_fresh m \<le> k"
    and frame: "\<And>b. b \<notin> addrs ys \<union> addrs ys' \<Longrightarrow> h b = ll_nodes m b"
  shows "mem_ok \<lparr>ll_nodes = h, ll_lists = (ll_lists m)(a \<mapsto> l), ll_fresh = k\<rparr> (F(a \<mapsto> ys'))"
proof -
  have old: "b < ll_fresh m" if "b \<in> dom (ll_nodes m) \<union> dom (ll_lists m)" for b
    using mem_ok_bound [OF ok that] .
  have other: "addrs zs \<inter> (addrs ys \<union> addrs ys') = {}" if "F b = Some zs" "a \<noteq> b" for b zs
  proof -
    have "addrs zs \<inter> {ll_fresh m ..< k} = {}" using mem_ok_fresh [OF ok that(1)] by fastforce
    then show ?thesis using mem_ok_disjoint [OF ok a that] own by blast
  qed
  have lists: "\<exists>l'. ((ll_lists m)(a \<mapsto> l)) b = Some l' \<and> list_ok h l' zs"
    if b: "(F(a \<mapsto> ys')) b = Some zs" for b zs
  proof (cases "b = a")
    case False
    with b obtain l' where l': "ll_lists m b = Some l'" "list_ok (ll_nodes m) l' zs"
      using mem_ok_list [OF ok] by fastforce
    moreover have "list_ok h l' zs"
      using l'(2) other [of b zs] False b frame dseg_cong [of zs h "ll_nodes m"]
      unfolding list_ok_def by fastforce
    ultimately show ?thesis using False by simp
  qed (use b l in simp)
  have disj: "addrs ws \<inter> addrs zs = {}"
    if "(F(a \<mapsto> ys')) b = Some ws" "(F(a \<mapsto> ys')) c = Some zs" "b \<noteq> c" for b c ws zs
    using that other mem_ok_disjoint [OF ok] by (fastforce split: if_splits)
  have nodes: "dom h = (\<Union>zs \<in> ran (F(a \<mapsto> ys')). addrs zs)"
    using dom ok ran_upd_Union [OF ok a, of ys'] by (simp add: mem_ok_def)
  have bound: "b < k" if "b \<in> dom h \<union> dom ((ll_lists m)(a \<mapsto> l))" for b
  proof -
    have "a \<in> dom (ll_lists m)" using mem_ok_list [OF ok a] by blast
    moreover have "addrs ys \<subseteq> dom (ll_nodes m)" using mem_ok_dom [OF ok a] .
    ultimately have "b \<in> dom (ll_nodes m) \<union> dom (ll_lists m) \<or> b \<in> {ll_fresh m ..< k}"
      using that own dom by auto
    then show ?thesis using old [of b] k by fastforce
  qed
  have "dom ((ll_lists m)(a \<mapsto> l)) = dom (F(a \<mapsto> ys'))" using ok by (simp add: mem_ok_def)
  then show ?thesis unfolding mem_ok_def using lists disj nodes bound by simp
qed

section \<open>The operations at the ends\<close>

text \<open>The list \<open>a\<close> becomes \<open>ys'\<close>, on nodes \<open>h\<close> and with \<open>k\<close> fresh.\<close>

abbreviation replaced :: "'c ll_mem \<Rightarrow> addr \<Rightarrow> linked_list \<Rightarrow> (addr \<Rightarrow> 'c node option) \<Rightarrow> addr \<Rightarrow> 'c ll_mem" where
  "replaced m a l h k \<equiv> \<lparr>ll_nodes = h, ll_lists = (ll_lists m)(a \<mapsto> l), ll_fresh = k\<rparr>"

lemma push_tail_ok:
  assumes ok: "mem_ok m F" and a: "F a = Some ys" and n: "int (length ys) < 2 ^ 63 - 1"
  shows "\<exists>m'. linked_list_push_tail m (Some a) x = Inr m' \<and> mem_ok m' (F(a \<mapsto> ys @ [(ll_fresh m, x)]))"
proof -
  obtain l where l: "ll_lists m a = Some l" "list_ok (ll_nodes m) l ys" using mem_ok_list [OF ok a] by blast
  let ?k = "ll_fresh m" and ?h = "ll_nodes m"
  let ?l = "\<lparr>ll_size = int (length ys) + 1, ll_head = if ys = [] then Some ?k else ll_head l, ll_tail = Some ?k\<rparr>"
  let ?new = "\<lparr>n_content = x, n_next = None, n_prev = ll_tail l\<rparr>"
  have fresh: "?k \<notin> addrs ys" using mem_ok_fresh [OF ok a] by blast
  have wrap: "wrap64 (int (length ys) + 1) = int (length ys) + 1" using n by (simp add: wrap64_id)
  show ?thesis
  proof (cases ys rule: rev_cases)
    case Nil
    then have "ll_head l = None" "ll_tail l = None" "ll_size l = 0" using l(2) by (auto simp: list_ok_def)
    then have "linked_list_push_tail m (Some a) x = Inr (replaced m a ?l (?h(?k \<mapsto> ?new)) (?k + 1))"
      using l(1) Nil wrap by (cases m; cases l) (simp add: linked_list_push_tail_def cell_defs)
    moreover have "mem_ok (replaced m a ?l (?h(?k \<mapsto> ?new)) (?k + 1)) (F(a \<mapsto> ys @ [(?k, x)]))"
      using Nil \<open>ll_tail l = None\<close> by (intro mem_ok_replace [OF ok a]) (auto simp: list_ok_def)
    ultimately show ?thesis by blast
  next
    case (snoc zs bx)
    obtain b y where bx: "bx = (b, y)" by (cases bx)
    obtain q where seg: "ll_tail l = Some b" "?h b = Some \<lparr>n_content = y, n_next = None, n_prev = q\<rparr>"
        "dseg ?h None (ll_head l) zs q (Some b)"
      using l(2) snoc bx by (auto simp: list_ok_def dseg_last)
    have "ll_head l \<noteq> None" using seg(3) by (cases zs) (auto split: option.splits)
    let ?h' = "?h(?k \<mapsto> ?new, b \<mapsto> \<lparr>n_content = y, n_next = Some ?k, n_prev = q\<rparr>)"
    have b: "b \<noteq> ?k" "b \<notin> addrs zs" using fresh l(2) snoc bx by (auto simp: list_ok_def)
    have "linked_list_push_tail m (Some a) x = Inr (replaced m a ?l ?h' (?k + 1))"
      using l seg b \<open>ll_head l \<noteq> None\<close> snoc wrap
      by (cases m; cases l) (auto simp: linked_list_push_tail_def cell_defs list_ok_def)
    moreover have "list_ok ?h' ?l (ys @ [(?k, x)])"
      using l(2) seg b fresh snoc bx by (auto simp: list_ok_def dseg_last_two dseg_last)
    then have "mem_ok (replaced m a ?l ?h' (?k + 1)) (F(a \<mapsto> ys @ [(?k, x)]))"
      using mem_ok_dom [OF ok a] snoc bx by (intro mem_ok_replace [OF ok a]) auto
    ultimately show ?thesis by blast
  qed
qed

lemma pop_tail_ok:
  assumes ok: "mem_ok m F" and a: "F a = Some (ys @ [(b, x)])" and n: "int (length ys) < 2 ^ 63"
  shows "\<exists>m'. linked_list_pop_tail m (Some a) = Inr (x, m') \<and> mem_ok m' (F(a \<mapsto> ys))"
proof -
  obtain l where l: "ll_lists m a = Some l" "list_ok (ll_nodes m) l (ys @ [(b, x)])"
    using mem_ok_list [OF ok a] by blast
  let ?h = "ll_nodes m"
  obtain q where seg: "ll_tail l = Some b" "?h b = Some \<lparr>n_content = x, n_next = None, n_prev = q\<rparr>"
      "dseg ?h None (ll_head l) ys q (Some b)" and b: "b \<notin> addrs ys" and d: "distinct (map fst ys)"
      and size: "ll_size l = int (length ys) + 1"
    using l(2) by (auto simp: list_ok_def dseg_last)
  have wrap: "wrap64 (int (length ys)) = int (length ys)" using n by (simp add: wrap64_id)
  let ?l = "\<lparr>ll_size = int (length ys), ll_head = if ys = [] then None else ll_head l, ll_tail = q\<rparr>"
  show ?thesis
  proof (cases ys rule: rev_cases)
    case Nil
    then have "linked_list_pop_tail m (Some a) = Inr (x, replaced m a ?l (?h(b := None)) (ll_fresh m))"
      using l(1) seg size wrap
      by (cases m; cases l) (auto simp: linked_list_pop_tail_def linked_list_is_empty_def cell_defs)
    moreover have "mem_ok (replaced m a ?l (?h(b := None)) (ll_fresh m)) (F(a \<mapsto> ys))"
      using Nil seg by (intro mem_ok_replace [OF ok a]) (auto simp: list_ok_def)
    ultimately show ?thesis by blast
  next
    case (snoc zs cy)
    obtain c y where cy: "cy = (c, y)" by (cases cy)
    obtain r where seg2: "q = Some c" "?h c = Some \<lparr>n_content = y, n_next = Some b, n_prev = r\<rparr>"
        "dseg ?h None (ll_head l) zs r (Some c)"
      using seg(3) snoc cy by (auto simp: dseg_last)
    let ?h' = "?h(b := None, c \<mapsto> \<lparr>n_content = y, n_next = None, n_prev = r\<rparr>)"
    have c: "c \<noteq> b" "c \<notin> addrs zs" "b \<notin> addrs zs" using b d snoc cy by auto
    have "linked_list_pop_tail m (Some a) = Inr (x, replaced m a ?l ?h' (ll_fresh m))"
      using l seg seg2 c snoc wrap size
      by (cases m; cases l) (auto simp: linked_list_pop_tail_def linked_list_is_empty_def cell_defs)
    moreover have "list_ok ?h' ?l ys"
      using seg2 c d snoc cy by (auto simp: list_ok_def dseg_last)
    then have "mem_ok (replaced m a ?l ?h' (ll_fresh m)) (F(a \<mapsto> ys))"
      using mem_ok_dom [OF ok a] snoc cy b by (intro mem_ok_replace [OF ok a]) auto
    ultimately show ?thesis by blast
  qed
qed

lemma push_head_ok:
  assumes ok: "mem_ok m F" and a: "F a = Some ys" and n: "int (length ys) < 2 ^ 63 - 1"
  shows "\<exists>m'. linked_list_push_head m (Some a) x = Inr m' \<and> mem_ok m' (F(a \<mapsto> (ll_fresh m, x) # ys))"
proof -
  obtain l where l: "ll_lists m a = Some l" "list_ok (ll_nodes m) l ys" using mem_ok_list [OF ok a] by blast
  let ?k = "ll_fresh m" and ?h = "ll_nodes m"
  let ?l = "\<lparr>ll_size = int (length ys) + 1, ll_head = Some ?k, ll_tail = if ys = [] then Some ?k else ll_tail l\<rparr>"
  let ?new = "\<lparr>n_content = x, n_next = ll_head l, n_prev = None\<rparr>"
  have fresh: "?k \<notin> addrs ys" using mem_ok_fresh [OF ok a] by blast
  have wrap: "wrap64 (int (length ys) + 1) = int (length ys) + 1" using n by (simp add: wrap64_id)
  show ?thesis
  proof (cases ys)
    case Nil
    then have "ll_head l = None" "ll_tail l = None" "ll_size l = 0" using l(2) by (auto simp: list_ok_def)
    then have "linked_list_push_head m (Some a) x = Inr (replaced m a ?l (?h(?k \<mapsto> ?new)) (?k + 1))"
      using l(1) Nil wrap by (cases m; cases l) (simp add: linked_list_push_head_def cell_defs)
    moreover have "mem_ok (replaced m a ?l (?h(?k \<mapsto> ?new)) (?k + 1)) (F(a \<mapsto> (?k, x) # ys))"
      using Nil \<open>ll_head l = None\<close> by (intro mem_ok_replace [OF ok a]) (auto simp: list_ok_def)
    ultimately show ?thesis by blast
  next
    case (Cons byy zs)
    obtain b y where byy: "byy = (b, y)" by (cases byy)
    obtain q where seg: "ll_head l = Some b" "?h b = Some \<lparr>n_content = y, n_next = q, n_prev = None\<rparr>"
        "dseg ?h (Some b) q zs (ll_tail l) None"
      using l(2) Cons byy by (auto simp: list_ok_def dseg_first simp del: dseg.simps(2))
    have "ll_tail l \<noteq> None" using l(2) Cons dseg_tail_not_null unfolding list_ok_def by blast
    let ?h' = "?h(?k \<mapsto> ?new, b \<mapsto> \<lparr>n_content = y, n_next = q, n_prev = Some ?k\<rparr>)"
    have b: "b \<noteq> ?k" "b \<notin> addrs zs" using fresh l(2) Cons byy by (auto simp: list_ok_def)
    have "linked_list_push_head m (Some a) x = Inr (replaced m a ?l ?h' (?k + 1))"
      using l seg b \<open>ll_tail l \<noteq> None\<close> Cons wrap
      by (cases m; cases l) (auto simp: linked_list_push_head_def cell_defs list_ok_def)
    moreover have "list_ok ?h' ?l ((?k, x) # ys)"
      using l(2) seg b fresh Cons byy by (auto simp: list_ok_def)
    then have "mem_ok (replaced m a ?l ?h' (?k + 1)) (F(a \<mapsto> (?k, x) # ys))"
      using mem_ok_dom [OF ok a] Cons byy by (intro mem_ok_replace [OF ok a]) auto
    ultimately show ?thesis by blast
  qed
qed

lemma pop_head_ok:
  assumes ok: "mem_ok m F" and a: "F a = Some ((b, x) # ys)" and n: "int (length ys) < 2 ^ 63"
  shows "\<exists>m'. linked_list_pop_head m (Some a) = Inr (x, m') \<and> mem_ok m' (F(a \<mapsto> ys))"
proof -
  obtain l where l: "ll_lists m a = Some l" "list_ok (ll_nodes m) l ((b, x) # ys)"
    using mem_ok_list [OF ok a] by blast
  let ?h = "ll_nodes m"
  obtain q where seg: "ll_head l = Some b" "?h b = Some \<lparr>n_content = x, n_next = q, n_prev = None\<rparr>"
      "dseg ?h (Some b) q ys (ll_tail l) None" and b: "b \<notin> addrs ys" and d: "distinct (map fst ys)"
      and size: "ll_size l = int (length ys) + 1"
    using l(2) by (auto simp: list_ok_def dseg_first simp del: dseg.simps(2))
  have wrap: "wrap64 (int (length ys)) = int (length ys)" using n by (simp add: wrap64_id)
  let ?l = "\<lparr>ll_size = int (length ys), ll_head = q, ll_tail = if ys = [] then None else ll_tail l\<rparr>"
  show ?thesis
  proof (cases ys)
    case Nil
    then have "linked_list_pop_head m (Some a) = Inr (x, replaced m a ?l (?h(b := None)) (ll_fresh m))"
      using l(1) seg size wrap
      by (cases m; cases l) (auto simp: linked_list_pop_head_def linked_list_is_empty_def cell_defs)
    moreover have "mem_ok (replaced m a ?l (?h(b := None)) (ll_fresh m)) (F(a \<mapsto> ys))"
      using Nil seg by (intro mem_ok_replace [OF ok a]) (auto simp: list_ok_def)
    ultimately show ?thesis by blast
  next
    case (Cons cy zs)
    obtain c y where cy: "cy = (c, y)" by (cases cy)
    obtain r where seg2: "q = Some c" "?h c = Some \<lparr>n_content = y, n_next = r, n_prev = Some b\<rparr>"
        "dseg ?h (Some c) r zs (ll_tail l) None"
      using seg(3) Cons cy by (auto simp: dseg_first simp del: dseg.simps(2))
    let ?h' = "?h(b := None, c \<mapsto> \<lparr>n_content = y, n_next = r, n_prev = None\<rparr>)"
    have c: "c \<noteq> b" "c \<notin> addrs zs" "b \<notin> addrs zs" using b d Cons cy by auto
    have "linked_list_pop_head m (Some a) = Inr (x, replaced m a ?l ?h' (ll_fresh m))"
      using l seg seg2 c Cons wrap size
      by (cases m; cases l) (auto simp: linked_list_pop_head_def linked_list_is_empty_def cell_defs)
    moreover have "list_ok ?h' ?l ys"
      using seg2 c d Cons cy by (auto simp: list_ok_def)
    then have "mem_ok (replaced m a ?l ?h' (ll_fresh m)) (F(a \<mapsto> ys))"
      using mem_ok_dom [OF ok a] Cons cy b by (intro mem_ok_replace [OF ok a]) auto
    ultimately show ?thesis by blast
  qed
qed

end
