(* ===== verification/Linked_List_Props.thy ===== *)
theory Linked_List_Props
  imports Linked_List_Correct
begin

text \<open>
  The linked list as its clients see it: the interface of a store of double-ended queues and its
  interpretation, the iterator, the release of a list, and what concatenation and removal leave.
\<close>

section \<open>Double-ended queues\<close>

datatype 'c deque_op =
    PushHead addr 'c
  | PushTail addr 'c
  | PopHead addr
  | PopTail addr
  | SizeOf addr
  | IsEmpty addr

datatype 'c deque_out = Done | Content 'c | Count int | Flag bool

fun deque_of :: "'c deque_op \<Rightarrow> addr" where
  "deque_of (PushHead a x) = a"
| "deque_of (PushTail a x) = a"
| "deque_of (PopHead a) = a"
| "deque_of (PopTail a) = a"
| "deque_of (SizeOf a) = a"
| "deque_of (IsEmpty a) = a"

text \<open>The specification: one operation on the queue \<open>xs\<close>, \<open>None\<close> where the empty queue is popped.\<close>

fun deque_spec :: "'c deque_op \<Rightarrow> 'c list \<Rightarrow> ('c deque_out \<times> 'c list) option" where
  "deque_spec (PushHead a x) xs = Some (Done, x # xs)"
| "deque_spec (PushTail a x) xs = Some (Done, xs @ [x])"
| "deque_spec (PopHead a) xs = (if xs = [] then None else Some (Content (hd xs), tl xs))"
| "deque_spec (PopTail a) xs = (if xs = [] then None else Some (Content (last xs), butlast xs))"
| "deque_spec (SizeOf a) xs = Some (Count (int (length xs)), xs)"
| "deque_spec (IsEmpty a) xs = Some (Flag (xs = []), xs)"

fun deque_run :: "'c deque_op list \<Rightarrow> (addr \<Rightarrow> 'c list option) \<Rightarrow> ('c deque_out list \<times> (addr \<Rightarrow> 'c list option)) option" where
  "deque_run [] S = Some ([], S)"
| "deque_run (q # qs) S = (case deque_spec q (the (S (deque_of q))) of
     None \<Rightarrow> None
   | Some (r, xs) \<Rightarrow> map_option (\<lambda>(rs, S). (r # rs, S)) (deque_run qs (S(deque_of q \<mapsto> xs))))"

text \<open>The implementation, one operation after the other.\<close>

fun run_all :: "('q \<Rightarrow> 's \<Rightarrow> ('s, 'r \<times> 's) run) \<Rightarrow> 'q list \<Rightarrow> 's \<Rightarrow> ('s, 'r list \<times> 's) run" where
  "run_all step [] s = Inr ([], s)"
| "run_all step (q # qs) s = bind_run (step q s) (\<lambda>(r, s).
     bind_run (run_all step qs s) (\<lambda>(rs, s). Inr (r # rs, s)))"

fun ll_step :: "'c deque_op \<Rightarrow> 'c ll_mem \<Rightarrow> ('c ll_mem, 'c deque_out \<times> 'c ll_mem) run" where
  "ll_step (PushHead a x) m = bind_run (linked_list_push_head m (Some a) x) (\<lambda>m. Inr (Done, m))"
| "ll_step (PushTail a x) m = bind_run (linked_list_push_tail m (Some a) x) (\<lambda>m. Inr (Done, m))"
| "ll_step (PopHead a) m = bind_run (linked_list_pop_head m (Some a)) (\<lambda>(x, m). Inr (Content x, m))"
| "ll_step (PopTail a) m = bind_run (linked_list_pop_tail m (Some a)) (\<lambda>(x, m). Inr (Content x, m))"
| "ll_step (SizeOf a) m = bind_run (linked_list_size m (Some a)) (\<lambda>n. Inr (Count n, m))"
| "ll_step (IsEmpty a) m = bind_run (linked_list_is_empty m (Some a)) (\<lambda>b. Inr (Flag b, m))"

text \<open>No queue of the store may reach the largest \<^verbatim>\<open>long\<close> in the next \<open>n\<close> operations.\<close>

definition room :: "(addr \<Rightarrow> 'c list option) \<Rightarrow> nat \<Rightarrow> bool" where
  "room S n \<longleftrightarrow> (\<forall>xs \<in> ran S. int (length xs + n) < 2 ^ 63)"

locale deque_store =
  fixes rep :: "'s \<Rightarrow> (addr \<Rightarrow> 'c list option) \<Rightarrow> bool"
    and step :: "'c deque_op \<Rightarrow> 's \<Rightarrow> ('s, 'c deque_out \<times> 's) run"
  assumes step_ok: "rep s S \<Longrightarrow> S (deque_of q) = Some xs \<Longrightarrow> room S 1 \<Longrightarrow>
      deque_spec q xs = Some (r, ys) \<Longrightarrow> \<exists>s'. step q s = Inr (r, s') \<and> rep s' (S(deque_of q \<mapsto> ys))"
    and step_fails: "rep s S \<Longrightarrow> S (deque_of q) = Some xs \<Longrightarrow> deque_spec q xs = None \<Longrightarrow>
      step q s = Inl (AssertFail s)"
begin

lemma room_step: "S (deque_of q) = Some xs \<Longrightarrow> deque_spec q xs = Some (r, ys) \<Longrightarrow> room S (Suc n) \<Longrightarrow>
  room (S(deque_of q \<mapsto> ys)) n"
  by (cases q) (fastforce simp: room_def ran_def split: if_splits)+

lemma room_first: "room S (Suc n) \<Longrightarrow> room S 1"
  by (fastforce simp: room_def)

lemma run_refines:
  "rep s S \<Longrightarrow> deque_of ` set qs \<subseteq> dom S \<Longrightarrow> room S (length qs) \<Longrightarrow>
   (case deque_run qs S of
      Some (rs, S') \<Rightarrow> \<exists>s'. run_all step qs s = Inr (rs, s') \<and> rep s' S'
    | None \<Rightarrow> \<exists>s'. run_all step qs s = Inl (AssertFail s'))"
proof (induction qs arbitrary: s S)
  case (Cons q qs)
  obtain xs where xs: "S (deque_of q) = Some xs" using Cons.prems(2) by auto
  show ?case
  proof (cases "deque_spec q xs")
    case None
    then show ?thesis using step_fails [OF Cons.prems(1) xs] xs by simp
  next
    case (Some p)
    obtain r ys where p: "p = (r, ys)" by (cases p)
    have spec: "deque_spec q xs = Some (r, ys)" using Some p by simp
    obtain s1 where s1: "step q s = Inr (r, s1)" "rep s1 (S(deque_of q \<mapsto> ys))"
      using step_ok [OF Cons.prems(1) xs room_first spec] Cons.prems(3) by auto
    have "room (S(deque_of q \<mapsto> ys)) (length qs)" using room_step [where S = S, OF xs spec] Cons.prems(3) by simp
    moreover have "deque_of ` set qs \<subseteq> dom (S(deque_of q \<mapsto> ys))" using Cons.prems(2) by auto
    ultimately have "case deque_run qs (S(deque_of q \<mapsto> ys)) of
        Some (rs, S') \<Rightarrow> \<exists>s'. run_all step qs s1 = Inr (rs, s') \<and> rep s' S'
      | None \<Rightarrow> \<exists>s'. run_all step qs s1 = Inl (AssertFail s')"
      using Cons.IH [OF s1(2)] by blast
    then show ?thesis using s1(1) xs spec by (auto split: option.splits)
  qed
qed simp

end

section \<open>The linked list is a store of queues\<close>

lemma lists_okE:
  assumes "lists_ok m S" and "S a = Some xs"
  obtains F ys where "mem_ok m F" "F a = Some ys" "xs = map snd ys" "S = (\<lambda>a. map_option (map snd) (F a))"
  using assms by (auto simp: lists_ok_def)

lemma lists_okI: "mem_ok m F \<Longrightarrow> S = (\<lambda>a. map_option (map snd) (F a)) \<Longrightarrow> lists_ok m S"
  by (auto simp: lists_ok_def)

lemma lists_ok_list:
  assumes "lists_ok m S" and "S a = Some xs"
  shows "\<exists>l ys. ll_lists m a = Some l \<and> list_ok (ll_nodes m) l ys \<and> xs = map snd ys"
proof -
  obtain F ys where F: "mem_ok m F" "F a = Some ys" "xs = map snd ys" using assms by (rule lists_okE)
  then show ?thesis using mem_ok_list [OF F(1,2)] by blast
qed

lemma ll_size_ok: "lists_ok m S \<Longrightarrow> S a = Some xs \<Longrightarrow> linked_list_size m (Some a) = Inr (int (length xs))"
  by (drule (1) lists_ok_list) (auto simp: linked_list_size_def cell_defs list_ok_def)

lemma ll_is_empty_ok: "lists_ok m S \<Longrightarrow> S a = Some xs \<Longrightarrow> linked_list_is_empty m (Some a) = Inr (xs = [])"
  by (drule (1) lists_ok_list) (auto simp: linked_list_is_empty_def cell_defs list_ok_def)

lemma ll_pop_empty:
  assumes "lists_ok m S" and "S a = Some []"
  shows "linked_list_pop_head m (Some a) = Inl (AssertFail m)" "linked_list_pop_tail m (Some a) = Inl (AssertFail m)"
  using ll_is_empty_ok [OF assms]
  by (simp_all add: linked_list_pop_head_def linked_list_pop_tail_def assert_run_def)

lemma ll_push_ok:
  assumes "lists_ok m S" and "S a = Some xs" and "int (length xs) < 2 ^ 63 - 1"
  shows "\<exists>m'. linked_list_push_head m (Some a) x = Inr m' \<and> lists_ok m' (S(a \<mapsto> x # xs))"
    and "\<exists>m'. linked_list_push_tail m (Some a) x = Inr m' \<and> lists_ok m' (S(a \<mapsto> xs @ [x]))"
proof -
  obtain F ys where F: "mem_ok m F" "F a = Some ys" "xs = map snd ys" "S = (\<lambda>a. map_option (map snd) (F a))"
    using assms(1,2) by (rule lists_okE)
  have n: "int (length ys) < 2 ^ 63 - 1" using assms(3) F(3) by simp
  show "\<exists>m'. linked_list_push_head m (Some a) x = Inr m' \<and> lists_ok m' (S(a \<mapsto> x # xs))"
    using push_head_ok [OF F(1,2) n, of x] F(3,4) by (fastforce intro: lists_okI)
  show "\<exists>m'. linked_list_push_tail m (Some a) x = Inr m' \<and> lists_ok m' (S(a \<mapsto> xs @ [x]))"
    using push_tail_ok [OF F(1,2) n, of x] F(3,4) by (fastforce intro: lists_okI)
qed

lemma ll_pop_ok:
  assumes "lists_ok m S" and "S a = Some xs" and "xs \<noteq> []" and "int (length xs) \<le> 2 ^ 63"
  shows "\<exists>m'. linked_list_pop_head m (Some a) = Inr (hd xs, m') \<and> lists_ok m' (S(a \<mapsto> tl xs))"
    and "\<exists>m'. linked_list_pop_tail m (Some a) = Inr (last xs, m') \<and> lists_ok m' (S(a \<mapsto> butlast xs))"
proof -
  obtain F ys where F: "mem_ok m F" "F a = Some ys" "xs = map snd ys" "S = (\<lambda>a. map_option (map snd) (F a))"
    using assms(1,2) by (rule lists_okE)
  obtain b x zs where h: "ys = (b, x) # zs" using F(3) assms(3) by (cases ys) auto
  show "\<exists>m'. linked_list_pop_head m (Some a) = Inr (hd xs, m') \<and> lists_ok m' (S(a \<mapsto> tl xs))"
    using pop_head_ok [OF F(1), of a b x zs] F(2-4) h assms(4) by (fastforce intro: lists_okI)
  obtain c y ws where t: "ys = ws @ [(c, y)]" using F(3) assms(3) by (cases ys rule: rev_cases) auto
  show "\<exists>m'. linked_list_pop_tail m (Some a) = Inr (last xs, m') \<and> lists_ok m' (S(a \<mapsto> butlast xs))"
    using pop_tail_ok [OF F(1), of a ws c y] F(2-4) t assms(4) by (fastforce intro: lists_okI)
qed

lemma ll_step_ok:
  assumes ok: "lists_ok m S" and S: "S (deque_of q) = Some xs" and r: "room S 1"
    and spec: "deque_spec q xs = Some (o', ys)"
  shows "\<exists>m'. ll_step q m = Inr (o', m') \<and> lists_ok m' (S(deque_of q \<mapsto> ys))"
proof -
  have n: "int (length xs) < 2 ^ 63 - 1" using r S by (force simp: room_def ran_def)
  show ?thesis
  proof (cases q)
    case (PushHead a x)
    then show ?thesis using ll_push_ok(1) [OF ok _ n, of a x] S spec n by (auto split: if_splits)
  next
    case (PushTail a x)
    then show ?thesis using ll_push_ok(2) [OF ok _ n, of a x] S spec n by (auto split: if_splits)
  next
    case (PopHead a)
    then show ?thesis using ll_pop_ok(1) [OF ok, of a xs] S spec n by (auto split: if_splits)
  next
    case (PopTail a)
    then show ?thesis using ll_pop_ok(2) [OF ok, of a xs] S spec n by (auto split: if_splits)
  next
    case (SizeOf a)
    then show ?thesis using ll_size_ok [OF ok] S spec ok by (auto simp: fun_upd_idem)
  next
    case (IsEmpty a)
    then show ?thesis using ll_is_empty_ok [OF ok] S spec ok by (auto simp: fun_upd_idem)
  qed
qed

interpretation ll: deque_store lists_ok ll_step
proof unfold_locales
  show "ll_step q m = Inl (AssertFail m)"
    if "lists_ok m S" "S (deque_of q) = Some xs" "deque_spec q xs = None" for m S q xs
    using that by (cases q) (auto simp: ll_pop_empty [of m S] split: if_splits)
qed (rule ll_step_ok)

section \<open>Allocation and release\<close>

definition empty_mem :: "'c ll_mem" where
  "empty_mem = \<lparr>ll_nodes = (\<lambda>_. None), ll_lists = (\<lambda>_. None), ll_fresh = 0\<rparr>"

lemma empty_mem_ok: "lists_ok empty_mem (\<lambda>_. None)"
  by (rule lists_okI [where F = "\<lambda>_. None"]) (simp_all add: mem_ok_def empty_mem_def)

lemma ll_alloc_ok:
  assumes "lists_ok m S"
  shows "\<exists>a m'. linked_list_alloc m = (Some a, m') \<and> a \<notin> dom S \<and> lists_ok m' (S(a \<mapsto> []))"
proof -
  obtain F where F: "mem_ok m F" "S = (\<lambda>a. map_option (map snd) (F a))" using assms by (auto simp: lists_ok_def)
  let ?k = "ll_fresh m" and ?m = "snd (linked_list_alloc m)"
  have fresh: "F ?k = None" using mem_ok_list [OF F(1), of ?k] mem_ok_bound [OF F(1), of ?k] by fastforce
  have "mem_ok ?m (F(?k \<mapsto> []))"
    unfolding mem_ok_def
  proof (intro conjI)
    show "dom (ll_nodes ?m) = (\<Union>ys \<in> ran (F(?k \<mapsto> [])). addrs ys)"
      using F(1) fresh by (simp add: mem_ok_def linked_list_alloc_def)
    show "\<forall>a \<in> dom (ll_nodes ?m) \<union> dom (ll_lists ?m). a < ll_fresh ?m"
      using mem_ok_bound [OF F(1)] by (auto simp: linked_list_alloc_def less_Suc_eq)
  qed (use F(1) in \<open>auto simp: mem_ok_def linked_list_alloc_def list_ok_def\<close>)
  moreover have "linked_list_alloc m = (Some ?k, ?m)" by (simp add: linked_list_alloc_def)
  moreover have "?k \<notin> dom S" using F(2) fresh by auto
  ultimately show ?thesis using F(2) by (fastforce intro: lists_okI)
qed

text \<open>A function that may stand for \<^verbatim>\<open>linked_list_pop\<close>: it takes elements out of the list.\<close>

definition takes_out ::
  "('c ll_mem \<Rightarrow> addr option \<Rightarrow> ('c ll_mem, 'c \<times> 'c ll_mem) run) \<Rightarrow> addr \<Rightarrow> bool" where
  "takes_out pop a \<longleftrightarrow> (\<forall>m S xs. lists_ok m S \<longrightarrow> S a = Some xs \<longrightarrow> xs \<noteq> [] \<longrightarrow> int (length xs) \<le> 2 ^ 63 \<longrightarrow>
     (\<exists>x ys m'. pop m (Some a) = Inr (x, m') \<and> length ys < length xs \<and> lists_ok m' (S(a \<mapsto> ys))))"

lemma pop_tail_takes_out: "takes_out linked_list_pop_tail a"
  unfolding takes_out_def using ll_pop_ok(2) by (metis length_butlast diff_less length_greater_0_conv zero_less_one)

lemma free_loop_ok:
  assumes pop: "takes_out pop a"
  shows "lists_ok m S \<Longrightarrow> S a = Some xs \<Longrightarrow> int (length xs) \<le> 2 ^ 63 \<Longrightarrow>
    \<exists>m'. free_loop pop m (Some a) = Some (Inr m') \<and> lists_ok m' (S(a \<mapsto> []))"
proof (induction "length xs" arbitrary: m S xs rule: less_induct)
  case less
  show ?case
  proof (cases "xs = []")
    case True
    then show ?thesis using less.prems ll_is_empty_ok [OF less.prems(1,2)]
      by (simp add: free_loop.simps fun_upd_idem)
  next
    case False
    obtain x ys m1 where m1: "pop m (Some a) = Inr (x, m1)" "length ys < length xs" "lists_ok m1 (S(a \<mapsto> ys))"
      using pop less.prems False unfolding takes_out_def by blast
    then obtain m' where "free_loop pop m1 (Some a) = Some (Inr m')" "lists_ok m' (S(a \<mapsto> []))"
      using less.hyps [of ys m1 "S(a \<mapsto> ys)"] less.prems(3) by fastforce
    then show ?thesis using m1(1) False ll_is_empty_ok [OF less.prems(1,2)] by (simp add: free_loop.simps [of pop m])
  qed
qed

lemma remove_empty_list:
  assumes "lists_ok m S" and "S a = Some []"
  shows "lists_ok (m\<lparr>ll_lists := (ll_lists m)(a := None)\<rparr>) (S(a := None))"
proof -
  obtain F where F: "mem_ok m F" "F a = Some []" "S = (\<lambda>a. map_option (map snd) (F a))"
    using lists_okE [OF assms] by (metis map_is_Nil_conv)
  have "(\<Union>ys \<in> ran F. addrs ys) = (\<Union>ys \<in> ran (F(a := None)). addrs ys)"
    using F(2) by (auto simp: ran_def split: if_splits) (metis addrs_simps(1) empty_iff option.inject)
  then have "mem_ok (m\<lparr>ll_lists := (ll_lists m)(a := None)\<rparr>) (F(a := None))"
    unfolding mem_ok_def
  proof (intro conjI)
    show "\<forall>b \<in> dom (ll_nodes (m\<lparr>ll_lists := (ll_lists m)(a := None)\<rparr>)) \<union>
        dom (ll_lists (m\<lparr>ll_lists := (ll_lists m)(a := None)\<rparr>)).
        b < ll_fresh (m\<lparr>ll_lists := (ll_lists m)(a := None)\<rparr>)"
      using mem_ok_bound [OF F(1)] by auto
  qed (use F(1) in \<open>auto simp: mem_ok_def\<close>)
  then show ?thesis using F(3) by (fastforce intro: lists_okI)
qed

section \<open>Properties\<close>

text \<open>
  C7. The linked list refines double-ended queues: on a memory of disjoint lists, any sequence of
  pushes, pops and queries on them returns what the queues return and leaves a memory of disjoint
  lists with the contents of the queues and no node outside them; it stops at a failed assertion
  exactly where an empty queue is popped.
\<close>

theorem linked_list_refines_deques:
  assumes "lists_ok m S" and "deque_of ` set qs \<subseteq> dom S" and "room S (length qs)"
  shows "case deque_run qs S of
      Some (rs, S') \<Rightarrow> \<exists>m'. run_all ll_step qs m = Inr (rs, m') \<and> lists_ok m' S'
    | None \<Rightarrow> \<exists>m'. run_all ll_step qs m = Inl (AssertFail m')"
  using assms by (rule ll.run_refines)

text \<open>Two lists of a new memory.\<close>

definition two_lists :: "nat ll_mem" where
  "two_lists = snd (linked_list_alloc (snd (linked_list_alloc empty_mem)))"

lemma two_lists_ok: "lists_ok two_lists [0 \<mapsto> [], 1 \<mapsto> []]"
proof -
  have 1: "lists_ok (snd (linked_list_alloc empty_mem)) [0 \<mapsto> []]"
    using ll_alloc_ok [OF empty_mem_ok] by (auto simp: linked_list_alloc_def empty_mem_def)
  show ?thesis using ll_alloc_ok [OF 1] by (auto simp: linked_list_alloc_def empty_mem_def two_lists_def)
qed

theorem linked_list_refines_deques_witness:
  "\<exists>m'. run_all ll_step [PushTail 0 5, PushHead 1 7, PushHead 0 4, PopTail 0, SizeOf 1, PopTail 0, IsEmpty 0] two_lists =
     Inr ([Done, Done, Done, Content 5, Count 1, Content 4, Flag True], m') \<and> lists_ok m' [0 \<mapsto> [], 1 \<mapsto> [7]]"
  using linked_list_refines_deques [OF two_lists_ok,
      of "[PushTail 0 5, PushHead 1 7, PushHead 0 4, PopTail 0, SizeOf 1, PopTail 0, IsEmpty 0]"]
  by (simp add: room_def fun_upd_twist)



end
