(* ===== verification/Linked_List_Iter.thy ===== *)
theory Linked_List_Iter
  imports Linked_List_Props
begin

text \<open>
  The iterator of the linked list, which follows the forward pointers only, and the two operations
  that do not keep the backward pointers: concatenation and removal through the iterator.
\<close>

section \<open>Traversal\<close>

fun fseg :: "(addr \<Rightarrow> 'c node option) \<Rightarrow> addr option \<Rightarrow> (addr \<times> 'c) list \<Rightarrow> addr option \<Rightarrow> bool" where
  "fseg h f [] n \<longleftrightarrow> f = n"
| "fseg h f ((a, x) # ys) n \<longleftrightarrow> f = Some a \<and> (case h a of None \<Rightarrow> False
     | Some c \<Rightarrow> n_content c = x \<and> fseg h (n_next c) ys n)"

lemma dseg_fseg: "dseg h p f ys l n \<Longrightarrow> fseg h f ys n"
  by (induction h p f ys l n rule: dseg.induct) (auto split: option.splits)

lemma fseg_append: "fseg h f (ys @ zs) n \<longleftrightarrow> (\<exists>g. fseg h f ys g \<and> fseg h g zs n)"
  by (induction h f ys n rule: fseg.induct) (auto split: option.splits)

lemma fseg_upd [simp]: "a \<notin> addrs ys \<Longrightarrow> fseg (h(a := v)) f ys n = fseg h f ys n"
  by (induction h f ys n rule: fseg.induct) (auto split: option.splits)

text \<open>The elements an iterator has still to deliver.\<close>

definition ahead :: "'c ll_mem \<Rightarrow> linked_list_iterator \<Rightarrow> 'c list \<Rightarrow> bool" where
  "ahead m it xs \<longleftrightarrow> (case lit_cursor it of None \<Rightarrow> xs = []
     | Some a \<Rightarrow> \<exists>ys. xs = map snd ys \<and>
         (if lit_consumed it then \<exists>c. ll_nodes m a = Some c \<and> fseg (ll_nodes m) (n_next c) ys None
          else fseg (ll_nodes m) (Some a) ys None))"

lemma ahead_at:
  "\<not> lit_consumed it \<Longrightarrow> fseg (ll_nodes m) (lit_cursor it) ys None \<Longrightarrow> ahead m it (map snd ys)"
proof (cases "lit_cursor it")
  case None
  then show "fseg (ll_nodes m) (lit_cursor it) ys None \<Longrightarrow> ahead m it (map snd ys)" by (cases ys) (auto simp: ahead_def)
qed (auto simp: ahead_def)

lemma advance_ahead:
  assumes "ahead m it xs" and "lit_cursor it \<noteq> None"
  shows "\<exists>it' ys. it_advance m it = Inr it' \<and> \<not> lit_consumed it' \<and> lit_list it' = lit_list it \<and>
    xs = map snd ys \<and> fseg (ll_nodes m) (lit_cursor it') ys None"
  using assms by (auto simp: ahead_def it_advance_def get_node_def split: if_splits)

lemma fseg_head:
  "fseg h f ys None \<Longrightarrow> (f = None \<longleftrightarrow> ys = [])"
  by (cases ys) auto

lemma has_next_ahead:
  assumes "ahead m it xs"
  shows "\<exists>it'. linked_list_it_has_next m it = Inr (xs \<noteq> [], it') \<and> ahead m it' xs \<and> lit_list it' = lit_list it"
proof (cases "lit_cursor it = None")
  case True
  then show ?thesis using assms by (simp add: linked_list_it_has_next_def ahead_def)
next
  case False
  then obtain it' ys where it': "it_advance m it = Inr it'" "\<not> lit_consumed it'" "lit_list it' = lit_list it"
    "xs = map snd ys" "fseg (ll_nodes m) (lit_cursor it') ys None" using advance_ahead [OF assms] by blast
  then show ?thesis using False ahead_at [OF it'(2,5)] fseg_head [OF it'(5)] by (auto simp: linked_list_it_has_next_def)
qed

lemma next_ahead:
  assumes "ahead m it xs"
  shows "\<exists>it'. linked_list_it_next m it out = Inr (xs \<noteq> [], if xs = [] then out else map_option (\<lambda>_. hd xs) out, it') \<and>
    ahead m it' (tl xs) \<and> lit_list it' = lit_list it"
proof (cases "lit_cursor it = None")
  case True
  then show ?thesis using assms by (simp add: linked_list_it_next_def ahead_def)
next
  case False
  then obtain it' ys where it': "it_advance m it = Inr it'" "\<not> lit_consumed it'" "lit_list it' = lit_list it"
    "xs = map snd ys" "fseg (ll_nodes m) (lit_cursor it') ys None" using advance_ahead [OF assms] by blast
  show ?thesis
  proof (cases ys)
    case Nil
    then show ?thesis using it' False by (simp add: linked_list_it_next_def ahead_def)
  next
    case (Cons y zs)
    then show ?thesis using it' False
      by (cases y) (auto simp: linked_list_it_next_def ahead_def get_node_def split: option.splits)
  qed
qed

lemma skip_ahead:
  "ahead m it xs \<Longrightarrow> \<exists>it'. it_skip_loop m it (Some d) n = Inr (n \<le> length xs, Some (last (d # take n xs)), it') \<and>
     ahead m it' (drop n xs) \<and> lit_list it' = lit_list it"
proof (induction n arbitrary: it d xs)
  case (Suc n)
  obtain it1 where it1: "linked_list_it_has_next m it = Inr (xs \<noteq> [], it1)" "ahead m it1 xs" "lit_list it1 = lit_list it"
    using has_next_ahead [OF Suc.prems] by blast
  show ?case
  proof (cases xs)
    case Nil
    then show ?thesis using it1 by simp
  next
    case (Cons x ys)
    obtain it2 where it2: "linked_list_it_next m it1 (Some d) = Inr (True, Some x, it2)" "ahead m it2 ys"
      "lit_list it2 = lit_list it" using next_ahead [OF it1(2), of "Some d"] it1(3) Cons by auto
    then show ?thesis using Suc.IH [OF it2(2), of x] it1(1) Cons by auto
  qed
qed auto

lemma set_list_ahead:
  assumes l: "ll_lists m a = Some l" "fseg (ll_nodes m) (ll_head l) ys None"
  shows "\<exists>it'. linked_list_it_set_list m it (Some a) = Inr it' \<and> ahead m it' (map snd ys) \<and>
    \<not> lit_consumed it' \<and> lit_cursor it' = ll_head l \<and> lit_list it' = Some a"
  using l ahead_at [of "it\<lparr>lit_list := Some a, lit_consumed := False, lit_cursor := ll_head l\<rparr>" m ys]
  by (auto simp: linked_list_it_set_list_def linked_list_it_reset_def cell_defs)

section \<open>Lists that are too long for their nodes\<close>

fun pop_n ::
  "('m \<Rightarrow> addr option \<Rightarrow> ('m, 'c \<times> 'm) run) \<Rightarrow> nat \<Rightarrow> 'm \<Rightarrow> addr option \<Rightarrow> ('m, 'c list \<times> 'm) run" where
  "pop_n pop 0 m lst = Inr ([], m)"
| "pop_n pop (Suc n) m lst = bind_run (pop m lst) (\<lambda>(x, m).
     bind_run (pop_n pop n m lst) (\<lambda>(xs, m). Inr (x # xs, m)))"

text \<open>
  The size of list \<open>a\<close> exceeds the nodes that are reached from its tail, or from its head: taking
  out the reached ones works, the next pop follows a \<^verbatim>\<open>NULL\<close> pointer.
\<close>

definition short_back :: "'c ll_mem \<Rightarrow> addr \<Rightarrow> (addr \<times> 'c) list \<Rightarrow> nat \<Rightarrow> bool" where
  "short_back m a ys d \<longleftrightarrow> (\<exists>l f. ll_lists m a = Some l \<and> ll_size l = int (length ys + d) \<and>
     distinct (map fst ys) \<and> dseg (ll_nodes m) None f ys (ll_tail l) None)"

definition short_forward :: "'c ll_mem \<Rightarrow> addr \<Rightarrow> (addr \<times> 'c) list \<Rightarrow> nat \<Rightarrow> bool" where
  "short_forward m a ys d \<longleftrightarrow> (\<exists>l. ll_lists m a = Some l \<and> ll_size l = int (length ys + d) \<and>
     distinct (map fst ys) \<and> fseg (ll_nodes m) (ll_head l) ys None)"

lemma short_back_end: "short_back m a [] d \<Longrightarrow> 0 < d \<Longrightarrow> linked_list_pop_tail m (Some a) = Inl (OutOfBounds m)"
  by (auto simp: short_back_def linked_list_pop_tail_def linked_list_is_empty_def cell_defs)

lemma short_forward_end: "short_forward m a [] d \<Longrightarrow> 0 < d \<Longrightarrow> linked_list_pop_head m (Some a) = Inl (OutOfBounds m)"
  by (auto simp: short_forward_def linked_list_pop_head_def linked_list_is_empty_def cell_defs)

lemma short_back_pop:
  assumes "short_back m a (ys @ [(b, x)]) d" and d: "0 < d" and n: "int (length ys + d) < 2 ^ 63"
  shows "\<exists>m'. linked_list_pop_tail m (Some a) = Inr (x, m') \<and> short_back m' a ys d"
proof -
  obtain l f q where l: "ll_lists m a = Some l" "ll_size l = int (length ys + d) + 1" "distinct (map fst ys)"
      "b \<notin> addrs ys" "ll_tail l = Some b" "ll_nodes m b = Some \<lparr>n_content = x, n_next = None, n_prev = q\<rparr>"
      "dseg (ll_nodes m) None f ys q (Some b)"
    using assms(1) by (auto simp: short_back_def dseg_last)
  have wrap: "wrap64 (int (length ys + d)) = int (length ys + d)" using n by (simp add: wrap64_id)
  show ?thesis
  proof (cases ys rule: rev_cases)
    case Nil
    then show ?thesis using l wrap d
      by (auto simp: linked_list_pop_tail_def linked_list_is_empty_def cell_defs short_back_def)
  next
    case (snoc zs cy)
    obtain c y where cy: "cy = (c, y)" by (cases cy)
    show ?thesis using l wrap d snoc cy
      by (auto simp: linked_list_pop_tail_def linked_list_is_empty_def cell_defs short_back_def dseg_last)
  qed
qed

lemma short_forward_pop:
  assumes "short_forward m a ((b, x) # ys) d" and d: "0 < d" and n: "int (length ys + d) < 2 ^ 63"
  shows "\<exists>m'. linked_list_pop_head m (Some a) = Inr (x, m') \<and> short_forward m' a ys d"
proof -
  obtain l c where l: "ll_lists m a = Some l" "ll_size l = int (length ys + d) + 1" "distinct (map fst ys)"
      "b \<notin> addrs ys" "ll_head l = Some b" "ll_nodes m b = Some c" "n_content c = x"
      "fseg (ll_nodes m) (n_next c) ys None"
    using assms(1) by (auto simp: short_forward_def split: option.splits)
  have wrap: "wrap64 (int (length ys + d)) = int (length ys + d)" using n by (simp add: wrap64_id)
  show ?thesis
  proof (cases ys)
    case Nil
    then show ?thesis using l wrap d
      by (auto simp: linked_list_pop_head_def linked_list_is_empty_def cell_defs short_forward_def)
  next
    case (Cons cy zs)
    obtain c y where cy: "cy = (c, y)" by (cases cy)
    show ?thesis using l wrap d Cons cy
      by (auto simp: linked_list_pop_head_def linked_list_is_empty_def cell_defs short_forward_def split: option.splits)
  qed
qed

lemma short_back_fails:
  "short_back m a ys d \<Longrightarrow> 0 < d \<Longrightarrow> int (length ys + d) < 2 ^ 63 \<Longrightarrow>
   (\<exists>m'. pop_n linked_list_pop_tail (length ys) m (Some a) = Inr (rev (map snd ys), m')) \<and>
   (\<exists>m'. pop_n linked_list_pop_tail (length ys + 1) m (Some a) = Inl (OutOfBounds m'))"
proof (induction ys arbitrary: m rule: rev_induct)
  case (snoc bx ys)
  obtain b x where bx: "bx = (b, x)" by (cases bx)
  obtain m1 where "linked_list_pop_tail m (Some a) = Inr (x, m1)" "short_back m1 a ys d"
    using short_back_pop [of m a ys b x d] snoc.prems bx by auto
  then show ?case using snoc.IH [of m1] snoc.prems bx by auto
qed (auto dest: short_back_end)

lemma short_forward_fails:
  "short_forward m a ys d \<Longrightarrow> 0 < d \<Longrightarrow> int (length ys + d) < 2 ^ 63 \<Longrightarrow>
   (\<exists>m'. pop_n linked_list_pop_head (length ys) m (Some a) = Inr (map snd ys, m')) \<and>
   (\<exists>m'. pop_n linked_list_pop_head (length ys + 1) m (Some a) = Inl (OutOfBounds m'))"
proof (induction ys arbitrary: m)
  case (Cons bx ys)
  obtain b x where bx: "bx = (b, x)" by (cases bx)
  obtain m1 where "linked_list_pop_head m (Some a) = Inr (x, m1)" "short_forward m1 a ys d"
    using short_forward_pop [of m a b x ys d] Cons.prems bx by auto
  then show ?case using Cons.IH [of m1] Cons.prems bx by auto
qed (auto dest: short_forward_end)

section \<open>Concatenation\<close>

lemma two_list_cells:
  assumes "lists_ok m S" and "S a = Some xs" and "S b = Some ys" and "a \<noteq> b"
  obtains l k us ws where "ll_lists m a = Some l" "list_ok (ll_nodes m) l us" "xs = map snd us"
    "ll_lists m b = Some k" "list_ok (ll_nodes m) k ws" "ys = map snd ws" "addrs us \<inter> addrs ws = {}"
proof -
  obtain F us where F: "mem_ok m F" "F a = Some us" "xs = map snd us" "S = (\<lambda>a. map_option (map snd) (F a))"
    using assms(1,2) by (rule lists_okE)
  obtain ws where ws: "F b = Some ws" "ys = map snd ws" using F(4) assms(3) by auto
  show thesis using that mem_ok_list [OF F(1,2)] mem_ok_list [OF F(1) ws(1)] F(3) ws(2)
    mem_ok_disjoint [OF F(1,2) ws(1) assms(4)] by blast
qed

lemma concat_cells:
  assumes l: "ll_lists m a = Some l" "list_ok (ll_nodes m) l (us @ [(c, x)])"
    and k: "ll_lists m b = Some k" "list_ok (ll_nodes m) k ws" and ab: "a \<noteq> b" and ne: "ws \<noteq> []"
    and disj: "addrs (us @ [(c, x)]) \<inter> addrs ws = {}" and n: "int (length us + 1 + length ws) < 2 ^ 63"
  shows "\<exists>m' l'. linked_list_concat m (Some a) (Some b) = Inr m' \<and> ll_lists m' a = Some l' \<and>
    ll_size l' = int (length ws + (length us + 1)) \<and> fseg (ll_nodes m') (ll_head l') (us @ [(c, x)] @ ws) None \<and>
    short_back m' a ws (length us + 1)"
proof -
  obtain q where seg: "ll_tail l = Some c" "ll_nodes m c = Some \<lparr>n_content = x, n_next = None, n_prev = q\<rparr>"
      "dseg (ll_nodes m) None (ll_head l) us q (Some c)" "c \<notin> addrs us" "ll_size l = int (length us + 1)"
    using l(2) by (auto simp: list_ok_def dseg_last)
  have w: "dseg (ll_nodes m) None (ll_head k) ws (ll_tail k) None" "ll_size k = int (length ws)"
      "distinct (map fst ws)" "c \<notin> addrs ws"
    using k(2) disj by (auto simp: list_ok_def)
  let ?h = "(ll_nodes m)(c \<mapsto> \<lparr>n_content = x, n_next = ll_head k, n_prev = q\<rparr>)"
  let ?l = "l\<lparr>ll_size := int (length us + 1 + length ws), ll_tail := ll_tail k\<rparr>"
  let ?m = "m\<lparr>ll_nodes := ?h, ll_lists := (ll_lists m)(a \<mapsto> ?l)\<rparr>"
  have "wrap64 (int (length us + 1) + int (length ws)) = int (length us + 1 + length ws)"
    using n by (simp add: wrap64_id)
  then have "linked_list_concat m (Some a) (Some b) = Inr ?m"
    using l(1) k(1) seg(1,2,5) w(2) ab ne
    by (cases l) (auto simp: linked_list_concat_def linked_list_is_empty_def cell_defs)
  moreover have "fseg ?h (ll_head l) (us @ [(c, x)] @ ws) None"
    using dseg_fseg [OF seg(3)] dseg_fseg [OF w(1)] seg(4) w(4) by (auto simp: fseg_append)
  moreover have "short_back ?m a ws (length us + 1)"
    using w by (auto simp: short_back_def)
  ultimately show ?thesis by (intro exI [of _ ?m] exI [of _ ?l]) simp
qed

section \<open>Properties\<close>

text \<open>
  The iterator visits a list in order: after \<^verbatim>\<open>linked_list_it_set_list\<close>, skipping \<open>n\<close> elements
  returns whether the list has that many, leaves the last element passed in \<^verbatim>\<open>*content\<close>, and the iterator
  then has the elements from the \<open>n\<close>-th on before it.
\<close>

lemma linked_list_it_skip_visits:
  assumes "lists_ok m S" and "S a = Some xs"
  shows "\<exists>it'. bind_run (linked_list_it_set_list m it (Some a)) (\<lambda>it. linked_list_it_skip m it (Some d) (int n)) =
      Inr (n \<le> length xs, Some (last (d # take n xs)), it') \<and> ahead m it' (drop n xs)"
proof -
  obtain l ys where l: "ll_lists m a = Some l" "list_ok (ll_nodes m) l ys" "xs = map snd ys"
    using lists_ok_list [OF assms] by blast
  then have "fseg (ll_nodes m) (ll_head l) ys None" by (auto simp: list_ok_def intro: dseg_fseg)
  then obtain it1 where it1: "linked_list_it_set_list m it (Some a) = Inr it1" "ahead m it1 xs"
    using set_list_ahead [OF l(1)] l(3) by blast
  then show ?thesis using skip_ahead [OF it1(2), of d n] by (auto simp: linked_list_it_skip_def)
qed

text \<open>Lists \<open>[5, 6]\<close> and \<open>[7]\<close>.\<close>

lemma sample_lists: "\<exists>m. lists_ok m [0 \<mapsto> [5, 6], 1 \<mapsto> [7 :: nat]]"
  using ll.run_refines [OF two_lists_ok, of "[PushHead 0 6, PushHead 0 5, PushHead 1 7]"]
  by (auto simp: room_def fun_upd_twist)

lemma linked_list_it_skip_visits_witness:
  "\<exists>m it'. lists_ok m [0 \<mapsto> [5, 6], 1 \<mapsto> [7 :: nat]] \<and>
     bind_run (linked_list_it_set_list m (linked_list_it_alloc None) (Some 0)) (\<lambda>it. linked_list_it_skip m it (Some 0) (int 1)) =
       Inr (True, Some 5, it') \<and> ahead m it' [6]"
proof -
  obtain m where m: "lists_ok m [0 \<mapsto> [5, 6], 1 \<mapsto> [7 :: nat]]" using sample_lists by blast
  then show ?thesis using linked_list_it_skip_visits [OF m, of 0 "[5, 6]" "linked_list_it_alloc None" 0 1] by auto
qed

text \<open>
  Concatenation joins the forward pointers only: \<open>a\<close> then has the sizes added and an iterator on it
  visits the elements of both lists, but the node after the join still has \<^verbatim>\<open>NULL\<close> behind it, so the
  elements of \<open>b\<close> can be popped from the tail and the next pop follows a \<^verbatim>\<open>NULL\<close> pointer.
\<close>

lemma linked_list_concat_forward_only:
  assumes "lists_ok m S" and "S a = Some xs" and "S b = Some ys" and "a \<noteq> b" and "xs \<noteq> []" and "ys \<noteq> []"
    and "int (length xs + length ys) < 2 ^ 63"
  shows "\<exists>m'. linked_list_concat m (Some a) (Some b) = Inr m' \<and>
    linked_list_size m' (Some a) = Inr (int (length xs + length ys)) \<and>
    (\<exists>it'. linked_list_it_set_list m' it (Some a) = Inr it' \<and> ahead m' it' (xs @ ys)) \<and>
    (\<exists>m''. pop_n linked_list_pop_tail (length ys) m' (Some a) = Inr (rev ys, m'')) \<and>
    (\<exists>m''. pop_n linked_list_pop_tail (length ys + 1) m' (Some a) = Inl (OutOfBounds m''))"
proof -
  obtain l k us ws where c: "ll_lists m a = Some l" "list_ok (ll_nodes m) l us" "xs = map snd us"
    "ll_lists m b = Some k" "list_ok (ll_nodes m) k ws" "ys = map snd ws" "addrs us \<inter> addrs ws = {}"
    by (rule two_list_cells [OF assms(1-4)])
  obtain vs c x where us: "us = vs @ [(c, x)]" using assms(5) c(3) by (cases us rule: rev_cases) auto
  obtain m' l' where m': "linked_list_concat m (Some a) (Some b) = Inr m'" "ll_lists m' a = Some l'"
      "ll_size l' = int (length ws + (length vs + 1))" "fseg (ll_nodes m') (ll_head l') (us @ ws) None"
      "short_back m' a ws (length vs + 1)"
    using concat_cells [OF c(1) _ c(4,5) assms(4), of vs c x] c us assms(6,7) by auto
  have "linked_list_size m' (Some a) = Inr (int (length xs + length ys))"
    using m'(2,3) c(3,6) us by (simp add: linked_list_size_def cell_defs)
  moreover have "\<exists>it'. linked_list_it_set_list m' it (Some a) = Inr it' \<and> ahead m' it' (xs @ ys)"
    using set_list_ahead [OF m'(2,4)] c(3,6) by fastforce
  ultimately show ?thesis
    using short_back_fails [OF m'(5)] m'(1) assms(7) c(3,6) us by simp
qed

lemma linked_list_concat_forward_only_witness:
  "\<exists>m m'. lists_ok m [0 \<mapsto> [5, 6], 1 \<mapsto> [7 :: nat]] \<and> linked_list_concat m (Some 0) (Some 1) = Inr m' \<and>
     linked_list_size m' (Some 0) = Inr 3 \<and>
     (\<exists>m''. pop_n linked_list_pop_tail 2 m' (Some 0) = Inl (OutOfBounds m''))"
proof -
  obtain m where m: "lists_ok m [0 \<mapsto> [5, 6], 1 \<mapsto> [7 :: nat]]" using sample_lists by blast
  then show ?thesis
    using linked_list_concat_forward_only [OF m, of 0 "[5, 6]" 1 "[7]" "linked_list_it_alloc None"]
    by (auto simp: numeral_2_eq_2 simp del: pop_n.simps)
qed

text \<open>
  Removing the first element through a new iterator leaves the list inconsistent: the call
  succeeds and a new traversal sees the other elements, but the iterator itself is at its end, the
  size still counts the removed element, and taking that many elements from the head follows a
  \<^verbatim>\<open>NULL\<close> pointer.
\<close>

lemma linked_list_it_remove_keeps_size:
  assumes "lists_ok m S" and "S a = Some xs" and "xs \<noteq> []" and "int (length xs) < 2 ^ 63"
  shows "\<exists>it' m'. bind_run (linked_list_it_set_list m it (Some a)) (\<lambda>it. linked_list_it_remove m it) =
      Inr (True, it', m') \<and> linked_list_it_has_next m' it' = Inr (False, it') \<and>
    linked_list_size m' (Some a) = Inr (int (length xs)) \<and>
    (\<exists>it''. linked_list_it_set_list m' it (Some a) = Inr it'' \<and> ahead m' it'' (tl xs)) \<and>
    (\<exists>m''. pop_n linked_list_pop_head (length xs - 1) m' (Some a) = Inr (tl xs, m'')) \<and>
    (\<exists>m''. pop_n linked_list_pop_head (length xs) m' (Some a) = Inl (OutOfBounds m''))"
proof -
  obtain l ys where l: "ll_lists m a = Some l" "list_ok (ll_nodes m) l ys" "xs = map snd ys"
    using lists_ok_list [OF assms(1,2)] by blast
  obtain b x zs where ys: "ys = (b, x) # zs" using assms(3) l(3) by (cases ys) auto
  obtain g where seg: "ll_head l = Some b" "ll_nodes m b = Some \<lparr>n_content = x, n_next = g, n_prev = None\<rparr>"
      "dseg (ll_nodes m) (Some b) g zs (ll_tail l) None" "b \<notin> addrs zs" "distinct (map fst zs)"
      "ll_size l = int (length zs + 1)"
    using l(2) ys by (auto simp: list_ok_def dseg_first simp del: dseg.simps(2))
  let ?l = "if g = None then l\<lparr>ll_head := g, ll_tail := None\<rparr> else l\<lparr>ll_head := g\<rparr>"
  let ?m = "m\<lparr>ll_lists := (ll_lists m)(a \<mapsto> ?l), ll_nodes := (ll_nodes m)(b := None)\<rparr>"
  obtain it1 where it1: "linked_list_it_set_list m it (Some a) = Inr it1" "\<not> lit_consumed it1"
      "lit_cursor it1 = ll_head l" "lit_list it1 = Some a"
    using set_list_ahead [OF l(1), of ys] l(2) by (auto simp: list_ok_def dest: dseg_fseg)
  let ?it = "it1\<lparr>lit_cursor := None, lit_consumed := True\<rparr>"
  have remove: "linked_list_it_remove m it1 = Inr (True, ?it, ?m)"
    using it1 seg(1,2) l(1) by (auto simp: linked_list_it_remove_def it_advance_def cell_defs)
  have f: "fseg (ll_nodes ?m) g zs None" using dseg_fseg [OF seg(3)] seg(4) by simp
  then have "short_forward ?m a zs 1" using seg(5,6) by (auto simp: short_forward_def)
  from short_forward_fails [OF this] have pops:
    "\<exists>m''. pop_n linked_list_pop_head (length xs - 1) ?m (Some a) = Inr (tl xs, m'')"
    "\<exists>m''. pop_n linked_list_pop_head (length xs) ?m (Some a) = Inl (OutOfBounds m'')"
    using assms(4) l(3) ys by auto
  have "\<exists>it''. linked_list_it_set_list ?m it (Some a) = Inr it'' \<and> ahead ?m it'' (tl xs)"
    using set_list_ahead [of ?m a ?l zs it] f l(3) ys by auto
  moreover have "linked_list_size ?m (Some a) = Inr (int (length xs))"
    using seg(6) l(3) ys by (auto simp: linked_list_size_def cell_defs)
  moreover have "linked_list_it_has_next ?m ?it = Inr (False, ?it)" by (simp add: linked_list_it_has_next_def)
  ultimately show ?thesis using it1(1) remove pops by (intro exI [of _ ?it] exI [of _ ?m]) simp
qed

end
