(* ===== verification/Spec2Isabelle.thy ===== *)
theory Spec2Isabelle
  imports Stack_Spec Net_Threads_Props Arp_Exit_Props Linked_List_Iter
begin

text \<open>
  A verification library for the user-space TCP/IP stack under \<^verbatim>\<open>src/src\<close>: an Ethernet, ARP, IPv4 and
  ICMP responder that reads frames from a Linux tap device, learns the hardware addresses of its
  neighbours and answers echo requests.

  \<^bold>\<open>How the program works.\<close>  \<^verbatim>\<open>main\<close> opens ten queues of one tap device (\<^verbatim>\<open>tun_device.c\<close>), sets
  the addresses of the stack (\<^verbatim>\<open>net_interface.c\<close>), creates the ARP cache (\<^verbatim>\<open>arp.c\<close> on \<^verbatim>\<open>hashmap.c\<close>) and
  starts ten threads.  Each thread runs \<^verbatim>\<open>process_io\<close>: it reads a frame into its own buffer of 100
  bytes, converts the Ethernet header to host order in place and dispatches on the type.  ARP
  requests are answered and their sender is stored in the cache; IPv4 datagrams go on to ICMP, TCP or
  UDP; ICMP answers echo requests through \<^verbatim>\<open>ip_send\<close>, which resolves the destination in the cache
  and hands the datagram to \<^verbatim>\<open>net_interface_send\<close>; TCP and UDP only print.

  \<^bold>\<open>How it is modelled.\<close>  A thread works on one state record that grows with the components, as the
  C program's file-scope variables do: \<open>tun_state\<close> (descriptors and busy flags, the trace of
  output events), \<open>net_state\<close> (own addresses, transmit buffers) and \<open>arp_state\<close> (the cache and the
  hardware addresses it points to).  Buffers are lists of bytes; a packed struct is a record with its
  memory image on a little-endian host, and the program's casts of a buffer to a struct are reads and
  writes at an offset (\<open>get_at\<close>, \<open>put_at\<close>).  Integers keep their width.  An operation returns the new
  state or a \<open>halt\<close>: a failed assertion, \<^verbatim>\<open>abort\<close>, \<^verbatim>\<open>exit\<close>, an access outside an object, or a loop that
  does not end.  Every result \<open>Inr\<close> below thus says that none of these happens.

  \<^bold>\<open>The theories.\<close>
  \<^item> \<^verbatim>\<open>Net_Prelude\<close>: integer types, byte order, memory images, the interface \<open>packed_struct\<close> with the
    laws of reading and writing a struct in a buffer, the run type, hardware addresses.
  \<^item> \<^verbatim>\<open>Step_Systems\<close>: what the step relations share, as the interfaces \<open>kept_by_steps\<close> (an invariant holds along
    every run) and \<open>bounded_steps\<close> (a measure bounds every run, and runs can be brought to their end).
  \<^item> \<^verbatim>\<open>Checksum\<close> (\<^verbatim>\<open>utils/protocols.c\<close>): \<open>sum16\<close> equals the one's complement sum of RFC 1071 over
    big-endian words, a stored checksum verifies, and one changed byte is noticed.  The bound of
    131074 bytes in these lemmas is where the 32-bit accumulator of the loop may start to wrap.
  \<^item> \<^verbatim>\<open>Hashmap\<close>, \<^verbatim>\<open>Hashmap_Correct\<close>, \<^verbatim>\<open>Hashmap_Props\<close> (\<^verbatim>\<open>collections/hashmap.c\<close>): open addressing with
    linear probing, growth, the iterator.  The invariant \<open>hm_inv\<close> says that the slots between the home
    of a key and its place are used and that the table has room; \<open>hm_lookup\<close> abstracts to a partial
    map.  The mutual recursion of \<^verbatim>\<open>hashmap_put\<close> and \<^verbatim>\<open>hashmap_expand\<close> is one function \<open>hm_run\<close> with
    a call argument; it and the probe loop are \<open>partial_function (option)\<close>, and that they return is
    proved.  The interface \<open>key_store\<close> is what the cache uses.
  \<^item> \<^verbatim>\<open>Log\<close> (\<^verbatim>\<open>utils/log.c\<close>): what the print functions write, the output events, \<^verbatim>\<open>inet_pton\<close>.
  \<^item> \<^verbatim>\<open>Ethernet\<close>, \<^verbatim>\<open>Tun_Device\<close>, \<^verbatim>\<open>Net_Interface\<close>: the header, the queues and their set-up, sending and
    reading.  The invariants are \<open>tun_ok\<close> and \<open>net_ok\<close>; the interface \<open>frame_sender\<close> says that a send
    puts one frame on the wire.
  \<^item> \<^verbatim>\<open>Tun_Queues\<close>: the protocol on the busy flags that threads sharing the queues follow, as a step relation;
    \<^verbatim>\<open>available\<close> and \<^verbatim>\<open>set_busy\<close> are atomic (each holds the mutex), the pair is not.
  \<^item> \<^verbatim>\<open>Net_Threads\<close>, \<^verbatim>\<open>Net_Solo\<close>, \<^verbatim>\<open>Net_Exclusive\<close>, \<^verbatim>\<open>Net_Threads_Props\<close>: the threads inside \<^verbatim>\<open>net_interface_send\<close> and
    \<^verbatim>\<open>net_interface_read\<close>, statement by statement (\<open>send_exec\<close>, \<open>read_exec\<close>, the step relation \<open>iostep\<close>), each with a list of
    calls to make.  The transmit buffers are shared, and a thread keeps the pointer that it read, so a moved block is a
    state of the model.  Shown: the steps refine the queue protocol; a thread alone computes what the functions compute;
    while no two threads work on the same transmit buffer (\<open>xstep\<close>), in particular with one sender, no frame is lost or
    mixed and all calls can finish; every run ends; and without that restriction a frame can be lost or a freed block
    be used.
  \<^item> \<^verbatim>\<open>Arp\<close>, \<^verbatim>\<open>Arp_Correct\<close>, \<^verbatim>\<open>Arp_Props\<close> (\<^verbatim>\<open>protocols/arp.c\<close>): the cache as a hash map from allocated keys
    to allocated hardware addresses, abstracted to \<open>arp_table\<close>; reception is proved to be the
    algorithm of RFC 826 on that table.  The cache is printed and freed by \<open>dump_loop\<close>, whose fuel is the
    capacity plus one: each round but the last moves the cursor on.
  \<^item> \<^verbatim>\<open>Arp_Threads\<close>, \<^verbatim>\<open>Arp_Threads_Props\<close>: the threads that share the cache, as a step relation in which
    \<^verbatim>\<open>cache_mutex\<close> is a state, a hardware address is copied byte by byte and the unlocked lookups can race
    with a put.  Every interleaving keeps the cache valid and ends; each thread owns no cell, so the
    invariant assigns cells to keys.
  \<^item> \<^verbatim>\<open>Arp_Exit\<close>, \<^verbatim>\<open>Arp_Exit_Props\<close>: \<^verbatim>\<open>exit\<close> called in one thread while the others use the cache.  \<open>exit_exec\<close> is
    \<^verbatim>\<open>arp_destroy\<close> statement by statement, \<open>estep\<close> interleaves it with \<open>cstep\<close> and records which blocks are freed and
    which threads have used a freed one.  While the map does not grow nothing is freed twice, but blocks in
    use can be freed.
  \<^item> \<^verbatim>\<open>Ip\<close>, \<^verbatim>\<open>Ip_Correct\<close>, \<^verbatim>\<open>Ip_Receive\<close>, \<^verbatim>\<open>Icmp\<close>, \<^verbatim>\<open>Icmp_Correct\<close>: headers, checks, the datagrams sent,
    and the answer to an echo request, byte for byte.
  \<^item> \<^verbatim>\<open>Tcp\<close>, \<^verbatim>\<open>Tcp_Props\<close>: the pseudo-header checksum against RFC 793, and what the conversions do.
  \<^item> \<^verbatim>\<open>Linked_List\<close>, \<^verbatim>\<open>Linked_List_Correct\<close>, \<^verbatim>\<open>Linked_List_Props\<close>, \<^verbatim>\<open>Linked_List_Iter\<close>
    (\<^verbatim>\<open>collections/linked_list.c\<close>, which the Makefile does not build): lists on a memory of node and list
    cells.  \<open>dseg\<close> describes doubly linked nodes, \<open>mem_ok\<close> a memory of disjoint lists without leaks,
    \<open>lists_ok\<close> its abstraction to queues.  The interface \<open>deque_store\<close> is interpreted on the operations at
    the ends.  The iterator is proved over forward pointers only (\<open>fseg\<close>), because concatenation keeps
    only those.
  \<^item> \<^verbatim>\<open>Main_Loop\<close>, \<^verbatim>\<open>Stack\<close>, \<^verbatim>\<open>Stack_Reads\<close> and this theory (\<^verbatim>\<open>main.c\<close>): initialisation, the rounds of a thread, the
    threads interleaved by rounds, \<^verbatim>\<open>exit\<close> with its handler, and the properties that span the whole stack:
    the program stays safe on well-sized frames and on single failed reads (the handlers keep the Ethernet
    header of the buffer), a new neighbour is learnt and its ping is answered, and what a failed read can do.
  \<^item> \<^verbatim>\<open>Stack_Spec\<close>: the abstract specification of the whole program.  \<open>react\<close> gives the frames and the table that a frame
    leads to, from RFC 826, the RFC 1071 sums and the echo reply; \<open>host_run\<close> folds it over the frames read.  Every handler
    is shown to do what \<open>react\<close> says (\<open>does\<close>), and \<open>main_run_implements_host\<close> below lifts it to \<^verbatim>\<open>main\<close> with all threads.
    The specification speaks of frames that contain their packets (\<open>frame_full\<close>): on shorter ones the code reads what
    earlier frames left in the buffer.

  \<^bold>\<open>Parameters.\<close>  The kernel and the shell are arguments: \<^verbatim>\<open>open\<close>, \<^verbatim>\<open>ioctl\<close> and \<^verbatim>\<open>system\<close> in the record
  \<open>kernel\<close>, the answers to \<^verbatim>\<open>read\<close> as the list that \<open>process_io\<close> consumes (at most the bytes asked for,
  as documented), writes as events of the trace.  The byte after an array, where the hash map iterator
  looks, is an argument \<open>oob\<close>.  The bytes by which \<^verbatim>\<open>realloc\<close> grows a transmit buffer are given by \<open>heap_fill\<close>,
  and allocations succeed.  The host is little-endian, \<^verbatim>\<open>int\<close> has 32 and \<^verbatim>\<open>long\<close> 64 bits.  \<^verbatim>\<open>DEBUG\<close> has in
  each file the value that the file defines (1 in \<^verbatim>\<open>net_interface.c\<close>, \<^verbatim>\<open>arp.c\<close>, \<^verbatim>\<open>tcp.c\<close> and \<^verbatim>\<open>udp.c\<close>, else 0); the output
  under \<^verbatim>\<open>#if DEBUG\<close> is part of the trace where it is compiled.  In the step relations the scheduler, the answers
  to \<^verbatim>\<open>read\<close> and the addresses that \<^verbatim>\<open>realloc\<close> returns are chosen freely at every step.

  \<^bold>\<open>Limits of the code.\<close>  Where the code does not do what it means to, the development states what it
  does: removal from the middle of a probe cluster loses keys, removing an absent key lets the table
  fill, the queue search has no bound, two threads may take the same queue and lose a frame or
  write to a freed buffer, the hardware address is copied as text, the length of a datagram is never compared with the bytes
  received, the TCP check loses a carry, the cache is read and written outside its mutex and 
  freed at exit while threads use it, a failed read
  makes the loop handle an old frame, concatenated lists have no backward pointer at the join, and
  removal through a list iterator keeps the size.  The positive theorems carry the hypotheses that exclude these.

  \<^bold>\<open>Not modelled.\<close>  The rounds of different threads are atomic in \<open>run_threads\<close>; interleavings inside a
  round are the subject of \<open>iostep\<close>, \<open>cstep\<close> and \<open>estep\<close>, one for each group of shared objects.  \<^verbatim>\<open>net_interface_destroy\<close> is
  modelled as a call but is in no step relation: the transmit buffers that it frees while other threads send are the same
  race as that of the cache.  \<^verbatim>\<open>sleep\<close> is left out, as are the tests and the
  build files.  Every other function of \<^verbatim>\<open>src/src\<close> has a definition here.
\<close>

section \<open>Initialisation\<close>

text \<open>
  When the device opens and the commands succeed, the initialisation of \<^verbatim>\<open>main\<close> returns with the
  state that the loop needs.
\<close>

lemma main_init_ok:
  assumes "net_ok w" and "\<forall>i < TUN_QUEUES. 0 \<le> k_open k i \<and> k_ioctl k i = 0"
    and "length (k_ifr_name k) < 10"
    and "k_system k (take 99 (''ip link set dev '' @ k_ifr_name k @ '' up'')) = 0"
    and "k_system k (take 99 (''ip route add dev '' @ k_ifr_name k @ '' 10.0.0.0/24'')) = 0"
  shows "\<exists>w'. main_init k w = Inr (w', replicate THREADS (replicate BUFLEN 0)) \<and>
    arp_ok w' \<and> arp_table w' = Map.empty \<and> ni_ip w' = u32_of 10 0 0 4 \<and>
    tun_fds w' = map (k_open k) [0..<TUN_QUEUES] \<and> busy_status w' = busy_status w \<and>
    ni_mac w' = MAC 0x30 0x30 0x3a 0x30 0x63 0x3a \<and> frames_of (trace w') = frames_of (trace w)"
proof -
  let ?w1 = "emit (INFO (''Created TUN interface : '' @ k_ifr_name k @ newline)) (w\<lparr> tun_fds := map (k_open k) [0..<TUN_QUEUES] \<rparr>)"
  let ?w2 = "?w1\<lparr> ni_mac := MAC 0x30 0x30 0x3a 0x30 0x63 0x3a, ni_ip := u32_of 10 0 0 4 \<rparr>"
  have "tun_ok w" using assms(1) by (simp add: net_ok_def)
  then have tun: "tun_init k w (Some 10) = Inr (k_ifr_name k, w\<lparr> tun_fds := map (k_open k) [0..<TUN_QUEUES] \<rparr>)"
    by (rule tun_init_ok [OF _ assms(2-5)])
  have net: "net_interface_init ?w1 ''10.0.0.4'' ''00:0c:29:6d:50:25'' = Inr ?w2" by (rule net_interface_init_main)
  have "net_ok (w\<lparr> tun_fds := map (k_open k) [0..<TUN_QUEUES] \<rparr>)" by (rule tun_init_net [OF assms(1)]) simp
  then have "net_ok ?w2" by (simp add: net_ok_def tun_ok_def del: upt_rec_numeral)
  then obtain w3 where w3: "arp_init ?w2 = Inr w3" "arp_ok w3" "w3 = ?w2\<lparr> arp_cache := arp_cache w3 \<rparr>"
    "arp_table w3 = Map.empty" using arp_init_ok by blast
  have "ni_ip w3 = u32_of 10 0 0 4" "tun_fds w3 = map (k_open k) [0..<TUN_QUEUES]" "busy_status w3 = busy_status w"
    "ni_mac w3 = MAC 0x30 0x30 0x3a 0x30 0x63 0x3a" "frames_of (trace w3) = frames_of (trace w)"
    by (subst w3(3); simp del: upt_rec_numeral)+
  moreover have "main_init k w = Inr (emit (INFO (''Init successful'' @ newline)) w3, replicate THREADS (replicate BUFLEN 0))"
    unfolding main_init_def tun bind_run_simps prod.case Let_def net w3(1) by simp
  ultimately show ?thesis using w3(2,4) by (auto simp del: upt_rec_numeral)
qed

section \<open>The structs on the wire\<close>


section \<open>From the start to the answer of a ping\<close>

text \<open>
  C2. A new neighbour can ping the stack: in any good state, when a thread reads an ARP request of a
  host for the stack's address and then a valid echo request of that host (up to 66 bytes of ICMP
  message, the size of the receive buffer), the two rounds return and put exactly two frames on the
  wire, the ARP reply and the echo reply, both to the hardware address learnt from the request.
\<close>

theorem neighbour_can_ping:
  assumes "arp_ok w" and "some_free w" and "length buffer = BUFLEN"
    and "\<And>fd. rd1 fd 100 = Some (eth_frame BROADCAST pm ETH_P_ARP (arp_packet ARP_REQUEST pm pip dm (ni_ip w)))"
    and "\<And>fd. rd2 fd 100 = Some (eth_frame (ni_mac w) pm ETH_P_IP (ip_bytes h @ msg))"
    and "ip_header_check h" and "protocol h = PROTOCOL_ICMP" and "unat (ntohs (ip_len h)) = ip_size + length msg"
    and "src_addr h = pip"
    and "icmp_size \<le> length msg" and "ip_data_off + length msg \<le> BUFLEN" and "internet_checksum msg = 0"
    and "msg ! 0 = ICMP_ECHO_REQUEST"
  shows "\<exists>w' buffer'. process_io [(rd1, err1), (rd2, err2)] w buffer = Inr (w', buffer') \<and>
    arp_ok w' \<and> some_free w' \<and> arp_table w' = (arp_table w)((ARP_IPV4, pip) \<mapsto> pm) \<and>
    frames_of (trace w') = frames_of (trace w) @
      [eth_frame pm (ni_mac w) ETH_P_ARP (arp_packet ARP_REPLY (ni_mac w) (ni_ip w) pm pip),
       eth_frame pm (ni_mac w) ETH_P_IP
         (ip_bytes (ip_header_update_checksum (h\<lparr> src_addr := ni_ip w, dst_addr := pip \<rparr>)) @ echo_reply msg)]"
proof -
  obtain w1 b1 where r1: "process_io_round (rd1, err1) w buffer = Inr (w1, b1)" "length b1 = BUFLEN"
    and h1: "handled w ((arp_table w)((ARP_IPV4, pip) \<mapsto> pm))
      [eth_frame pm (ni_mac w) ETH_P_ARP (arp_packet ARP_REPLY (ni_mac w) (ni_ip w) pm pip)] w1"
    using arp_round [where rd = rd1, OF assms(1-3) assms(4), of err1] by blast
  have w1: "arp_ok w1" "some_free w1" "ni_ip w1 = ni_ip w" "ni_mac w1 = ni_mac w"
    "arp_table w1 (ARP_IPV4, src_addr h) = Some pm"
    using h1 assms(9) by (simp_all add: handled_def)
  obtain w2 b2 where r2: "process_io_round (rd2, err2) w1 b1 = Inr (w2, b2)"
    and h2: "handled w1 (arp_table w1) [eth_frame pm (ni_mac w1) ETH_P_IP
      (ip_packet ((ip_header_ntoh h)\<lparr> dst_addr := htonl (src_addr h), src_addr := htonl (ni_ip w1) \<rparr>) (echo_reply msg))] w2"
    using ping_round [where rd = rd2, OF w1(1,2) r1(2) assms(5) assms(6-8,10-13) w1(5), of err2] by blast
  have "ip_packet ((ip_header_ntoh h)\<lparr> dst_addr := htonl (src_addr h), src_addr := htonl (ni_ip w) \<rparr>) (echo_reply msg) =
      ip_bytes (ip_header_update_checksum (h\<lparr> src_addr := ni_ip w, dst_addr := pip \<rparr>)) @ echo_reply msg"
    using assms(9) by (simp add: ip_packet_def ip_header_ntoh_def ip_header_hton_def)
  moreover have "process_io [(rd1, err1), (rd2, err2)] w buffer = Inr (w2, b2)" using r1(1) r2 by simp
  ultimately show ?thesis using h1 h2 w1(3,4) by (auto simp: handled_def)
qed

theorem neighbour_can_ping_witness:
  "\<exists>w' buffer'. process_io
      [(\<lambda>fd n. Some (eth_frame BROADCAST sample_peer ETH_P_ARP
          (arp_packet ARP_REQUEST sample_peer (u32_of 10 0 0 9) 0 (u32_of 10 0 0 4))), []),
       (\<lambda>fd n. Some (eth_frame (MAC 2 0 0 0 0 4) sample_peer ETH_P_IP
          (ip_bytes (ip_header_update_checksum (ip_header_hton (sample_ping_header (u32_of 9 0 0 10) 10))) @ sample_ping_msg)), [])]
      sample_arp (replicate 100 0) = Inr (w', buffer') \<and>
    arp_table w' = [(ARP_IPV4, u32_of 10 0 0 9) \<mapsto> sample_peer]"
proof -
  let ?h = "ip_header_update_checksum (ip_header_hton (sample_ping_header (u32_of 9 0 0 10) 10))"
  have h: "ip_header_check ?h" "protocol ?h = PROTOCOL_ICMP" "unat (ntohs (ip_len ?h)) = ip_size + length sample_ping_msg"
    "src_addr ?h = u32_of 10 0 0 9" "icmp_size \<le> length sample_ping_msg" "ip_data_off + length sample_ping_msg \<le> BUFLEN"
    by code_simp+
  show ?thesis
    using neighbour_can_ping [OF sample_arp_ok(1,2), of "replicate 100 0"
        "\<lambda>fd n. Some (eth_frame BROADCAST sample_peer ETH_P_ARP
          (arp_packet ARP_REQUEST sample_peer (u32_of 10 0 0 9) 0 (u32_of 10 0 0 4)))" sample_peer "u32_of 10 0 0 9" 0
        "\<lambda>fd n. Some (eth_frame (MAC 2 0 0 0 0 4) sample_peer ETH_P_IP (ip_bytes ?h @ sample_ping_msg))" ?h sample_ping_msg "[]" "[]"]
      h sample_ping_facts(6,7)
    by (auto simp: sample_arp_simps sample_arp_ok(3))
qed

lemma sample_good_read: "good_read (\<lambda>fd n. Some (eth_frame BROADCAST sample_peer 0x86dd [1, 2, 3]))"
  unfolding good_read_def
  by (intro allI exI [of _ BROADCAST] exI [of _ sample_peer] exI [of _ "0x86dd"] exI [of _ "[1, 2, 3]"])
     (simp add: frame_ok_def)


text \<open>A frame of another protocol and then a failed read.\<close>

definition sample_reads :: "(nat \<times> (int \<Rightarrow> int \<Rightarrow> bytes option) \<times> string) list" where
  "sample_reads = [(7, \<lambda>fd n. Some (eth_frame BROADCAST sample_peer 0x86dd [1, 2, 3]), []), (7, \<lambda>fd n. None, ''EIO'')]"

lemma sample_reads_safe: "safe_reads (\<lambda>t. False) sample_reads"
proof -
  let ?rd = "\<lambda>(fd :: int) (n :: int). Some (eth_frame BROADCAST sample_peer 0x86dd [1, 2, 3])"
  have "ntohs 0x86dd \<noteq> ETH_P_ARP \<and> ntohs 0x86dd \<noteq> ETH_P_IP" by code_simp
  moreover have "t = 0x86dd" if "eth_frame BROADCAST sample_peer 0x86dd [1, 2, 3] = eth_frame d s t c" for d s t c
    using that by (auto simp: eth_frame_def append_eq_append_conv u16_bytes_inject)
  ultimately have "calm_read ?rd" unfolding calm_read_def by blast
  then show ?thesis using sample_good_read by (simp add: sample_reads_def failed_read_def)
qed


section \<open>The program implements its specification\<close>


text \<open>An ARP request of a new neighbour, read by one thread, and a read of another that fails.\<close>

definition sample_events :: "(nat \<times> wire_frame option \<times> string) list" where
  "sample_events = [(3, Some (BROADCAST, sample_peer, ETH_P_ARP,
     arp_packet ARP_REQUEST sample_peer (u32_of 10 0 0 9) 0 (u32_of 10 0 0 4)), []), (7, None, ''EIO'')]"

lemma sample_events_facts:
  "safe_reads (\<lambda>t. False) (schedule sample_events)" "all_full sample_events"
  "host_run (u32_of 10 0 0 4) m Map.empty (contents sample_events) =
     ([eth_frame sample_peer m ETH_P_ARP (arp_packet ARP_REPLY m (u32_of 10 0 0 4) sample_peer (u32_of 10 0 0 9))],
      Some [(ARP_IPV4, u32_of 10 0 0 9) \<mapsto> sample_peer])"
proof -
  let ?p = "arp_packet ARP_REQUEST sample_peer (u32_of 10 0 0 9) 0 (u32_of 10 0 0 4)"
  have "good_read (wire_reader (Some (BROADCAST, sample_peer, ETH_P_ARP, ?p)))"
    unfolding good_read_def
    by (intro allI exI [of _ BROADCAST] exI [of _ sample_peer] exI [of _ ETH_P_ARP] exI [of _ ?p])
       (simp add: wire_reader_def frame_ok_def)
  then show "safe_reads (\<lambda>t. False) (schedule sample_events)"
    by (simp add: sample_events_def failed_read_def wire_reader_def)
  show "all_full sample_events"
    by (simp add: all_full_def sample_events_def frame_full_def frame_ok_def)
  show "host_run (u32_of 10 0 0 4) m Map.empty (contents sample_events) =
     ([eth_frame sample_peer m ETH_P_ARP (arp_packet ARP_REPLY m (u32_of 10 0 0 4) sample_peer (u32_of 10 0 0 9))],
      Some [(ARP_IPV4, u32_of 10 0 0 9) \<mapsto> sample_peer])"
    using arp_packet_fields [where rest = "[]" and op = ARP_REQUEST and sm = sample_peer and sip = "u32_of 10 0 0 9" and dm = 0
        and dip = "u32_of 10 0 0 4"]
    by (simp add: sample_events_def react_def Let_def rfc826_frames_def rfc826_table_def arp_supported_def)
qed


text \<open>
  C35. After a failed read the loop handles the old buffer: a frame that carries an ARP request under the
  unknown type 0x0608 is ignored when it arrives, but if the next read fails, its type reads as ARP
  and the stack learns the sender and answers.
\<close>

theorem failed_read_handles_old_frame:
  assumes "arp_ok w" and "some_free w" and "length buffer = BUFLEN"
    and "\<And>fd. rd1 fd 100 = Some (eth_frame d pm (htons ETH_P_ARP) (arp_packet ARP_REQUEST pm pip dm (ni_ip w)))"
    and "\<And>fd. rd2 fd 100 = None"
  shows "(\<exists>buffer'. process_io [(rd1, err1)] w buffer = Inr (w, buffer')) \<and>
    (\<exists>w' buffer'. process_io [(rd1, err1), (rd2, err2)] w buffer = Inr (w', buffer') \<and>
       arp_table w' = (arp_table w)((ARP_IPV4, pip) \<mapsto> pm) \<and>
       frames_of (trace w') = frames_of (trace w) @
         [eth_frame pm (ni_mac w) ETH_P_ARP (arp_packet ARP_REPLY (ni_mac w) (ni_ip w) pm pip)])"
proof -
  let ?p = "arp_packet ARP_REQUEST pm pip dm (ni_ip w)"
  let ?rest = "drop (eth_size + length ?p) buffer" and ?t = "htons ETH_P_ARP"
  let ?es = "ERROR (''Read from tun_fd: '' @ err2 @ newline)"
  have n: "net_ok w" using assms(1) by (simp add: arp_ok_def)
  have t: "?t \<noteq> ETH_P_ARP \<and> ?t \<noteq> ETH_P_IP" by code_simp
  have "process_io_round (rd1, err1) w buffer =
      bind_run (handle_frame w (received d pm ?t (?p @ ?rest))) (\<lambda>(_, w, buffer). Inr (w, buffer))"
    by (rule process_io_round_frame [where rd = rd1]) (use n assms(2-4) in simp_all)
  then have r1: "process_io_round (rd1, err1) w buffer = Inr (w, received d pm ?t (?p @ ?rest))"
    using t by (simp add: handle_frame_def)
  have r2: "process_io_round (rd2, err2) w (received d pm ?t (?p @ ?rest)) =
      bind_run (handle_frame (emit ?es w) (received d pm ETH_P_ARP (?p @ ?rest))) (\<lambda>(_, w, buffer). Inr (w, buffer))"
    using process_io_round_failed [where rd = rd2, OF n assms(2) assms(5), of err2 d pm ?t "?p @ ?rest"]
    by (simp only: ntohs_eq htons_htons)
  obtain w' b' where "handle_frame (emit ?es w) (received d pm ETH_P_ARP (?p @ ?rest)) = Inr (True, w', b')"
    and "handled (emit ?es w) ((arp_table w)((ARP_IPV4, pip) \<mapsto> pm))
      [eth_frame pm (ni_mac w) ETH_P_ARP (arp_packet ARP_REPLY (ni_mac w) (ni_ip w) pm pip)] w'"
    using handle_arp_request [of "emit ?es w" d pm pip dm ?rest] assms(1,2) by auto
  then show ?thesis using r1 r2 by (auto simp: handled_def)
qed

theorem failed_read_handles_old_frame_witness:
  "\<exists>w' buffer'. process_io
      [(\<lambda>fd n. Some (eth_frame BROADCAST sample_peer (htons ETH_P_ARP)
          (arp_packet ARP_REQUEST sample_peer (u32_of 10 0 0 9) 0 (u32_of 10 0 0 4))), []), (\<lambda>fd n. None, ''EIO'')]
      sample_arp (replicate 100 0) = Inr (w', buffer') \<and>
    arp_table w' = [(ARP_IPV4, u32_of 10 0 0 9) \<mapsto> sample_peer]"
  using failed_read_handles_old_frame [OF sample_arp_ok(1,2), of "replicate 100 0"
      "\<lambda>fd n. Some (eth_frame BROADCAST sample_peer (htons ETH_P_ARP)
          (arp_packet ARP_REQUEST sample_peer (u32_of 10 0 0 9) 0 (u32_of 10 0 0 4)))" BROADCAST sample_peer "u32_of 10 0 0 9" 0
      "\<lambda>fd n. None" "[]" "''EIO''"]
  by (auto simp: sample_arp_simps sample_arp_ok(3))

end
